theory Spec2Isabelle
  imports Main "HOL-Library.AList" "HOL-Library.Sublist"
begin

section \<open>Data of the remote feed and of the local file system\<close>

text \<open>
  The repository holds three revisions of the same engine: \<^verbatim>\<open>src/unnamed/part_000\<close>
  (instance cache keyed by uid and root, one commit per pulled batch, a queue in front of
  every change handler), \<^verbatim>\<open>src/unnamed/part_001\<close> (cache keyed by uid, one commit per
  watched path) and \<^verbatim>\<open>src/index.js\<close> (one path per instance, no cache).  Functions
  whose text is the same in part_000 and part_001 are modelled once; where the text differs
  the part_001 function carries the suffix \<open>1\<close> and the index.js function the suffix
  \<open>I\<close>.

  Every asynchronous request (Dropbox client, fs-extra, timers) is a pair of the call made
  and the continuation that waits for it.  A continuation is the closure handed over as
  callback, with the variables it captured.  The environment answers pending requests in
  any order; each answer is one atomic step of the single-threaded event loop.
\<close>

datatype error = ApiError | ENOENT | EIO | UnableToCommitChange

text \<open>One entry of a delta page (\<^verbatim>\<open>Dropbox.Http.PulledChange\<close>): \<open>isFile\<close> and
  \<open>isFolder\<close> are the fields of \<^verbatim>\<open>change.stat\<close>, read only when \<open>wasRemoved\<close> is
  false.\<close>

record change =
  path :: string
  wasRemoved :: bool
  isFile :: bool
  isFolder :: bool

text \<open>One delta page (\<^verbatim>\<open>Dropbox.Http.PulledChanges\<close>).  The engine stores the page
  object itself as its cursor; the client reads only the position token back.\<close>

record pulledChanges =
  changes :: "change list"
  shouldPullAgain :: bool
  blankSlate :: bool
  cursorTag :: nat

datatype node = FileNode | DirNode

text \<open>JavaScript values as far as \<^verbatim>\<open>if (stat.isDirectory)\<close> needs them.  Node's
  \<^verbatim>\<open>fs.Stats\<close> offers \<^verbatim>\<open>isDirectory\<close> as a method, so reading the property without
  calling it yields the function object, whatever the node is.\<close>

datatype jsvalue = JSUndefined | JSBoolean bool | JSFunction

fun truthy :: "jsvalue \<Rightarrow> bool" where
  "truthy JSUndefined = False"
| "truthy (JSBoolean b) = b"
| "truthy JSFunction = True"

definition Stats_isDirectory :: "node \<Rightarrow> jsvalue" where
  "Stats_isDirectory n = JSFunction"

text \<open>Local paths stay symbolic: \<open>PathJoin root rel\<close> is \<^verbatim>\<open>Path.join(root, rel)\<close>,
  \<open>PathResolve segs\<close> is \<^verbatim>\<open>Path.resolve(segs...)\<close> and \<open>PathRaw p\<close> is the string
  \<open>p\<close> handed to fs-extra as it is.\<close>

datatype localpath = PathJoin string string | PathResolve "string list" | PathRaw string

datatype call =
    PollForChanges "nat option"
  | PullChanges "nat option"
  | ReadFile string
  | FsRemove localpath
  | FsMkdirs localpath
  | FsStat localpath
  | FsOutputFile localpath
  | Readdir localpath
  | SetImmediate
  | SetTimeout nat
  | NextTick

datatype cont =
    PollCb nat
  | PullCb "pulledChanges option"
  | DelayCb
  | LocalStateCb nat
  | QueueProcess nat
  | ResetDirCb localpath cont
  | SeriesNext nat
  | EachDone nat nat
  | ParallelLocal nat nat localpath
  | ParallelDropbox nat nat localpath
  | FolderStatCb nat nat localpath
  | FolderRemoveCb nat nat localpath
  | StopCb nat
  | SyncCbI
  | PollCbI cont
  | PullCbI cont
  | DelayCbI cont
  | SeriesNextI nat nat cont

datatype result =
    Ok
  | Failed error
  | StatOk node
  | PollResult bool nat
  | Pulled pulledChanges
  | Listing "string list"

datatype action =
    Issued call cont
  | Returned call cont result
  | OnError nat error
  | OnChange nat "localpath list"
  | CalledBack nat
  | Aborted nat
  | StopCallback nat "error option"
  | Threw

text \<open>The \<^verbatim>\<open>async.queue(worker, 1)\<close> that part_000's \<open>sync\<close> creates for a
  registration: the tasks waiting and the number of workers running.\<close>

record queue =
  tasks :: "localpath list list"
  workers :: nat

text \<open>One activation of \<open>commitChanges\<close>: the batch, \<^verbatim>\<open>async.each\<close>'s counter and
  whether its callback was already consumed by an error, and for every file entry the same
  two variables of its \<^verbatim>\<open>async.parallel\<close>.  \<open>cpath\<close> and \<open>chandler\<close> are the first
  and last parameter of part_001's \<open>commitChanges(path, pulledChanges, callback)\<close>
  (the callback is always the handler of a registration); \<open>ccallback\<close> is the callback
  of index.js's \<open>commitChanges(pulledChanges, callback)\<close>.  part_000's callback is the
  one closure written inside \<open>pullChanges\<close>.\<close>

record commit =
  batch :: pulledChanges
  completed :: nat
  failed :: bool
  par :: "(nat \<times> nat \<times> bool) list"
  cpath :: "string option"
  chandler :: "nat option"
  ccallback :: "cont option"

text \<open>A \<open>DropboxSync\<close> object with the closures and requests that belong to it.
  \<open>paths\<close> maps a watched path to the registration (the handler closure made by one
  \<open>sync\<close> call), in insertion order as \<^verbatim>\<open>Object.keys\<close> lists it.  \<open>client_uid\<close> is
  \<^verbatim>\<open>this.client._uid\<close>, the uid the client was built with; \<open>thispath\<close> is index.js's
  \<^verbatim>\<open>this.path\<close>.\<close>

record inst =
  root :: string
  client_uid :: string
  thispath :: string
  paths :: "(string \<times> nat) list"
  cursor :: "nat option"
  watchingForChanges :: "nat option"
  pullingChanges :: bool
  queues :: "queue list"
  regs :: nat
  commits :: "commit list"
  stops :: nat
  handles :: nat
  pending :: "(call \<times> cont) list"
  trace :: "action list"

type_synonym cache = "(string \<times> nat) list"

datatype event =
    Sync "string option"
  | StopSync string
  | ConsumerCallback nat
  | Return call cont result

section \<open>Helpers shared by the revisions\<close>

definition issue :: "call \<Rightarrow> cont \<Rightarrow> inst \<Rightarrow> inst" where
  "issue c k s = s\<lparr>pending := pending s @ [(c, k)], trace := trace s @ [Issued c k]\<rparr>"

definition emit :: "action \<Rightarrow> inst \<Rightarrow> inst" where
  "emit a s = s\<lparr>trace := trace s @ [a]\<rparr>"

definition err_of :: "result \<Rightarrow> error option" where
  "err_of r = (case r of Failed e \<Rightarrow> Some e | _ \<Rightarrow> None)"

fun valid_result :: "call \<Rightarrow> result \<Rightarrow> bool" where
  "valid_result (PollForChanges c) r = (case r of Failed e \<Rightarrow> True | PollResult h n \<Rightarrow> True | _ \<Rightarrow> False)"
| "valid_result (PullChanges c) r = (case r of Failed e \<Rightarrow> True | Pulled p \<Rightarrow> True | _ \<Rightarrow> False)"
| "valid_result (FsStat p) r = (case r of Failed e \<Rightarrow> True | StatOk n \<Rightarrow> True | _ \<Rightarrow> False)"
| "valid_result (Readdir p) r = (case r of Failed e \<Rightarrow> True | Listing l \<Rightarrow> True | _ \<Rightarrow> False)"
| "valid_result (ReadFile p) r = (case r of Failed e \<Rightarrow> True | Ok \<Rightarrow> True | _ \<Rightarrow> False)"
| "valid_result (FsRemove p) r = (case r of Failed e \<Rightarrow> True | Ok \<Rightarrow> True | _ \<Rightarrow> False)"
| "valid_result (FsMkdirs p) r = (case r of Failed e \<Rightarrow> True | Ok \<Rightarrow> True | _ \<Rightarrow> False)"
| "valid_result (FsOutputFile p) r = (case r of Failed e \<Rightarrow> True | Ok \<Rightarrow> True | _ \<Rightarrow> False)"
| "valid_result SetImmediate r = (r = Ok)"
| "valid_result (SetTimeout n) r = (r = Ok)"
| "valid_result NextTick r = (r = Ok)"

text \<open>\<^verbatim>\<open>toLocalPath\<close>: a leading slash is turned into \<^verbatim>\<open>./\<close> before the join.\<close>

definition toLocalPath :: "string \<Rightarrow> string \<Rightarrow> localpath" where
  "toLocalPath r p =
     PathJoin r (if p \<noteq> [] \<and> hd p = CHR ''/'' then CHR ''.'' # p else p)"

text \<open>\<^verbatim>\<open>toLowerCase\<close> on the letters A to Z.  Paths are taken to be ASCII: JavaScript folds
  the letters beyond it as well, which are left as they are here.\<close>

definition toLowerCase :: "string \<Rightarrow> string" where
  "toLowerCase =
     map (\<lambda>c. let n = (of_char c :: nat) in if 65 \<le> n \<and> n \<le> 90 then char_of (n + 32) else c)"

text \<open>\<^verbatim>\<open>normalizePath\<close> of part_000 (prefix a slash, lower-case) and of part_001
  (prefix a slash only).\<close>

definition normalizePath :: "string \<Rightarrow> string" where
  "normalizePath p = toLowerCase (if p \<noteq> [] \<and> hd p \<noteq> CHR ''/'' then CHR ''/'' # p else p)"

definition normalizePath1 :: "string \<Rightarrow> string" where
  "normalizePath1 p = (if p \<noteq> [] \<and> hd p \<noteq> CHR ''/'' then CHR ''/'' # p else p)"

text \<open>\<^verbatim>\<open>delay(seconds, fn)\<close>: \<^verbatim>\<open>setImmediate\<close> when \<open>seconds\<close> is falsy, else
  \<^verbatim>\<open>setTimeout(fn, seconds * 1000)\<close>.  The product is exact here; the code multiplies
  doubles, which is the same for every number of seconds a poll answers with in practice
  (below \<open>2\<^sup>5\<^sup>3 / 1000\<close>).\<close>

definition delay :: "nat \<Rightarrow> cont \<Rightarrow> inst \<Rightarrow> inst" where
  "delay seconds k s = (if seconds = 0 then issue SetImmediate k s else issue (SetTimeout (seconds * 1000)) k s)"

text \<open>\<^verbatim>\<open>pullChanges(prevChanges)\<close> up to the request: dropped while the busy flag is
  set.\<close>

definition pullChanges :: "pulledChanges option \<Rightarrow> inst \<Rightarrow> inst" where
  "pullChanges prevChanges s =
     (if pullingChanges s then s
      else issue (PullChanges (cursor s)) (PullCb prevChanges) (s\<lparr>pullingChanges := True\<rparr>))"

definition watchForChanges :: "inst \<Rightarrow> inst" where
  "watchForChanges s =
     (if cursor s = None then pullChanges None s
      else if watchingForChanges s \<noteq> None then s
      else issue (PollForChanges (cursor s)) (PollCb (handles s))
             (s\<lparr>watchingForChanges := Some (handles s), handles := Suc (handles s)\<rparr>))"

text \<open>\<^verbatim>\<open>errAll\<close>: every registered handler is called with the error; \<open>h\<close> is the
  handler closure of the revision.\<close>

definition errAll :: "(nat \<Rightarrow> error + 'a \<Rightarrow> inst \<Rightarrow> inst) \<Rightarrow> error \<Rightarrow> inst \<Rightarrow> inst" where
  "errAll h e s = fold (\<lambda>(p, r). h r (Inl e)) (paths s) s"

text \<open>The page callback of \<open>pullChanges\<close> up to the complete batch: the accumulated
  batch is the first page object with every later page's entries concatenated.\<close>

definition accumulate :: "pulledChanges option \<Rightarrow> pulledChanges \<Rightarrow> pulledChanges" where
  "accumulate prevChanges page =
     (case prevChanges of None \<Rightarrow> page
      | Some p \<Rightarrow> p\<lparr>changes := changes p @ changes page\<rparr>)"

definition pulled ::
  "(pulledChanges \<Rightarrow> inst \<Rightarrow> inst) \<Rightarrow> pulledChanges option \<Rightarrow> pulledChanges \<Rightarrow> inst \<Rightarrow> inst" where
  "pulled complete prevChanges page s =
     (let s1 = s\<lparr>cursor := Some (cursorTag page), pullingChanges := False\<rparr>
      in if shouldPullAgain page then pullChanges (Some (accumulate prevChanges page)) s1
         else complete (accumulate prevChanges page) s1)"

subsection \<open>The commit of a batch\<close>

definition set_commit :: "nat \<Rightarrow> commit \<Rightarrow> inst \<Rightarrow> inst" where
  "set_commit c x s = s\<lparr>commits := (commits s)[c := x]\<rparr>"

definition par_state :: "commit \<Rightarrow> nat \<Rightarrow> nat \<times> bool" where
  "par_state cm i = (case map_of (par cm) i of None \<Rightarrow> (0, False) | Some x \<Rightarrow> x)"

text \<open>\<^verbatim>\<open>async.each\<close>'s \<open>done\<close>: the first error consumes the callback; a success counts,
  and the last one calls back.  \<open>fin c err\<close> is the final callback of the series, which
  hands the error or the batch to the callback of \<open>commitChanges\<close>.\<close>

definition each_done ::
  "(nat \<Rightarrow> error option \<Rightarrow> inst \<Rightarrow> inst) \<Rightarrow> nat \<Rightarrow> error option \<Rightarrow> inst \<Rightarrow> inst" where
  "each_done fin c err s =
     (if c < length (commits s) then
        (let cm = commits s ! c in
         case err of
           Some e \<Rightarrow>
             if failed cm then s else fin c (Some e) (set_commit c (cm\<lparr>failed := True\<rparr>) s)
         | None \<Rightarrow>
             (let cm' = cm\<lparr>completed := completed cm + 1\<rparr>; s1 = set_commit c cm' s
              in if length (changes (batch cm)) \<le> completed cm' \<and> \<not> failed cm
                 then fin c None s1 else s1))
      else s)"

text \<open>The callback of the \<^verbatim>\<open>async.parallel\<close> in \<open>_replaceLocalWithFile\<close>: an error
  goes to the entry's callback once; when both tasks succeeded the file is written.\<close>

definition parallel_done ::
  "(nat \<Rightarrow> error option \<Rightarrow> inst \<Rightarrow> inst) \<Rightarrow> nat \<Rightarrow> nat \<Rightarrow> localpath \<Rightarrow> error option
     \<Rightarrow> inst \<Rightarrow> inst" where
  "parallel_done fin c i lp err s =
     (if c < length (commits s) then
        (let cm = commits s ! c; (n, f) = par_state cm i in
         case err of
           Some e \<Rightarrow>
             if f then s
             else each_done fin c (Some e)
                    (set_commit c (cm\<lparr>par := AList.update i (n, True) (par cm)\<rparr>) s)
         | None \<Rightarrow>
             (let s1 = set_commit c (cm\<lparr>par := AList.update i (n + 1, f) (par cm)\<rparr>) s
              in if 2 \<le> n + 1 \<and> \<not> f then issue (FsOutputFile lp) (EachDone c i) s1 else s1))
      else s)"

definition replaceLocalWithFile :: "nat \<Rightarrow> nat \<Rightarrow> change \<Rightarrow> inst \<Rightarrow> inst" where
  "replaceLocalWithFile c i ch s =
     (let localPath = toLocalPath (root s) (path ch)
      in issue (ReadFile (path ch)) (ParallelDropbox c i localPath)
           (issue (FsRemove localPath) (ParallelLocal c i localPath) s))"

definition replaceLocalWithFolder :: "nat \<Rightarrow> nat \<Rightarrow> change \<Rightarrow> inst \<Rightarrow> inst" where
  "replaceLocalWithFolder c i ch s =
     (let localPath = toLocalPath (root s) (path ch)
      in issue (FsStat localPath) (FolderStatCb c i localPath) s)"

text \<open>The callback of \<^verbatim>\<open>fs.stat\<close> in \<open>_replaceLocalWithFolder\<close>.\<close>

definition folder_statted ::
  "(nat \<Rightarrow> error option \<Rightarrow> inst \<Rightarrow> inst) \<Rightarrow> nat \<Rightarrow> nat \<Rightarrow> localpath \<Rightarrow> result
     \<Rightarrow> inst \<Rightarrow> inst" where
  "folder_statted fin c i localPath res s =
     (case res of
        Failed e \<Rightarrow>
          if e = ENOENT then issue (FsMkdirs localPath) (EachDone c i) s
          else each_done fin c (Some e) s
      | StatOk n \<Rightarrow>
          if truthy (Stats_isDirectory n) then each_done fin c None s
          else issue (FsRemove localPath) (FolderRemoveCb c i localPath) s
      | _ \<Rightarrow> s)"

definition folder_removed ::
  "(nat \<Rightarrow> error option \<Rightarrow> inst \<Rightarrow> inst) \<Rightarrow> nat \<Rightarrow> nat \<Rightarrow> localpath \<Rightarrow> result
     \<Rightarrow> inst \<Rightarrow> inst" where
  "folder_removed fin c i localPath res s =
     (case res of
        Failed e \<Rightarrow> each_done fin c (Some e) s
      | _ \<Rightarrow> issue (FsMkdirs localPath) (EachDone c i) s)"

definition commitChange ::
  "(nat \<Rightarrow> error option \<Rightarrow> inst \<Rightarrow> inst) \<Rightarrow> nat \<Rightarrow> nat \<Rightarrow> change \<Rightarrow> inst \<Rightarrow> inst" where
  "commitChange fin c i ch s =
     (if wasRemoved ch then issue (FsRemove (toLocalPath (root s) (path ch))) (EachDone c i) s
      else if isFile ch then replaceLocalWithFile c i ch s
      else if isFolder ch then replaceLocalWithFolder c i ch s
      else each_done fin c (Some UnableToCommitChange) s)"

text \<open>The second task of the series: \<^verbatim>\<open>async.each\<close> calls back at once on an empty
  array, and otherwise calls \<open>commitChange\<close> for every entry, in order, in the same
  turn of the event loop.\<close>

definition each_start ::
  "(nat \<Rightarrow> error option \<Rightarrow> inst \<Rightarrow> inst) \<Rightarrow> nat \<Rightarrow> inst \<Rightarrow> inst" where
  "each_start fin c s =
     (if c < length (commits s) then
        (let arr = changes (batch (commits s ! c))
         in if arr = [] then fin c None s
            else fold (\<lambda>(i, ch). commitChange fin c i ch) (enumerate 0 arr) s)
      else s)"

text \<open>The body all three \<^verbatim>\<open>resetDir\<close> share: remove the directory, then make it
  again; \<open>k\<close> is the callback.\<close>

definition removeThenMkdirs :: "localpath \<Rightarrow> cont \<Rightarrow> inst \<Rightarrow> inst" where
  "removeThenMkdirs dir k s = issue (FsRemove dir) (ResetDirCb dir k) s"

definition new_commit :: "pulledChanges \<Rightarrow> string option \<Rightarrow> nat option \<Rightarrow> cont option \<Rightarrow> commit" where
  "new_commit pc p h k =
     \<lparr>batch = pc, completed = 0, failed = False, par = [], cpath = p, chandler = h,
      ccallback = k\<rparr>"

text \<open>\<^verbatim>\<open>change.path.slice(0, path.length) === path\<close>.\<close>

definition isUnder :: "string \<Rightarrow> change \<Rightarrow> bool" where
  "isUnder p ch = (take (length p) (path ch) = p)"

section \<open>part_000: one commit per batch, a queue in front of every change handler\<close>

text \<open>\<^verbatim>\<open>queue.push(task)\<close> appends the task and defers \<^verbatim>\<open>q.process\<close>.\<close>

definition queue_push :: "nat \<Rightarrow> localpath list \<Rightarrow> inst \<Rightarrow> inst" where
  "queue_push r task s =
     (if r < length (queues s) then
        issue SetImmediate (QueueProcess r)
          (s\<lparr>queues := (queues s)[r := (queues s ! r)\<lparr>tasks := tasks (queues s ! r) @ [task]\<rparr>]\<rparr>)
      else s)"

text \<open>\<^verbatim>\<open>q.process\<close> with concurrency 1: when no worker runs and a task waits, the task
  is taken and the worker \<^verbatim>\<open>onChange(task.paths, cb)\<close> is started.\<close>

definition queue_process :: "nat \<Rightarrow> inst \<Rightarrow> inst" where
  "queue_process r s =
     (if r < length (queues s) then
        (let q = queues s ! r in
         case tasks q of
           [] \<Rightarrow> s
         | t # ts \<Rightarrow>
             if workers q < 1
             then emit (OnChange r t)
                    (s\<lparr>queues := (queues s)[r := q\<lparr>tasks := ts, workers := workers q + 1\<rparr>]\<rparr>)
             else s)
      else s)"

text \<open>The \<open>cb\<close> handed to \<open>onChange\<close>: the worker is done; \<^verbatim>\<open>queue.drain\<close>
  (\<open>watchForChanges\<close>) runs when nothing waits and nothing runs; then \<^verbatim>\<open>q.process\<close>.\<close>

definition queue_next :: "nat \<Rightarrow> inst \<Rightarrow> inst" where
  "queue_next r s =
     (if r < length (queues s) then
        (let q = (queues s ! r)\<lparr>workers := workers (queues s ! r) - 1\<rparr>;
             s1 = s\<lparr>queues := (queues s)[r := q]\<rparr>;
             s2 = (if length (tasks q) + workers q = 0 then watchForChanges s1 else s1)
         in queue_process r s2)
      else s)"

text \<open>The handler that \<open>sync\<close> stores in \<^verbatim>\<open>this.paths[path]\<close>; its arguments
  \<open>(err, changesMade)\<close> are a sum.\<close>

definition pathHandler :: "nat \<Rightarrow> error + string list \<Rightarrow> inst \<Rightarrow> inst" where
  "pathHandler r a s =
     (case a of
        Inl e \<Rightarrow> emit (OnError r e) s
      | Inr changesMade \<Rightarrow>
          if changesMade \<noteq> [] then queue_push r (map (toLocalPath (root s)) changesMade) s
          else s)"

text \<open>The success part of the callback that \<open>pullChanges\<close> gives to \<open>commitChanges\<close>:
  every watched path is called with the paths of the entries below it.\<close>

definition dispatch :: "pulledChanges \<Rightarrow> inst \<Rightarrow> inst" where
  "dispatch pc s =
     (if map fst (paths s) = [] then s
      else
        (let (s', triggered) =
               fold (\<lambda>p (s, t).
                       ((case map_of (paths s) p of
                           Some r \<Rightarrow> pathHandler r (Inr (map path (filter (isUnder p) (changes pc)))) s
                         | None \<Rightarrow> s), True))
                 (map fst (paths s)) (s, False)
         in if \<not> triggered then watchForChanges s' else s'))"

definition commitCallback :: "nat \<Rightarrow> error option \<Rightarrow> inst \<Rightarrow> inst" where
  "commitCallback c err s =
     (case err of
        Some e \<Rightarrow> errAll pathHandler e s
      | None \<Rightarrow> if c < length (commits s) then dispatch (batch (commits s ! c)) s else s)"

definition resetDir :: "cont \<Rightarrow> inst \<Rightarrow> inst" where
  "resetDir k s = removeThenMkdirs (PathResolve [root s]) k s"

definition commitChanges :: "pulledChanges \<Rightarrow> inst \<Rightarrow> inst" where
  "commitChanges pc s =
     (let c = length (commits s);
          s1 = s\<lparr>commits := commits s @ [new_commit pc None None None]\<rparr>
      in if blankSlate pc then resetDir (SeriesNext c) s1
         else each_start commitCallback c s1)"

definition getLocalState :: "string \<Rightarrow> nat \<Rightarrow> inst \<Rightarrow> inst" where
  "getLocalState p r s =
     issue (Readdir (toLocalPath (root s) (if p = [] then ''.'' else p))) (LocalStateCb r) s"

text \<open>\<open>sync(path, onError, onChange)\<close>; \<open>None\<close> is the call without a path.\<close>

definition sync :: "string option \<Rightarrow> inst \<Rightarrow> inst" where
  "sync p s =
     (let r = length (queues s);
          p' = normalizePath (case p of None \<Rightarrow> ''/'' | Some x \<Rightarrow> if x = [] then ''/'' else x);
          s1 = s\<lparr>queues := queues s @ [\<lparr>tasks = [], workers = 0\<rparr>],
                 paths := AList.update p' r (paths s)\<rparr>
      in watchForChanges (getLocalState p' r s1))"

definition cacheKey :: "string \<Rightarrow> string \<Rightarrow> string" where
  "cacheKey u r = u @ '':'' @ r"

definition abort :: "inst \<Rightarrow> inst" where
  "abort s = (case watchingForChanges s of Some h \<Rightarrow> emit (Aborted h) s | None \<Rightarrow> emit Threw s)"

definition stopSync :: "string \<Rightarrow> cache \<times> inst \<Rightarrow> cache \<times> inst" where
  "stopSync p cs =
     (let (C, s) = cs;
          s1 = s\<lparr>paths := AList.delete (normalizePath p) (paths s), stops := Suc (stops s)\<rparr>
      in if map fst (paths s1) = [] \<and> watchingForChanges s1 \<noteq> None then
           (AList.delete (cacheKey (client_uid s1) (root s1)) C,
            resetDir (StopCb (stops s)) ((abort s1)\<lparr>watchingForChanges := None\<rparr>))
         else (C, issue NextTick (StopCb (stops s)) s1))"

text \<open>What a continuation does with the answer to its request.\<close>

fun resume :: "cont \<Rightarrow> result \<Rightarrow> inst \<Rightarrow> inst" where
  "resume (PollCb h) res s =
     (case res of
        Failed e \<Rightarrow> errAll pathHandler e s
      | PollResult hasChanges retryAfter \<Rightarrow>
          if watchingForChanges s = None then s
          else if \<not> hasChanges then delay retryAfter DelayCb (s\<lparr>watchingForChanges := None\<rparr>)
          else pullChanges None (s\<lparr>watchingForChanges := None\<rparr>)
      | _ \<Rightarrow> s)"
| "resume (PullCb prevChanges) res s =
     (case res of
        Failed e \<Rightarrow> errAll pathHandler e s
      | Pulled page \<Rightarrow> pulled commitChanges prevChanges page s
      | _ \<Rightarrow> s)"
| "resume DelayCb res s = watchForChanges s"
| "resume (LocalStateCb r) res s =
     (case res of
        Failed e \<Rightarrow> if e = ENOENT then pathHandler r (Inr []) s else pathHandler r (Inl e) s
      | Listing ps \<Rightarrow> pathHandler r (Inr ps) s
      | _ \<Rightarrow> s)"
| "resume (QueueProcess r) res s = queue_process r s"
| "resume (ResetDirCb dir k) res s =
     (case res of Failed e \<Rightarrow> resume k (Failed e) s | _ \<Rightarrow> issue (FsMkdirs dir) k s)"
| "resume (SeriesNext c) res s =
     (case res of Failed e \<Rightarrow> commitCallback c (Some e) s | _ \<Rightarrow> each_start commitCallback c s)"
| "resume (EachDone c i) res s = each_done commitCallback c (err_of res) s"
| "resume (ParallelLocal c i lp) res s = parallel_done commitCallback c i lp (err_of res) s"
| "resume (ParallelDropbox c i lp) res s = parallel_done commitCallback c i lp (err_of res) s"
| "resume (FolderStatCb c i lp) res s = folder_statted commitCallback c i lp res s"
| "resume (FolderRemoveCb c i lp) res s = folder_removed commitCallback c i lp res s"
| "resume (StopCb n) res s = emit (StopCallback n (err_of res)) s"
| "resume k res s = s"

definition answered :: "call \<Rightarrow> cont \<Rightarrow> result \<Rightarrow> inst \<Rightarrow> inst" where
  "answered c k res s =
     s\<lparr>pending := remove1 (c, k) (pending s), trace := trace s @ [Returned c k res]\<rparr>"

text \<open>One turn of the event loop.  A request can only be answered while it is pending
  and with a result of its kind; the consumer can only call back a handler that runs.\<close>

fun step :: "cache \<times> inst \<Rightarrow> event \<Rightarrow> cache \<times> inst" where
  "step (C, s) (Sync p) = (C, sync p s)"
| "step (C, s) (StopSync p) = stopSync p (C, s)"
| "step (C, s) (ConsumerCallback r) =
     (if r < length (queues s) \<and> 0 < workers (queues s ! r)
      then (C, queue_next r (emit (CalledBack r) s)) else (C, s))"
| "step (C, s) (Return c k res) =
     (if (c, k) \<in> set (pending s) \<and> valid_result c res
      then (C, resume k res (answered c k res s)) else (C, s))"

definition run :: "cache \<times> inst \<Rightarrow> event list \<Rightarrow> cache \<times> inst" where
  "run cs evs = foldl step cs evs"

text \<open>The object the constructors initialise.  The Dropbox client is taken to keep the
  uid it is built with in \<^verbatim>\<open>_uid\<close>, which holds for a uid that is not empty.\<close>

definition fresh :: "string \<Rightarrow> string \<Rightarrow> inst" where
  "fresh u r =
     \<lparr>root = r, client_uid = u, thispath = [], paths = [], cursor = None,
      watchingForChanges = None, pullingChanges = False, queues = [], regs = 0, commits = [],
      stops = 0, handles = 0, pending = [], trace = []\<rparr>"

text \<open>The process: the module variable \<open>cache\<close> and the objects made so far.  The
  constructor returns the cached object when the key is taken.\<close>

record dropboxConfig =
  key :: string
  secret :: string
  uid :: string
  token :: string

record world =
  cache :: cache
  objs :: "inst list"

definition DropboxSync :: "dropboxConfig \<Rightarrow> string \<Rightarrow> world \<Rightarrow> nat \<times> world" where
  "DropboxSync cfg r w =
     (case map_of (cache w) (cacheKey (uid cfg) r) of
        Some this \<Rightarrow> (this, w)
      | None \<Rightarrow>
          (length (objs w),
           w\<lparr>cache := AList.update (cacheKey (uid cfg) r) (length (objs w)) (cache w),
             objs := objs w @ [fresh (uid cfg) r]\<rparr>))"

text \<open>The static \<^verbatim>\<open>DropboxSync.sync(options, localPath, syncPath, onError, onChange)\<close>.\<close>

definition DropboxSync_sync :: "dropboxConfig \<Rightarrow> string \<Rightarrow> string option \<Rightarrow> world \<Rightarrow> nat \<times> world" where
  "DropboxSync_sync options localPath syncPath w =
     (let (dbfs, w1) = DropboxSync options localPath w
      in (dbfs, if dbfs < length (objs w1)
                then w1\<lparr>objs := (objs w1)[dbfs := sync syncPath (objs w1 ! dbfs)]\<rparr> else w1))"

section \<open>part_001: one commit per watched path, handlers called directly\<close>

definition pathHandler1 :: "nat \<Rightarrow> error + pulledChanges \<Rightarrow> inst \<Rightarrow> inst" where
  "pathHandler1 r a s =
     (case a of
        Inl e \<Rightarrow> emit (OnError r e) s
      | Inr changesMade \<Rightarrow>
          watchForChanges
            (if changes changesMade \<noteq> []
             then emit (OnChange r (map (\<lambda>ch. toLocalPath (root s) (path ch)) (changes changesMade))) s
             else s))"

definition commitCallback1 :: "nat \<Rightarrow> error option \<Rightarrow> inst \<Rightarrow> inst" where
  "commitCallback1 c err s =
     (if c < length (commits s) then
        (case chandler (commits s ! c) of
           Some r \<Rightarrow>
             pathHandler1 r (case err of Some e \<Rightarrow> Inl e | None \<Rightarrow> Inr (batch (commits s ! c))) s
         | None \<Rightarrow> s)
      else s)"

definition resetDir1 :: "string \<Rightarrow> cont \<Rightarrow> inst \<Rightarrow> inst" where
  "resetDir1 p k s = removeThenMkdirs (PathResolve [root s, drop 1 p]) k s"

definition commitChanges1 :: "string \<Rightarrow> pulledChanges \<Rightarrow> nat \<Rightarrow> inst \<Rightarrow> inst" where
  "commitChanges1 p pc r s =
     (let c = length (commits s);
          s1 = s\<lparr>commits := commits s @ [new_commit pc (Some p) (Some r) None]\<rparr>
      in if blankSlate pc then resetDir1 p (SeriesNext c) s1
         else each_start commitCallback1 c s1)"

text \<open>The end of part_001's page callback: every watched path with at least one entry
  below it gets a commit of its own, on a clone of the batch that holds these entries.\<close>

definition dispatch1 :: "pulledChanges \<Rightarrow> inst \<Rightarrow> inst" where
  "dispatch1 pc s =
     (let (s', changedPaths) =
            fold (\<lambda>p (s, cp).
                    (let filtered = filter (isUnder p) (changes pc)
                     in if filtered \<noteq> [] then
                          ((case map_of (paths s) p of
                              Some r \<Rightarrow> commitChanges1 p (pc\<lparr>changes := filtered\<rparr>) r s
                            | None \<Rightarrow> s), cp @ [p])
                        else (s, cp)))
              (map fst (paths s)) (s, [])
      in if changedPaths = [] then watchForChanges s' else s')"

text \<open>\<open>sync(path, onError, onChange)\<close>; without a path the key is the string
  \<^verbatim>\<open>undefined\<close>.\<close>

definition sync1 :: "string option \<Rightarrow> inst \<Rightarrow> inst" where
  "sync1 p s =
     (let p' = (case p of None \<Rightarrow> ''undefined'' | Some x \<Rightarrow> normalizePath1 x)
      in watchForChanges (s\<lparr>paths := AList.update p' (regs s) (paths s), regs := Suc (regs s)\<rparr>))"

text \<open>\<open>stopSync(path, callback)\<close>: \<^verbatim>\<open>this.watchingForChanges.abort()\<close> throws when no
  poll is outstanding, and then nothing after it runs.\<close>

definition stopSync1 :: "string \<Rightarrow> inst \<Rightarrow> inst" where
  "stopSync1 p s =
     (let s1 = s\<lparr>paths := AList.delete (normalizePath1 p) (paths s), stops := Suc (stops s)\<rparr>
      in if map fst (paths s1) = [] then
           (if watchingForChanges s1 = None then abort s1
            else resetDir1 (normalizePath1 p) (StopCb (stops s))
                   ((abort s1)\<lparr>watchingForChanges := None\<rparr>))
         else resetDir1 (normalizePath1 p) (StopCb (stops s)) s1)"

fun resume1 :: "cont \<Rightarrow> result \<Rightarrow> inst \<Rightarrow> inst" where
  "resume1 (PollCb h) res s =
     (case res of
        Failed e \<Rightarrow> errAll pathHandler1 e s
      | PollResult hasChanges retryAfter \<Rightarrow>
          if watchingForChanges s = None then s
          else if \<not> hasChanges then delay retryAfter DelayCb (s\<lparr>watchingForChanges := None\<rparr>)
          else pullChanges None (s\<lparr>watchingForChanges := None\<rparr>)
      | _ \<Rightarrow> s)"
| "resume1 (PullCb prevChanges) res s =
     (case res of
        Failed e \<Rightarrow> errAll pathHandler1 e s
      | Pulled page \<Rightarrow> pulled dispatch1 prevChanges page s
      | _ \<Rightarrow> s)"
| "resume1 DelayCb res s = watchForChanges s"
| "resume1 (ResetDirCb dir k) res s =
     (case res of Failed e \<Rightarrow> resume1 k (Failed e) s | _ \<Rightarrow> issue (FsMkdirs dir) k s)"
| "resume1 (SeriesNext c) res s =
     (case res of Failed e \<Rightarrow> commitCallback1 c (Some e) s | _ \<Rightarrow> each_start commitCallback1 c s)"
| "resume1 (EachDone c i) res s = each_done commitCallback1 c (err_of res) s"
| "resume1 (ParallelLocal c i lp) res s = parallel_done commitCallback1 c i lp (err_of res) s"
| "resume1 (ParallelDropbox c i lp) res s = parallel_done commitCallback1 c i lp (err_of res) s"
| "resume1 (FolderStatCb c i lp) res s = folder_statted commitCallback1 c i lp res s"
| "resume1 (FolderRemoveCb c i lp) res s = folder_removed commitCallback1 c i lp res s"
| "resume1 (StopCb n) res s = emit (StopCallback n (err_of res)) s"
| "resume1 k res s = s"

fun step1 :: "inst \<Rightarrow> event \<Rightarrow> inst" where
  "step1 s (Sync p) = sync1 p s"
| "step1 s (StopSync p) = stopSync1 p s"
| "step1 s (ConsumerCallback r) = s"
| "step1 s (Return c k res) =
     (if (c, k) \<in> set (pending s) \<and> valid_result c res
      then resume1 k res (answered c k res s) else s)"

definition run1 :: "inst \<Rightarrow> event list \<Rightarrow> inst" where
  "run1 s evs = foldl step1 s evs"

text \<open>part_001's constructor: the cache key is the uid alone.\<close>

definition DropboxSync1 :: "dropboxConfig \<Rightarrow> string \<Rightarrow> world \<Rightarrow> nat \<times> world" where
  "DropboxSync1 cfg r w =
     (case map_of (cache w) (uid cfg) of
        Some this \<Rightarrow> (this, w)
      | None \<Rightarrow>
          (length (objs w),
           w\<lparr>cache := AList.update (uid cfg) (length (objs w)) (cache w),
             objs := objs w @ [fresh (uid cfg) r]\<rparr>))"

definition DropboxSync_sync1 :: "dropboxConfig \<Rightarrow> string \<Rightarrow> string option \<Rightarrow> world \<Rightarrow> nat \<times> world" where
  "DropboxSync_sync1 options localPath syncPath w =
     (let (dbfs, w1) = DropboxSync1 options localPath w
      in (dbfs, if dbfs < length (objs w1)
                then w1\<lparr>objs := (objs w1)[dbfs := sync1 syncPath (objs w1 ! dbfs)]\<rparr> else w1))"

section \<open>index.js: one path per object, callbacks passed along\<close>

text \<open>index.js hands the callback of \<open>sync\<close> from function to function, so its
  continuations carry it: \<open>SyncCbI\<close> is the closure written in \<open>sync\<close>,
  \<open>SeriesNextI c n k\<close> is the \<open>next\<close> of the \<open>n\<close>-th task of the series in the
  activation \<open>c\<close> of \<open>commitChanges\<close> whose callback is \<open>k\<close>.\<close>

definition pullChangesI :: "cont \<Rightarrow> inst \<Rightarrow> inst" where
  "pullChangesI callback s = issue (PullChanges (cursor s)) (PullCbI callback) s"

definition watchForChangesI :: "cont \<Rightarrow> inst \<Rightarrow> inst" where
  "watchForChangesI callback s =
     (if cursor s = None then pullChangesI callback s
      else if watchingForChanges s \<noteq> None then s
      else issue (PollForChanges (cursor s)) (PollCbI callback)
             (s\<lparr>watchingForChanges := Some (handles s), handles := Suc (handles s)\<rparr>))"

definition syncI :: "inst \<Rightarrow> inst" where
  "syncI s = watchForChangesI SyncCbI s"

text \<open>Calling a callback with \<open>(err)\<close> or \<open>(null, pulledChanges)\<close>.  For the
  \<open>next\<close> of a series an error ends the series and goes to the callback of
  \<open>commitChanges\<close>; a success starts the following task: pull again when the page asks
  for it, then apply the entries, then call back with the batch.\<close>

fun callbackI :: "cont \<Rightarrow> error + pulledChanges \<Rightarrow> inst \<Rightarrow> inst" where
  "callbackI SyncCbI a s =
     (case a of
        Inl e \<Rightarrow> emit (OnError 0 e) s
      | Inr changesMade \<Rightarrow>
          syncI (emit (OnChange 0 (map (\<lambda>ch. toLocalPath (root s) (path ch)) (changes changesMade))) s))"
| "callbackI (SeriesNextI c n k) a s =
     (case a of
        Inl e \<Rightarrow> callbackI k (Inl e) s
      | Inr x \<Rightarrow>
          if c < length (commits s) then
            (let pc = batch (commits s ! c) in
             if n = 1 then
               (if shouldPullAgain pc then pullChangesI (SeriesNextI c 2 k) s
                else each_start
                       (\<lambda>c err. callbackI k (case err of Some e \<Rightarrow> Inl e | None \<Rightarrow> Inr pc)) c s)
             else if n = 2 then
               each_start
                 (\<lambda>c err. callbackI k (case err of Some e \<Rightarrow> Inl e | None \<Rightarrow> Inr pc)) c s
             else callbackI k (Inr pc) s)
          else s)"
| "callbackI k a s = s"

text \<open>The final callback of the series, as the entries' callbacks reach it.\<close>

definition commitCallbackI :: "nat \<Rightarrow> error option \<Rightarrow> inst \<Rightarrow> inst" where
  "commitCallbackI c err s =
     (if c < length (commits s) then
        (case ccallback (commits s ! c) of
           Some k \<Rightarrow>
             callbackI k (case err of Some e \<Rightarrow> Inl e | None \<Rightarrow> Inr (batch (commits s ! c))) s
         | None \<Rightarrow> s)
      else s)"

definition resetDirI :: "cont \<Rightarrow> inst \<Rightarrow> inst" where
  "resetDirI k s = removeThenMkdirs (PathRaw (root s)) k s"

definition commitChangesI :: "pulledChanges \<Rightarrow> cont \<Rightarrow> inst \<Rightarrow> inst" where
  "commitChangesI pc callback s =
     (let c = length (commits s);
          s1 = s\<lparr>commits := commits s @ [new_commit pc None None (Some callback)]\<rparr>
      in if blankSlate pc then resetDirI (SeriesNextI c 1 callback) s1
         else callbackI (SeriesNextI c 1 callback) (Inr pc) s1)"

text \<open>The page callback of index.js's \<open>pullChanges\<close>.\<close>

definition pulledI :: "cont \<Rightarrow> result \<Rightarrow> inst \<Rightarrow> inst" where
  "pulledI callback res s =
     (case res of
        Failed e \<Rightarrow> callbackI callback (Inl e) s
      | Pulled page \<Rightarrow>
          commitChangesI
            (if thispath s \<noteq> [] then page\<lparr>changes := filter (isUnder (thispath s)) (changes page)\<rparr>
             else page)
            callback (s\<lparr>cursor := Some (cursorTag page)\<rparr>)
      | _ \<Rightarrow> s)"

definition stopSyncI :: "inst \<Rightarrow> inst" where
  "stopSyncI s =
     (if watchingForChanges s = None then abort s
      else issue (FsRemove (PathRaw (root s))) (StopCb (stops s))
             ((abort s)\<lparr>watchingForChanges := None, stops := Suc (stops s)\<rparr>))"

fun resumeI :: "cont \<Rightarrow> result \<Rightarrow> inst \<Rightarrow> inst" where
  "resumeI (PollCbI callback) res s =
     (case res of
        Failed e \<Rightarrow> callbackI callback (Inl e) s
      | PollResult hasChanges retryAfter \<Rightarrow>
          if watchingForChanges s = None then s
          else if \<not> hasChanges then delay retryAfter (DelayCbI callback) s
          else pullChangesI callback s
      | _ \<Rightarrow> s)"
| "resumeI (PullCbI callback) res s = pulledI callback res s"
| "resumeI (DelayCbI callback) res s = watchForChangesI callback s"
| "resumeI (ResetDirCb dir k) res s =
     (case res of Failed e \<Rightarrow> resumeI k (Failed e) s | _ \<Rightarrow> issue (FsMkdirs dir) k s)"
| "resumeI (SeriesNextI c n k) res s =
     (case res of
        Failed e \<Rightarrow> callbackI (SeriesNextI c n k) (Inl e) s
      | _ \<Rightarrow> if c < length (commits s)
             then callbackI (SeriesNextI c n k) (Inr (batch (commits s ! c))) s else s)"
| "resumeI (EachDone c i) res s = each_done commitCallbackI c (err_of res) s"
| "resumeI (ParallelLocal c i lp) res s = parallel_done commitCallbackI c i lp (err_of res) s"
| "resumeI (ParallelDropbox c i lp) res s = parallel_done commitCallbackI c i lp (err_of res) s"
| "resumeI (FolderStatCb c i lp) res s = folder_statted commitCallbackI c i lp res s"
| "resumeI (FolderRemoveCb c i lp) res s = folder_removed commitCallbackI c i lp res s"
| "resumeI (StopCb n) res s = emit (StopCallback n (err_of res)) s"
| "resumeI k res s = s"

fun stepI :: "inst \<Rightarrow> event \<Rightarrow> inst" where
  "stepI s (Sync p) = syncI s"
| "stepI s (StopSync p) = stopSyncI s"
| "stepI s (ConsumerCallback r) = s"
| "stepI s (Return c k res) =
     (if (c, k) \<in> set (pending s) \<and> valid_result c res
      then resumeI k res (answered c k res s) else s)"

text \<open>index.js's constructor: no cache; the path gets a leading slash.\<close>

definition DropboxSyncI :: "dropboxConfig \<Rightarrow> string \<Rightarrow> string \<Rightarrow> inst" where
  "DropboxSyncI cfg r p =
     (fresh (uid cfg) r)\<lparr>thispath := (if p \<noteq> [] \<and> hd p = CHR ''/'' then p else CHR ''/'' # p)\<rparr>"

section \<open>Observations used by the properties\<close>

text \<open>Entries and pages for concrete runs.\<close>

definition removal :: "string \<Rightarrow> change" where
  "removal p = \<lparr>path = p, wasRemoved = True, isFile = False, isFolder = False\<rparr>"

definition fileEntry :: "string \<Rightarrow> change" where
  "fileEntry p = \<lparr>path = p, wasRemoved = False, isFile = True, isFolder = False\<rparr>"

definition folderEntry :: "string \<Rightarrow> change" where
  "folderEntry p = \<lparr>path = p, wasRemoved = False, isFile = False, isFolder = True\<rparr>"

definition page :: "change list \<Rightarrow> bool \<Rightarrow> bool \<Rightarrow> nat \<Rightarrow> pulledChanges" where
  "page cs again blank n =
     \<lparr>changes = cs, shouldPullAgain = again, blankSlate = blank, cursorTag = n\<rparr>"

definition account :: "string \<Rightarrow> string \<Rightarrow> dropboxConfig" where
  "account u t = \<lparr>key = ''k'', secret = ''s'', uid = u, token = t\<rparr>"

text \<open>Requests to the remote feed, and the file system mutations a trace has issued.\<close>

definition is_remote :: "call \<times> cont \<Rightarrow> bool" where
  "is_remote x = (case fst x of PollForChanges c \<Rightarrow> True | PullChanges c \<Rightarrow> True | _ \<Rightarrow> False)"

definition mutations :: "action list \<Rightarrow> call list" where
  "mutations tr =
     concat (map (\<lambda>a. case a of
                     Issued (FsRemove p) k \<Rightarrow> [FsRemove p]
                   | Issued (FsMkdirs p) k \<Rightarrow> [FsMkdirs p]
                   | Issued (FsOutputFile p) k \<Rightarrow> [FsOutputFile p]
                   | _ \<Rightarrow> []) tr)"

text \<open>After \<open>watchForChanges\<close> the watch loop is armed: a pull is in flight or a poll is
  outstanding.\<close>

definition armed :: "inst \<Rightarrow> bool" where
  "armed s = (if cursor s = None then pullingChanges s else watchingForChanges s \<noteq> None)"

text \<open>The callback at the bottom of a chain of index.js series continuations.\<close>

fun outermost :: "cont \<Rightarrow> cont" where
  "outermost (SeriesNextI c n k) = outermost k"
| "outermost k = k"

text \<open>The pull requests in flight, and the step that answers the one in flight with a
  page (part_000 and part_001).\<close>

definition is_pull :: "call \<times> cont \<Rightarrow> bool" where
  "is_pull x = (case fst x of PullChanges c \<Rightarrow> True | _ \<Rightarrow> False)"

definition pulls :: "inst \<Rightarrow> (call \<times> cont) list" where
  "pulls s = filter is_pull (pending s)"

definition answer_pull :: "inst \<Rightarrow> pulledChanges \<Rightarrow> inst" where
  "answer_pull s pg =
     (case pulls s of [] \<Rightarrow> s | (c, k) # rest \<Rightarrow> snd (step ([], s) (Return c k (Pulled pg))))"

definition answer_pull1 :: "inst \<Rightarrow> pulledChanges \<Rightarrow> inst" where
  "answer_pull1 s pg =
     (case pulls s of [] \<Rightarrow> s | (c, k) # rest \<Rightarrow> step1 s (Return c k (Pulled pg)))"

text \<open>What reaches the consumer: calls of \<open>onError\<close> and \<open>onChange\<close>.\<close>

definition consumer_calls :: "action list \<Rightarrow> action list" where
  "consumer_calls tr =
     filter (\<lambda>a. case a of OnError r e \<Rightarrow> True | OnChange r ps \<Rightarrow> True | _ \<Rightarrow> False) tr"

text \<open>The requests that applying an entry issues, and what identifies an activation of
  \<open>commitChanges\<close> (the counters aside).\<close>

definition entry_req :: "call \<times> cont \<Rightarrow> bool" where
  "entry_req x =
     ((case fst x of
         FsRemove p \<Rightarrow> True
       | FsMkdirs p \<Rightarrow> True
       | FsStat p \<Rightarrow> True
       | FsOutputFile p \<Rightarrow> True
       | ReadFile p \<Rightarrow> True
       | _ \<Rightarrow> False)
      \<and> (case snd x of
            EachDone c i \<Rightarrow> True
          | ParallelLocal c i lp \<Rightarrow> True
          | ParallelDropbox c i lp \<Rightarrow> True
          | FolderStatCb c i lp \<Rightarrow> True
          | FolderRemoveCb c i lp \<Rightarrow> True
          | _ \<Rightarrow> False))"

definition commit_key :: "commit \<Rightarrow> pulledChanges \<times> string option \<times> nat option \<times> cont option" where
  "commit_key cm = (batch cm, cpath cm, chandler cm, ccallback cm)"

text \<open>What part_000's dispatcher pushes on the queue of a watched path \<open>p\<close> for a batch:
  nothing when no entry lies under the path, else one task with the local paths of the
  entries whose remote path has \<open>p\<close> as a prefix.\<close>

definition pushed :: "string \<Rightarrow> string \<Rightarrow> pulledChanges \<Rightarrow> localpath list list" where
  "pushed rt p pc =
     (if filter (\<lambda>e. prefix p (path e)) (changes pc) = [] then []
      else [map (\<lambda>e. toLocalPath rt (path e)) (filter (\<lambda>e. prefix p (path e)) (changes pc))])"

text \<open>The entry and the activation a continuation of the commit belongs to.\<close>

fun entry_of :: "cont \<Rightarrow> (nat \<times> nat) option" where
  "entry_of (EachDone c i) = Some (c, i)"
| "entry_of (ParallelLocal c i lp) = Some (c, i)"
| "entry_of (ParallelDropbox c i lp) = Some (c, i)"
| "entry_of (FolderStatCb c i lp) = Some (c, i)"
| "entry_of (FolderRemoveCb c i lp) = Some (c, i)"
| "entry_of k = None"

text \<open>The activation of \<open>commitChanges\<close> a continuation belongs to, if any: the
  \<open>next\<close> of its series, the callback of its reset, and the callbacks of its entries.\<close>

fun cont_commit :: "cont \<Rightarrow> nat option" where
  "cont_commit (SeriesNext c) = Some c"
| "cont_commit (ResetDirCb dir k) = cont_commit k"
| "cont_commit (EachDone c i) = Some c"
| "cont_commit (ParallelLocal c i lp) = Some c"
| "cont_commit (ParallelDropbox c i lp) = Some c"
| "cont_commit (FolderStatCb c i lp) = Some c"
| "cont_commit (FolderRemoveCb c i lp) = Some c"
| "cont_commit k = None"

text \<open>The claim that entries are applied one after the other, read on a trace: no request
  for an entry of activation \<open>c\<close> is issued while a request for an earlier entry of
  \<open>c\<close> is still unanswered.  \<open>open\<close> holds the unanswered requests.\<close>

fun sequential :: "nat \<Rightarrow> (call \<times> cont) list \<Rightarrow> action list \<Rightarrow> bool" where
  "sequential c opn [] = True"
| "sequential c opn (Issued x k # tr) =
     (case entry_of k of
        Some (c', j) \<Rightarrow>
          if c' = c \<and> list_ex (\<lambda>(x', k'). case entry_of k' of
                                              Some (c'', i) \<Rightarrow> c'' = c \<and> i < j
                                            | None \<Rightarrow> False) opn
          then False
          else sequential c (opn @ [(x, k)]) tr
      | None \<Rightarrow> sequential c opn tr)"
| "sequential c opn (Returned x k r # tr) = sequential c (remove1 (x, k) opn) tr"
| "sequential c opn (a # tr) = sequential c opn tr"

text \<open>The requests \<open>commitChange\<close> issues for entry \<open>i\<close> of activation \<open>c\<close>.\<close>

definition first_requests :: "string \<Rightarrow> nat \<Rightarrow> nat \<Rightarrow> change \<Rightarrow> (call \<times> cont) list" where
  "first_requests rt c i ch =
     (let lp = toLocalPath rt (path ch)
      in if wasRemoved ch then [(FsRemove lp, EachDone c i)]
         else if isFile ch then [(FsRemove lp, ParallelLocal c i lp), (ReadFile (path ch), ParallelDropbox c i lp)]
         else if isFolder ch then [(FsStat lp, FolderStatCb c i lp)]
         else [])"

text \<open>A property of the object is \<open>stable\<close> when the steps that the helper functions are
  made of keep it: issuing a request other than a pull, calling \<open>onError\<close>,
  \<open>pullChanges\<close>, pushing a task on a queue, bookkeeping in the table of activations and
  arming the poll handle.\<close>

definition silent :: "action \<Rightarrow> bool" where
  "silent a =
     (case a of OnError r e \<Rightarrow> True | Aborted h \<Rightarrow> True | StopCallback n e \<Rightarrow> True
      | Threw \<Rightarrow> True | _ \<Rightarrow> False)"

definition stable :: "(inst \<Rightarrow> bool) \<Rightarrow> bool" where
  "stable P =
     ((\<forall>s c k. P s \<longrightarrow> \<not> is_pull (c, k) \<longrightarrow> P (issue c k s))
    \<and> (\<forall>s a. P s \<longrightarrow> silent a \<longrightarrow> P (emit a s))
    \<and> (\<forall>s p. P s \<longrightarrow> P (pullChanges p s))
    \<and> (\<forall>s r t. P s \<longrightarrow> P (queue_push r t s))
    \<and> (\<forall>s cs. P s \<longrightarrow> P (s\<lparr>commits := cs\<rparr>))
    \<and> (\<forall>s w. P s \<longrightarrow> P (s\<lparr>watchingForChanges := w\<rparr>))
    \<and> (\<forall>s h. P s \<longrightarrow> P (s\<lparr>handles := h\<rparr>))
    \<and> (\<forall>s x. P s \<longrightarrow> P (s\<lparr>paths := x\<rparr>))
    \<and> (\<forall>s n. P s \<longrightarrow> P (s\<lparr>stops := n\<rparr>))
    \<and> (\<forall>s n. P s \<longrightarrow> P (s\<lparr>regs := n\<rparr>)))"

text \<open>part_001 calls \<open>onChange\<close> from its helper functions as well.\<close>

definition stable1 :: "(inst \<Rightarrow> bool) \<Rightarrow> bool" where
  "stable1 P = (stable P \<and> (\<forall>s r ps. P s \<longrightarrow> P (emit (OnChange r ps) s)))"

text \<open>The pull requests a trace has issued.  The engine is \<open>halted\<close> when the busy flag
  is set and no pull is in flight; \<open>one_pull\<close> is what every reachable object satisfies:
  at most one pull is in flight, and then the busy flag is set.\<close>

definition pull_issues :: "action list \<Rightarrow> action list" where
  "pull_issues tr = filter (\<lambda>a. case a of Issued (PullChanges c) k \<Rightarrow> True | _ \<Rightarrow> False) tr"

definition halted :: "action list \<Rightarrow> inst \<Rightarrow> bool" where
  "halted X s = (pullingChanges s \<and> pulls s = [] \<and> pull_issues (trace s) = X)"

definition one_pull :: "inst \<Rightarrow> bool" where
  "one_pull s = (pulls s = [] \<or> (pullingChanges s \<and> length (pulls s) = 1))"

text \<open>Reading a trace for one registration \<open>r\<close>: whether its \<open>onChange\<close> is running
  (called, and the consumer has not called back yet).  \<open>None\<close> means the trace broke the
  rule that \<open>onChange\<close> is not called while it runs.\<close>

fun observe :: "nat \<Rightarrow> bool option \<Rightarrow> action \<Rightarrow> bool option" where
  "observe r None a = None"
| "observe r (Some b) (OnChange r' ps) =
     (if r' = r then (if b then None else Some True) else Some b)"
| "observe r (Some b) (CalledBack r') =
     (if r' = r then (if b then Some False else None) else Some b)"
| "observe r (Some b) a = Some b"

definition handler_state :: "nat \<Rightarrow> action list \<Rightarrow> bool option" where
  "handler_state r tr = foldl (observe r) (Some False) tr"

definition serial :: "nat \<Rightarrow> action list \<Rightarrow> bool" where
  "serial r tr = (handler_state r tr \<noteq> None)"

text \<open>The target of a file system mutation lies under the watched path \<open>p\<close> of the mirror
  \<open>rt\<close>.\<close>

definition mutates_under :: "string \<Rightarrow> string \<Rightarrow> call \<Rightarrow> bool" where
  "mutates_under rt p c =
     (case c of
        FsRemove (PathJoin a b) \<Rightarrow> a = rt \<and> prefix (CHR ''.'' # p) b
      | FsMkdirs (PathJoin a b) \<Rightarrow> a = rt \<and> prefix (CHR ''.'' # p) b
      | FsOutputFile (PathJoin a b) \<Rightarrow> a = rt \<and> prefix (CHR ''.'' # p) b
      | _ \<Rightarrow> False)"

text \<open>A trace shows an overlap for the registration \<open>r\<close> of path \<open>p\<close> when a mutation
  under \<open>p\<close> is issued for an entry while \<open>r\<close>'s \<open>onChange\<close> is running.\<close>

fun overlap :: "nat \<Rightarrow> string \<Rightarrow> string \<Rightarrow> bool \<Rightarrow> action list \<Rightarrow> bool" where
  "overlap r rt p b [] = False"
| "overlap r rt p b (OnChange r' ps # tr) = overlap r rt p (if r' = r then True else b) tr"
| "overlap r rt p b (CalledBack r' # tr) = overlap r rt p (if r' = r then False else b) tr"
| "overlap r rt p b (Issued c k # tr) =
     ((b \<and> entry_req (c, k) \<and> mutates_under rt p c) \<or> overlap r rt p b tr)"
| "overlap r rt p b (a # tr) = overlap r rt p b tr"

text \<open>What holds of the queues of every reachable object of part_000.\<close>

definition queues_agree :: "inst \<Rightarrow> bool" where
  "queues_agree s =
     (\<forall>r. handler_state r (trace s) = Some (r < length (queues s) \<and> workers (queues s ! r) = 1)
          \<and> (r < length (queues s) \<longrightarrow> workers (queues s ! r) \<le> 1))"

text \<open>Actions that say nothing about a handler running.\<close>

definition neutral :: "action \<Rightarrow> bool" where
  "neutral a = (case a of OnChange r ps \<Rightarrow> False | CalledBack r \<Rightarrow> False | _ \<Rightarrow> True)"

text \<open>The reset of a blank slate, read on a trace.  For the activation \<open>c\<close> of
  \<open>commitChanges\<close> and the directory \<open>dir\<close>, the monitor counts how far the reset has
  come: 0 at the start, 1 once the removal of \<open>dir\<close> has returned without an error, 2
  once the \<open>mkdirs\<close> of \<open>dir\<close> has returned without an error after that.  It fails (\<open>None\<close>)
  when a request for an entry of the activation is issued before it has reached 2.\<close>

fun reset_monitor :: "localpath \<Rightarrow> nat \<Rightarrow> nat option \<Rightarrow> action \<Rightarrow> nat option" where
  "reset_monitor dir c None a = None"
| "reset_monitor dir c (Some n) (Returned x k res) =
     (if x = FsRemove dir \<and> k = ResetDirCb dir (SeriesNext c) \<and> res = Ok then Some (max n 1)
      else if x = FsMkdirs dir \<and> k = SeriesNext c \<and> res = Ok \<and> 1 \<le> n then Some (max n 2)
      else Some n)"
| "reset_monitor dir c (Some n) (Issued x k) =
     (if map_option fst (entry_of k) = Some c \<and> n < 2 then None else Some n)"
| "reset_monitor dir c (Some n) a = Some n"

definition phase :: "localpath \<Rightarrow> nat \<Rightarrow> action list \<Rightarrow> nat option" where
  "phase dir c tr = foldl (reset_monitor dir c) (Some 0) tr"

definition reset_before_entries :: "localpath \<Rightarrow> nat \<Rightarrow> action list \<Rightarrow> bool" where
  "reset_before_entries dir c tr = (phase dir c tr \<noteq> None)"

definition reset_issued :: "localpath \<Rightarrow> nat \<Rightarrow> action list \<Rightarrow> bool" where
  "reset_issued dir c tr = (Issued (FsRemove dir) (ResetDirCb dir (SeriesNext c)) \<in> set tr)"

definition is_request :: "action \<Rightarrow> bool" where
  "is_request a = (case a of Issued x k \<Rightarrow> True | Returned x k r \<Rightarrow> True | _ \<Rightarrow> False)"

text \<open>A property that nothing outside the commit of a batch can break: it survives the
  requests that belong to no activation, the calls of the consumer, and every update of
  the object that keeps the table of activations as it is up to the bookkeeping.\<close>

definition loop_safe :: "(inst \<Rightarrow> bool) \<Rightarrow> bool" where
  "loop_safe P =
     ((\<forall>s x k. P s \<longrightarrow> cont_commit k = None \<longrightarrow> P (issue x k s))
    \<and> (\<forall>s a. P s \<longrightarrow> \<not> is_request a \<longrightarrow> P (emit a s))
    \<and> (\<forall>s b. P s \<longrightarrow> P (s\<lparr>pullingChanges := b\<rparr>))
    \<and> (\<forall>s x. P s \<longrightarrow> P (s\<lparr>cursor := x\<rparr>))
    \<and> (\<forall>s q. P s \<longrightarrow> P (s\<lparr>queues := q\<rparr>))
    \<and> (\<forall>s cs. P s \<longrightarrow> map commit_key cs = map commit_key (commits s) \<longrightarrow> P (s\<lparr>commits := cs\<rparr>))
    \<and> (\<forall>s w. P s \<longrightarrow> P (s\<lparr>watchingForChanges := w\<rparr>))
    \<and> (\<forall>s h. P s \<longrightarrow> P (s\<lparr>handles := h\<rparr>))
    \<and> (\<forall>s x. P s \<longrightarrow> P (s\<lparr>paths := x\<rparr>))
    \<and> (\<forall>s n. P s \<longrightarrow> P (s\<lparr>stops := n\<rparr>))
    \<and> (\<forall>s n. P s \<longrightarrow> P (s\<lparr>regs := n\<rparr>)))"

text \<open>What the bookkeeping of an activation never changes: its batch, its watched path,
  its handler and its callback.\<close>

type_synonym ckey = "pulledChanges \<times> string option \<times> nat option \<times> cont option"

text \<open>The reset of the activation \<open>c\<close> has come at least as far as \<open>m\<close> on the trace,
  and no request for an entry was issued too early.\<close>

definition reached :: "localpath \<Rightarrow> nat \<Rightarrow> action list \<Rightarrow> nat \<Rightarrow> bool" where
  "reached dir c tr m = (case phase dir c tr of None \<Rightarrow> False | Some n \<Rightarrow> m \<le> n)"

text \<open>The entries of the activation \<open>c\<close> may be requested: the activation exists, and
  if its batch is a blank slate the reset of its directory is complete.\<close>

definition ready_at :: "(ckey \<Rightarrow> localpath) \<Rightarrow> nat \<Rightarrow> ckey list \<Rightarrow> action list \<Rightarrow> bool" where
  "ready_at D c K tr = (c < length K \<and> (blankSlate (fst (K ! c)) \<longrightarrow> reached (D (K ! c)) c tr 2))"

text \<open>What a pending request of the activation \<open>c\<close> can be: a request for an entry
  when the entries may be requested; else the batch is a blank slate and the request is
  the removal of the directory, or its \<open>mkdirs\<close> once the removal has returned.\<close>

definition allowed ::
  "(ckey \<Rightarrow> localpath) \<Rightarrow> nat \<Rightarrow> ckey list \<Rightarrow> action list \<Rightarrow> call \<times> cont \<Rightarrow> bool" where
  "allowed D c K tr y =
     (cont_commit (snd y) = Some c \<longrightarrow>
        (if entry_of (snd y) \<noteq> None then blankSlate (fst (K ! c)) \<longrightarrow> reached (D (K ! c)) c tr 2
         else blankSlate (fst (K ! c)) \<and>
              ((snd y = ResetDirCb (D (K ! c)) (SeriesNext c) \<and> fst y = FsRemove (D (K ! c)))
             \<or> (snd y = SeriesNext c \<and> fst y = FsMkdirs (D (K ! c)) \<and> reached (D (K ! c)) c tr 1))))"

text \<open>The state of the activation \<open>c\<close> as the table of activations \<open>K\<close>, the pending
  requests and the trace show it.  An activation that exists and commits a blank slate has
  issued its reset and has not requested an entry too early, and its pending requests are
  the allowed ones; an activation that does not exist yet has no request and no trace.\<close>

definition tracked ::
  "(ckey \<Rightarrow> localpath) \<Rightarrow> nat \<Rightarrow> ckey list \<Rightarrow> (call \<times> cont) list \<Rightarrow> action list \<Rightarrow> bool" where
  "tracked D c K pend tr =
     (if c < length K then
        (blankSlate (fst (K ! c)) \<longrightarrow> reached (D (K ! c)) c tr 0 \<and> reset_issued (D (K ! c)) c tr)
      \<and> (\<forall>y \<in> set pend. allowed D c K tr y)
      else (\<forall>dir. phase dir c tr = Some 0) \<and> (\<forall>y \<in> set pend. cont_commit (snd y) \<noteq> Some c))"

text \<open>The same on the object; \<open>D\<close> gives the directory an activation resets, \<open>G\<close>
  is what holds of every activation of the revision.\<close>

definition ready :: "(ckey \<Rightarrow> localpath) \<Rightarrow> nat \<Rightarrow> inst \<Rightarrow> bool" where
  "ready D c s = ready_at D c (map commit_key (commits s)) (trace s)"

definition reset_inv :: "(ckey \<Rightarrow> localpath) \<Rightarrow> (ckey \<Rightarrow> bool) \<Rightarrow> string \<Rightarrow> inst \<Rightarrow> bool" where
  "reset_inv D G rt s =
     (root s = rt \<and> list_all G (map commit_key (commits s))
      \<and> (\<forall>c. tracked D c (map commit_key (commits s)) (pending s) (trace s)))"

text \<open>The directory \<open>resetDir\<close> works on: the root in part_000, whose activations have
  no path; the directory of the watched path in part_001, whose activations have one and
  at least one entry.\<close>

definition mirror :: "string \<Rightarrow> ckey \<Rightarrow> localpath" where
  "mirror rt ky = (case fst (snd ky) of None \<Rightarrow> PathResolve [rt] | Some p \<Rightarrow> PathResolve [rt, drop 1 p])"

definition whole :: "ckey \<Rightarrow> bool" where
  "whole ky = (fst (snd ky) = None)"

definition scoped :: "ckey \<Rightarrow> bool" where
  "scoped ky = (fst (snd ky) \<noteq> None \<and> changes (fst ky) \<noteq> [])"

text \<open>The process as its callers see it: they construct objects and call the methods of
  the objects they hold, and the event loop answers the requests of any object.  An object
  is held by its index, also after it has left the cache.\<close>

datatype process_event = New dropboxConfig string | On nat event

definition invoke :: "nat \<Rightarrow> event \<Rightarrow> world \<Rightarrow> world" where
  "invoke i ev w =
     (if i < length (objs w) then
        (let (C, s) = step (cache w, objs w ! i) ev in w\<lparr>cache := C, objs := (objs w)[i := s]\<rparr>)
      else w)"

fun process_step :: "world \<Rightarrow> process_event \<Rightarrow> world" where
  "process_step w (New cfg r) = snd (DropboxSync cfg r w)"
| "process_step w (On i ev) = invoke i ev w"

definition process_run :: "world \<Rightarrow> process_event list \<Rightarrow> world" where
  "process_run w evs = foldl process_step w evs"

definition invoke1 :: "nat \<Rightarrow> event \<Rightarrow> world \<Rightarrow> world" where
  "invoke1 i ev w =
     (if i < length (objs w) then w\<lparr>objs := (objs w)[i := step1 (objs w ! i) ev]\<rparr> else w)"

fun process_step1 :: "world \<Rightarrow> process_event \<Rightarrow> world" where
  "process_step1 w (New cfg r) = snd (DropboxSync1 cfg r w)"
| "process_step1 w (On i ev) = invoke1 i ev w"

definition process_run1 :: "world \<Rightarrow> process_event list \<Rightarrow> world" where
  "process_run1 w evs = foldl process_step1 w evs"

text \<open>The process when the module is loaded.\<close>

definition boot :: world where
  "boot = \<lparr>cache = [], objs = []\<rparr>"

text \<open>What holds of the cache in every state of the process: an entry of part_000's
  cache leads to an object that exists and whose own key is the key of the entry; in
  part_001, whose cache is keyed by the uid and never loses an entry, every object is in
  the cache under its uid as well.\<close>

definition cache_ok :: "world \<Rightarrow> bool" where
  "cache_ok w =
     (\<forall>k i. map_of (cache w) k = Some i \<longrightarrow>
        i < length (objs w) \<and> cacheKey (client_uid (objs w ! i)) (root (objs w ! i)) = k)"

definition cache_ok1 :: "world \<Rightarrow> bool" where
  "cache_ok1 w =
     ((\<forall>k i. map_of (cache w) k = Some i \<longrightarrow> i < length (objs w) \<and> client_uid (objs w ! i) = k)
    \<and> (\<forall>i<length (objs w). map_of (cache w) (client_uid (objs w ! i)) = Some i))"

text \<open>The change lists a registration's \<open>onChange\<close> has been called with, in the order of
  the calls; the lists that wait in its queue; and the two one after the other.\<close>

definition delivered :: "nat \<Rightarrow> action list \<Rightarrow> localpath list list" where
  "delivered r tr =
     concat (map (\<lambda>a. case a of OnChange r' t \<Rightarrow> if r' = r then [t] else [] | _ \<Rightarrow> []) tr)"

definition waiting :: "nat \<Rightarrow> inst \<Rightarrow> localpath list list" where
  "waiting r s = (if r < length (queues s) then tasks (queues s ! r) else [])"

definition backlog :: "nat \<Rightarrow> inst \<Rightarrow> localpath list list" where
  "backlog r s = delivered r (trace s) @ waiting r s"

text \<open>A queue with lists waiting is not left alone: its worker runs, or a turn of the
  queue (\<^verbatim>\<open>q.process\<close> on \<^verbatim>\<open>setImmediate\<close>) is scheduled.\<close>

definition scheduled :: "nat \<Rightarrow> inst \<Rightarrow> bool" where
  "scheduled r s =
     (waiting r s = [] \<or> 0 < workers (queues s ! r)
      \<or> (SetImmediate, QueueProcess r) \<in> set (pending s))"

section \<open>Properties\<close>

subsection \<open>Folder entries\<close>

lemma folder_statted_exists: "folder_statted fin c i lp (StatOk n) s = each_done fin c None s"
  by (simp add: folder_statted_def Stats_isDirectory_def)

text \<open>
  C8 (the code differs from the claim).  A folder entry for \<^verbatim>\<open>/docs\<close> arrives while the
  local \<^verbatim>\<open>/docs\<close> is a file.  \<open>_replaceLocalWithFolder\<close> tests \<^verbatim>\<open>stat.isDirectory\<close>
  without calling it, so the test holds for the file too: the entry is reported as applied
  (the counter of the batch reaches 1, the path is queued for \<open>onChange\<close>) and no remove,
  mkdirs or write was ever issued.  The file stays where the folder should be.
\<close>

theorem folder_over_file_keeps_file:
  "(let lp = PathJoin ''/r'' ''./docs'';
        s = snd (run ([], fresh ''u'' ''/r'')
                  [Sync None,
                   Return (PullChanges None) (PullCb None)
                     (Pulled (page [folderEntry ''/docs''] False False 1)),
                   Return (FsStat lp) (FolderStatCb 0 0 lp) (StatOk FileNode)])
    in mutations (trace s) = [] \<and> completed (commits s ! 0) = 1 \<and> \<not> failed (commits s ! 0)
       \<and> tasks (queues s ! 0) = [[lp]])"
  by code_simp

subsection \<open>The instance cache\<close>

lemma armed_watchForChanges: "armed (watchForChanges s)"
  by (simp add: armed_def watchForChanges_def pullChanges_def issue_def)

lemma watchForChanges_armed: "armed s \<Longrightarrow> watchForChanges s = s"
  by (simp add: armed_def watchForChanges_def pullChanges_def split: if_splits)

lemma armed_sync: "armed (sync p s)"
  by (simp add: sync_def Let_def armed_watchForChanges)

lemma armed_sync1: "armed (sync1 p s)"
  by (simp add: sync1_def Let_def armed_watchForChanges)

lemma sync_armed:
  assumes a: "armed s"
  shows "filter is_remote (pending (sync p s)) = filter is_remote (pending s)
       \<and> cursor (sync p s) = cursor s"
proof -
  define p' where
    "p' = normalizePath (case p of None \<Rightarrow> ''/'' | Some x \<Rightarrow> if x = [] then ''/'' else x)"
  define s1 where
    "s1 = getLocalState p' (length (queues s))
            (s\<lparr>queues := queues s @ [\<lparr>tasks = [], workers = 0\<rparr>],
               paths := AList.update p' (length (queues s)) (paths s)\<rparr>)"
  have "armed s1" using a by (simp add: s1_def armed_def getLocalState_def issue_def)
  then have "watchForChanges s1 = s1" by (rule watchForChanges_armed)
  moreover have "sync p s = watchForChanges s1" by (simp add: sync_def Let_def s1_def p'_def)
  moreover have "filter is_remote (pending s1) = filter is_remote (pending s)" "cursor s1 = cursor s"
    by (simp_all add: s1_def getLocalState_def issue_def is_remote_def)
  ultimately show ?thesis by simp
qed

lemma sync1_armed:
  assumes a: "armed s"
  shows "pending (sync1 p s) = pending s \<and> cursor (sync1 p s) = cursor s"
proof -
  define s1 where
    "s1 = s\<lparr>paths := AList.update (case p of None \<Rightarrow> ''undefined'' | Some x \<Rightarrow> normalizePath1 x)
                       (regs s) (paths s),
             regs := Suc (regs s)\<rparr>"
  have "armed s1" using a by (simp add: s1_def armed_def)
  then have "watchForChanges s1 = s1" by (rule watchForChanges_armed)
  moreover have "sync1 p s = watchForChanges s1" by (simp add: sync1_def Let_def s1_def)
  moreover have "pending s1 = pending s" "cursor s1 = cursor s"
    by (simp_all add: s1_def)
  ultimately show ?thesis by simp
qed

lemma DropboxSync_again:
  "uid cfg' = uid cfg \<Longrightarrow> DropboxSync cfg' r (snd (DropboxSync cfg r w)) = DropboxSync cfg r w"
  by (auto simp: DropboxSync_def AList.update_conv' split: option.splits)

lemma DropboxSync1_again:
  "uid cfg' = uid cfg \<Longrightarrow> DropboxSync1 cfg' r' (snd (DropboxSync1 cfg r w)) = DropboxSync1 cfg r w"
  by (auto simp: DropboxSync1_def AList.update_conv' split: option.splits)

lemma DropboxSync_sync_parts:
  "cache (snd (DropboxSync_sync cfg r p w)) = cache (snd (DropboxSync cfg r w))"
  "fst (DropboxSync_sync cfg r p w) = fst (DropboxSync cfg r w)"
  by (simp_all add: DropboxSync_sync_def split_beta Let_def)

lemma DropboxSync_sync1_parts:
  "cache (snd (DropboxSync_sync1 cfg r p w)) = cache (snd (DropboxSync1 cfg r w))"
  "fst (DropboxSync_sync1 cfg r p w) = fst (DropboxSync1 cfg r w)"
  by (simp_all add: DropboxSync_sync1_def split_beta Let_def)

lemma DropboxSync_cached:
  "map_of (cache (snd (DropboxSync cfg r w))) (cacheKey (uid cfg) r) = Some (fst (DropboxSync cfg r w))"
  by (auto simp: DropboxSync_def AList.update_conv' split: option.splits)

lemma DropboxSync1_cached:
  "map_of (cache (snd (DropboxSync1 cfg r w))) (uid cfg) = Some (fst (DropboxSync1 cfg r w))"
  by (auto simp: DropboxSync1_def AList.update_conv' split: option.splits)

lemma DropboxSync_hit:
  "map_of (cache w) (cacheKey (uid cfg) r) = Some i \<Longrightarrow> DropboxSync cfg r w = (i, w)"
  by (simp add: DropboxSync_def)

lemma DropboxSync1_hit:
  "map_of (cache w) (uid cfg) = Some i \<Longrightarrow> DropboxSync1 cfg r w = (i, w)"
  by (simp add: DropboxSync1_def)

lemma DropboxSync_sync_again:
  fixes cfg cfg' :: dropboxConfig and r :: string and p p' :: "string option" and w :: world
  assumes u: "uid cfg' = uid cfg"
  defines "w1 \<equiv> snd (DropboxSync_sync cfg r p w)"
  defines "w2 \<equiv> snd (DropboxSync_sync cfg' r p' w1)"
  shows "fst (DropboxSync_sync cfg' r p' w1) = fst (DropboxSync_sync cfg r p w)
       \<and> cache w2 = cache w1 \<and> length (objs w2) = length (objs w1)
       \<and> map cursor (objs w2) = map cursor (objs w1)
       \<and> map (\<lambda>s. filter is_remote (pending s)) (objs w2)
         = map (\<lambda>s. filter is_remote (pending s)) (objs w1)"
proof -
  define i where "i = fst (DropboxSync cfg r w)"
  define wa where "wa = snd (DropboxSync cfg r w)"
  have hit: "map_of (cache w1) (cacheKey (uid cfg') r) = Some i"
    unfolding w1_def i_def u by (simp add: DropboxSync_sync_parts DropboxSync_cached)
  have again: "DropboxSync cfg' r w1 = (i, w1)" using hit by (rule DropboxSync_hit)
  have fst1: "fst (DropboxSync_sync cfg r p w) = i" by (simp add: DropboxSync_sync_parts i_def)
  have w1_eq: "w1 = (if i < length (objs wa)
                     then wa\<lparr>objs := (objs wa)[i := sync p (objs wa ! i)]\<rparr> else wa)"
    by (simp add: w1_def DropboxSync_sync_def split_beta Let_def i_def wa_def)
  have w2_eq: "w2 = (if i < length (objs w1)
                     then w1\<lparr>objs := (objs w1)[i := sync p' (objs w1 ! i)]\<rparr> else w1)"
    by (simp add: w2_def DropboxSync_sync_def again)
  have fst2: "fst (DropboxSync_sync cfg' r p' w1) = i"
    by (simp add: DropboxSync_sync_def again)
  show ?thesis
  proof (cases "i < length (objs wa)")
    case False
    then have "w1 = wa" by (simp add: w1_eq)
    with False have "w2 = w1" by (simp add: w2_eq)
    then show ?thesis by (simp add: fst1 fst2)
  next
    case True
    then have len: "i < length (objs w1)" by (simp add: w1_eq)
    have at: "objs w1 ! i = sync p (objs wa ! i)" using True by (simp add: w1_eq)
    have ar: "armed (objs w1 ! i)" by (simp add: at armed_sync)
    note sa = sync_armed [OF ar, of p']
    have o2: "objs w2 = (objs w1)[i := sync p' (objs w1 ! i)]" and c2: "cache w2 = cache w1"
      using len by (simp_all add: w2_eq)
    have m1: "map cursor (objs w2) = map cursor (objs w1)"
      unfolding o2 using sa len by (simp add: map_update list_update_same_conv)
    have m2: "map (\<lambda>s. filter is_remote (pending s)) (objs w2)
            = map (\<lambda>s. filter is_remote (pending s)) (objs w1)"
      unfolding o2 using sa len by (simp add: map_update list_update_same_conv)
    show ?thesis using m1 m2 c2 o2 by (simp add: fst1 fst2)
  qed
qed

lemma DropboxSync_sync1_again:
  fixes cfg cfg' :: dropboxConfig and r r' :: string and p p' :: "string option" and w :: world
  assumes u: "uid cfg' = uid cfg"
  defines "w1 \<equiv> snd (DropboxSync_sync1 cfg r p w)"
  defines "w2 \<equiv> snd (DropboxSync_sync1 cfg' r' p' w1)"
  shows "fst (DropboxSync_sync1 cfg' r' p' w1) = fst (DropboxSync_sync1 cfg r p w)
       \<and> cache w2 = cache w1 \<and> length (objs w2) = length (objs w1)
       \<and> map cursor (objs w2) = map cursor (objs w1)
       \<and> map pending (objs w2) = map pending (objs w1)"
proof -
  define i where "i = fst (DropboxSync1 cfg r w)"
  define wa where "wa = snd (DropboxSync1 cfg r w)"
  have hit: "map_of (cache w1) (uid cfg') = Some i"
    unfolding w1_def i_def u by (simp add: DropboxSync_sync1_parts DropboxSync1_cached)
  have again: "DropboxSync1 cfg' r' w1 = (i, w1)" using hit by (rule DropboxSync1_hit)
  have fst1: "fst (DropboxSync_sync1 cfg r p w) = i" by (simp add: DropboxSync_sync1_parts i_def)
  have w1_eq: "w1 = (if i < length (objs wa)
                     then wa\<lparr>objs := (objs wa)[i := sync1 p (objs wa ! i)]\<rparr> else wa)"
    by (simp add: w1_def DropboxSync_sync1_def split_beta Let_def i_def wa_def)
  have w2_eq: "w2 = (if i < length (objs w1)
                     then w1\<lparr>objs := (objs w1)[i := sync1 p' (objs w1 ! i)]\<rparr> else w1)"
    by (simp add: w2_def DropboxSync_sync1_def again)
  have fst2: "fst (DropboxSync_sync1 cfg' r' p' w1) = i"
    by (simp add: DropboxSync_sync1_def again)
  show ?thesis
  proof (cases "i < length (objs wa)")
    case False
    then have "w1 = wa" by (simp add: w1_eq)
    with False have "w2 = w1" by (simp add: w2_eq)
    then show ?thesis by (simp add: fst1 fst2)
  next
    case True
    then have len: "i < length (objs w1)" by (simp add: w1_eq)
    have at: "objs w1 ! i = sync1 p (objs wa ! i)" using True by (simp add: w1_eq)
    have ar: "armed (objs w1 ! i)" by (simp add: at armed_sync1)
    note sa = sync1_armed [OF ar, of p']
    have o2: "objs w2 = (objs w1)[i := sync1 p' (objs w1 ! i)]" and c2: "cache w2 = cache w1"
      using len by (simp_all add: w2_eq)
    have m1: "map cursor (objs w2) = map cursor (objs w1)"
      unfolding o2 using sa len by (simp add: map_update list_update_same_conv)
    have m2: "map pending (objs w2) = map pending (objs w1)"
      unfolding o2 using sa len by (simp add: map_update list_update_same_conv)
    show ?thesis using m1 m2 c2 o2 by (simp add: fst1 fst2)
  qed
qed

lemma distinct_cache_DropboxSync:
  "distinct (map fst (cache w)) \<Longrightarrow> distinct (map fst (cache (snd (DropboxSync cfg r w))))"
  by (auto simp: DropboxSync_def AList.distinct_update split: option.splits)

lemma distinct_cache_DropboxSync1:
  "distinct (map fst (cache w)) \<Longrightarrow> distinct (map fst (cache (snd (DropboxSync1 cfg r w))))"
  by (auto simp: DropboxSync1_def AList.distinct_update split: option.splits)

subsection \<open>A failed fetch\<close>


lemma fold_pathHandler_err:
  "fold (\<lambda>(p, r). pathHandler r (Inl e)) ps s = s\<lparr>trace := trace s @ map (\<lambda>(p, r). OnError r e) ps\<rparr>"
  by (induction ps arbitrary: s) (auto simp: pathHandler_def emit_def)

lemma fold_pathHandler1_err:
  "fold (\<lambda>(p, r). pathHandler1 r (Inl e)) ps s = s\<lparr>trace := trace s @ map (\<lambda>(p, r). OnError r e) ps\<rparr>"
  by (induction ps arbitrary: s) (auto simp: pathHandler1_def emit_def)

lemma errAll_pathHandler:
  "errAll pathHandler e s = s\<lparr>trace := trace s @ map (\<lambda>(p, r). OnError r e) (paths s)\<rparr>"
  by (simp add: errAll_def fold_pathHandler_err)

lemma errAll_pathHandler1:
  "errAll pathHandler1 e s = s\<lparr>trace := trace s @ map (\<lambda>(p, r). OnError r e) (paths s)\<rparr>"
  by (simp add: errAll_def fold_pathHandler1_err)

lemma callbackI_err: "outermost k = SyncCbI \<Longrightarrow> callbackI k (Inl e) s = emit (OnError 0 e) s"
  by (induction k "Inl e :: error + pulledChanges" s rule: callbackI.induct) auto

text \<open>
  C5.  When the fetch of \<open>pullChanges\<close> answers with an error, the stored cursor is the
  one from before the fetch and every registered path's error handler is called with the
  error, in the order of registration.  This holds in part_000 and part_001 (through
  \<open>errAll\<close>) and in index.js, where the one handler is reached through the callback
  chain that ends in the closure of \<open>sync\<close>.
\<close>

theorem pull_error_keeps_cursor:
  "((PullChanges c, PullCb prev) \<in> set (pending s) \<longrightarrow>
      (let s' = snd (step (C, s) (Return (PullChanges c) (PullCb prev) (Failed e)))
       in cursor s' = cursor s
        \<and> trace s' = trace s @ Returned (PullChanges c) (PullCb prev) (Failed e)
                              # map (\<lambda>(p, r). OnError r e) (paths s))
    \<and> (let s' = step1 s (Return (PullChanges c) (PullCb prev) (Failed e))
       in cursor s' = cursor s
        \<and> trace s' = trace s @ Returned (PullChanges c) (PullCb prev) (Failed e)
                              # map (\<lambda>(p, r). OnError r e) (paths s)))
 \<and> ((PullChanges c, PullCbI k) \<in> set (pending s) \<and> outermost k = SyncCbI \<longrightarrow>
      (let s' = stepI s (Return (PullChanges c) (PullCbI k) (Failed e))
       in cursor s' = cursor s
        \<and> trace s' = trace s @ [Returned (PullChanges c) (PullCbI k) (Failed e), OnError 0 e]))"
  by (simp add: Let_def errAll_pathHandler errAll_pathHandler1 answered_def pulledI_def callbackI_err emit_def)


theorem pull_error_keeps_cursor_witness:
  "(PullChanges None, PullCb None) \<in> set (pending (sync (Some ''/a'') (sync (Some ''/b'') (fresh ''u'' ''/r''))))
   \<and> (let s = sync (Some ''/a'') (sync (Some ''/b'') (fresh ''u'' ''/r''));
           s' = snd (step ([], s) (Return (PullChanges None) (PullCb None) (Failed ApiError)))
       in cursor s' = None
        \<and> trace s' = trace s @ [Returned (PullChanges None) (PullCb None) (Failed ApiError),
                                 OnError 0 ApiError, OnError 1 ApiError])
   \<and> (PullChanges None, PullCb None) \<in> set (pending (sync1 (Some ''/a'') (fresh ''u'' ''/r'')))
   \<and> (let s = sync1 (Some ''/a'') (fresh ''u'' ''/r'');
           s' = step1 s (Return (PullChanges None) (PullCb None) (Failed ApiError))
       in cursor s' = None
        \<and> trace s' = trace s @ [Returned (PullChanges None) (PullCb None) (Failed ApiError),
                                 OnError 0 ApiError])
   \<and> (PullChanges None, PullCbI SyncCbI) \<in> set (pending (syncI (DropboxSyncI (account ''u'' ''t'') ''/r'' ''a'')))
   \<and> outermost SyncCbI = SyncCbI
   \<and> (let s = syncI (DropboxSyncI (account ''u'' ''t'') ''/r'' ''a'');
           s' = stepI s (Return (PullChanges None) (PullCbI SyncCbI) (Failed ApiError))
       in cursor s' = None
        \<and> trace s' = trace s @ [Returned (PullChanges None) (PullCbI SyncCbI) (Failed ApiError),
                                 OnError 0 ApiError])"
proof -
  define s0 where "s0 = sync (Some ''/a'') (sync (Some ''/b'') (fresh ''u'' ''/r''))"
  define s1 where "s1 = sync1 (Some ''/a'') (fresh ''u'' ''/r'')"
  define sI where "sI = syncI (DropboxSyncI (account ''u'' ''t'') ''/r'' ''a'')"
  have h0: "(PullChanges None, PullCb None) \<in> set (pending s0)" unfolding s0_def by code_simp
  have h1: "(PullChanges None, PullCb None) \<in> set (pending s1)" unfolding s1_def by code_simp
  have hI: "(PullChanges None, PullCbI SyncCbI) \<in> set (pending sI)" unfolding sI_def by code_simp
  have o: "outermost SyncCbI = SyncCbI" by simp
  have p0: "paths s0 = [(''/b'', 0), (''/a'', 1)]" "cursor s0 = None" unfolding s0_def by code_simp+
  have p1: "paths s1 = [(''/a'', 0)]" "cursor s1 = None" unfolding s1_def by code_simp+
  have pI: "cursor sI = None" unfolding sI_def by code_simp
  note t0 = pull_error_keeps_cursor [where s = s0 and c = None and prev = None and e = ApiError and C = "[]" and k = SyncCbI]
  note t1 = pull_error_keeps_cursor [where s = s1 and c = None and prev = None and e = ApiError and C = "[]" and k = SyncCbI]
  note tI = pull_error_keeps_cursor [where s = sI and c = None and prev = None and e = ApiError and C = "[]" and k = SyncCbI]
  have a0: "(let s' = snd (step ([], s0) (Return (PullChanges None) (PullCb None) (Failed ApiError)))
       in cursor s' = None
        \<and> trace s' = trace s0 @ [Returned (PullChanges None) (PullCb None) (Failed ApiError),
                                 OnError 0 ApiError, OnError 1 ApiError])"
    using t0 h0 p0 by (simp add: Let_def)
  have a1: "(let s' = step1 s1 (Return (PullChanges None) (PullCb None) (Failed ApiError))
       in cursor s' = None
        \<and> trace s' = trace s1 @ [Returned (PullChanges None) (PullCb None) (Failed ApiError),
                                 OnError 0 ApiError])"
    using t1 h1 p1 by (simp add: Let_def)
  have aI: "(let s' = stepI sI (Return (PullChanges None) (PullCbI SyncCbI) (Failed ApiError))
       in cursor s' = None
        \<and> trace s' = trace sI @ [Returned (PullChanges None) (PullCbI SyncCbI) (Failed ApiError),
                                 OnError 0 ApiError])"
    using tI hI o pI by (simp add: Let_def)
  show ?thesis
    using h0 h1 hI o a0 a1 aI unfolding s0_def s1_def sI_def Let_def by blast
qed

subsection \<open>Accumulating the pages of one pull cycle\<close>

lemma pulls_member: "pulls s = x # xs \<Longrightarrow> x \<in> set (pending s)"
proof -
  assume "pulls s = x # xs"
  then have "x \<in> set (filter is_pull (pending s))" by (simp add: pulls_def)
  then show ?thesis by simp
qed

lemma pulls_answered:
  "is_pull (c, k) \<Longrightarrow> pulls (answered c k res s) = remove1 (c, k) (pulls s)"
  by (simp add: pulls_def answered_def filter_remove1)

lemma pulls_again:
  assumes "pulls s = []"
  shows "pulls (pullChanges prev (s\<lparr>cursor := Some n, pullingChanges := False\<rparr>))
         = [(PullChanges (Some n), PullCb prev)]"
  using assms by (simp add: pulls_def pullChanges_def issue_def is_pull_def)

lemma pulled_again:
  assumes "shouldPullAgain pg"
  shows "pulled complete prev pg s
         = pullChanges (Some (accumulate prev pg)) (s\<lparr>cursor := Some (cursorTag pg), pullingChanges := False\<rparr>)"
  using assms by (simp add: pulled_def Let_def)

lemma pulled_last:
  assumes "\<not> shouldPullAgain pg"
  shows "pulled complete prev pg s
         = complete (accumulate prev pg) (s\<lparr>cursor := Some (cursorTag pg), pullingChanges := False\<rparr>)"
  using assms by (simp add: pulled_def Let_def)

lemma answer_pull_eq:
  assumes "pulls s = [(PullChanges c, PullCb prev)]"
  shows "answer_pull s pg = pulled commitChanges prev pg (answered (PullChanges c) (PullCb prev) (Pulled pg) s)"
    and "answer_pull1 s pg = pulled dispatch1 prev pg (answered (PullChanges c) (PullCb prev) (Pulled pg) s)"
  using assms pulls_member [OF assms] by (simp_all add: answer_pull_def answer_pull1_def)

lemma frame_pullChanges:
  "commits (pullChanges prev s) = commits s" "queues (pullChanges prev s) = queues s"
  "consumer_calls (trace (pullChanges prev s)) = consumer_calls (trace s)"
  "mutations (trace (pullChanges prev s)) = mutations (trace s)"
  by (simp_all add: pullChanges_def issue_def consumer_calls_def mutations_def)

lemma frame_answered:
  "commits (answered c k res s) = commits s" "queues (answered c k res s) = queues s"
  "consumer_calls (trace (answered c k res s)) = consumer_calls (trace s)"
  "mutations (trace (answered c k res s)) = mutations (trace s)"
  by (simp_all add: answered_def consumer_calls_def mutations_def)

lemma answer_pull_again:
  assumes p: "pulls s = [(PullChanges c, PullCb prev)]" and a: "shouldPullAgain pg"
  shows "pulls (answer_pull s pg) = [(PullChanges (Some (cursorTag pg)), PullCb (Some (accumulate prev pg)))]
       \<and> commits (answer_pull s pg) = commits s \<and> queues (answer_pull s pg) = queues s
       \<and> consumer_calls (trace (answer_pull s pg)) = consumer_calls (trace s)
       \<and> mutations (trace (answer_pull s pg)) = mutations (trace s)
       \<and> answer_pull1 s pg = answer_pull s pg"
proof -
  let ?s1 = "answered (PullChanges c) (PullCb prev) (Pulled pg) s"
  have e: "pulls ?s1 = []" using p by (simp add: pulls_answered is_pull_def)
  have eq: "answer_pull s pg = pullChanges (Some (accumulate prev pg)) (?s1\<lparr>cursor := Some (cursorTag pg), pullingChanges := False\<rparr>)"
    by (simp add: answer_pull_eq [OF p] pulled_again [OF a])
  have eq1: "answer_pull1 s pg = pullChanges (Some (accumulate prev pg)) (?s1\<lparr>cursor := Some (cursorTag pg), pullingChanges := False\<rparr>)"
    by (simp add: answer_pull_eq [OF p] pulled_again [OF a])
  show ?thesis
    unfolding eq1 eq using pulls_again [OF e]
    by (simp add: frame_pullChanges frame_answered)
qed


lemma answer_pull_pages:
  assumes "pulls s = [(PullChanges c, PullCb prev)]" and "list_all shouldPullAgain ps"
  shows "pulls (foldl answer_pull s ps)
           = [(PullChanges (foldl (\<lambda>c p. Some (cursorTag p)) c ps),
               PullCb (foldl (\<lambda>a p. Some (accumulate a p)) prev ps))]
       \<and> commits (foldl answer_pull s ps) = commits s \<and> queues (foldl answer_pull s ps) = queues s
       \<and> consumer_calls (trace (foldl answer_pull s ps)) = consumer_calls (trace s)
       \<and> mutations (trace (foldl answer_pull s ps)) = mutations (trace s)
       \<and> foldl answer_pull1 s ps = foldl answer_pull s ps"
  using assms
proof (induction ps arbitrary: s c prev)
  case Nil
  then show ?case by simp
next
  case (Cons pg ps)
  from Cons.prems have a: "shouldPullAgain pg" and r: "list_all shouldPullAgain ps" by simp_all
  note one = answer_pull_again [OF Cons.prems(1) a]
  from one have p': "pulls (answer_pull s pg)
      = [(PullChanges (Some (cursorTag pg)), PullCb (Some (accumulate prev pg)))]" by simp
  note ih = Cons.IH [OF p' r]
  show ?case using ih one by simp
qed

lemma accumulate_simps:
  "accumulate None p = p"
  "accumulate (Some b) p = b\<lparr>changes := changes b @ changes p\<rparr>"
  by (simp_all add: accumulate_def)

lemma accumulate_pages:
  "foldl (\<lambda>a p. Some (accumulate a p)) (Some b) ps = Some (b\<lparr>changes := changes b @ concat (map changes ps)\<rparr>)"
  by (induction ps arbitrary: b) (simp_all add: accumulate_simps)

lemma accumulate_all:
  "accumulate (foldl (\<lambda>a p. Some (accumulate a p)) None ps) q
     = (hd (ps @ [q]))\<lparr>changes := concat (map changes (ps @ [q]))\<rparr>"
proof (cases ps)
  case Nil
  then show ?thesis by (simp add: accumulate_def)
next
  case (Cons p ps')
  have "foldl (\<lambda>a p. Some (accumulate a p)) None ps
          = foldl (\<lambda>a p. Some (accumulate a p)) (Some p) ps'"
    by (simp add: Cons accumulate_simps)
  then show ?thesis by (simp add: Cons accumulate_pages accumulate_simps)
qed

lemma pending_pages:
  "foldl (\<lambda>a p. Some (accumulate a p)) None ps
     = (if ps = [] then None else Some ((hd ps)\<lparr>changes := concat (map changes ps)\<rparr>))"
  "foldl (\<lambda>c p. Some (cursorTag p)) c ps = (if ps = [] then c else Some (cursorTag (last ps)))"
proof -
  show "foldl (\<lambda>a p. Some (accumulate a p)) None ps
     = (if ps = [] then None else Some ((hd ps)\<lparr>changes := concat (map changes ps)\<rparr>))"
  proof (cases ps)
    case Nil then show ?thesis by simp
  next
    case (Cons p ps')
    then show ?thesis by (simp add: accumulate_pages accumulate_simps)
  qed
  show "foldl (\<lambda>c p. Some (cursorTag p)) c ps = (if ps = [] then c else Some (cursorTag (last ps)))"
    by (induction ps arbitrary: c) simp_all
qed

text \<open>
  C4.  A pull cycle starts with one request in flight that carries no earlier page.  While
  the pages answer \<open>shouldPullAgain = true\<close>, each answer only sends the next request,
  which carries the first page with the entries of all the pages so far appended in order;
  no commit is started, no queue is touched, no handler is called and no file system
  request is issued.  The page that answers \<open>shouldPullAgain = false\<close> hands the first page
  with the entries of all the pages, in order, to \<open>commitChanges\<close> (part_000) and to the
  filter over the watched paths (part_001).
\<close>

theorem pages_accumulate_until_complete:
  assumes one: "pulls s = [(PullChanges c, PullCb None)]"
    and again: "list_all shouldPullAgain ps"
    and last: "\<not> shouldPullAgain q"
  shows "(let sp = foldl answer_pull s ps;
              c' = PullChanges (if ps = [] then c else Some (cursorTag (last ps)));
              k' = PullCb (if ps = [] then None
                           else Some ((hd ps)\<lparr>changes := concat (map changes ps)\<rparr>));
              b = (hd (ps @ [q]))\<lparr>changes := concat (map changes (ps @ [q]))\<rparr>;
              s' = (answered c' k' (Pulled q) sp)\<lparr>cursor := Some (cursorTag q), pullingChanges := False\<rparr>
          in pulls sp = [(c', k')]
           \<and> commits sp = commits s \<and> queues sp = queues s
           \<and> consumer_calls (trace sp) = consumer_calls (trace s)
           \<and> mutations (trace sp) = mutations (trace s)
           \<and> foldl answer_pull1 s ps = sp
           \<and> foldl answer_pull s (ps @ [q]) = commitChanges b s'
           \<and> foldl answer_pull1 s (ps @ [q]) = dispatch1 b s')"
proof -
  define sp where "sp = foldl answer_pull s ps"
  note pp = answer_pull_pages [OF one again, folded sp_def]
  from pp have p: "pulls sp = [(PullChanges (foldl (\<lambda>c p. Some (cursorTag p)) c ps),
               PullCb (foldl (\<lambda>a p. Some (accumulate a p)) None ps))]" by simp
  have f0: "foldl answer_pull s (ps @ [q]) = answer_pull sp q" by (simp add: sp_def)
  have f1: "foldl answer_pull1 s (ps @ [q]) = answer_pull1 sp q" using pp by (simp add: sp_def)
  note e = answer_pull_eq [OF p, of q]
  show ?thesis
    unfolding Let_def sp_def [symmetric] f0 f1 e pulled_last [OF last] accumulate_all
    using pp by (simp add: pending_pages)
qed


theorem pages_accumulate_until_complete_witness:
  "pulls (sync (Some ''/a'') (fresh ''u'' ''/r'')) = [(PullChanges None, PullCb None)]
   \<and> list_all shouldPullAgain [page [removal ''/a/x''] True True 1, page [removal ''/a/y''] True False 2]
   \<and> \<not> shouldPullAgain (page [removal ''/a/z''] False False 3)
   \<and> (let s = sync (Some ''/a'') (fresh ''u'' ''/r'');
           ps = [page [removal ''/a/x''] True True 1, page [removal ''/a/y''] True False 2];
           q = page [removal ''/a/z''] False False 3;
           sp = foldl answer_pull s ps
       in pulls sp = [(PullChanges (Some 2),
                       PullCb (Some (page [removal ''/a/x'', removal ''/a/y''] True True 1)))]
        \<and> commits sp = [] \<and> consumer_calls (trace sp) = [] \<and> mutations (trace sp) = []
        \<and> foldl answer_pull s (ps @ [q])
            = commitChanges (page [removal ''/a/x'', removal ''/a/y'', removal ''/a/z''] True True 1)
                ((answered (PullChanges (Some 2))
                    (PullCb (Some (page [removal ''/a/x'', removal ''/a/y''] True True 1))) (Pulled q) sp)
                 \<lparr>cursor := Some 3, pullingChanges := False\<rparr>)
        \<and> mutations (trace (foldl answer_pull s (ps @ [q])))
            = [FsRemove (PathResolve [''/r''])])"
proof -
  define s where "s = sync (Some ''/a'') (fresh ''u'' ''/r'')"
  define ps where "ps = [page [removal ''/a/x''] True True 1, page [removal ''/a/y''] True False 2]"
  define q where "q = page [removal ''/a/z''] False False 3"
  have h1: "pulls s = [(PullChanges None, PullCb None)]" unfolding s_def by code_simp
  have h2: "list_all shouldPullAgain ps" unfolding ps_def by (simp add: page_def)
  have h3: "\<not> shouldPullAgain q" unfolding q_def by (simp add: page_def)
  have v: "commits s = []" "consumer_calls (trace s) = []" "mutations (trace s) = []"
    unfolding s_def by code_simp+
  have w: "hd ps\<lparr>changes := concat (map changes ps)\<rparr> = page [removal ''/a/x'', removal ''/a/y''] True True 1"
    "hd (ps @ [q])\<lparr>changes := concat (map changes (ps @ [q]))\<rparr>
       = page [removal ''/a/x'', removal ''/a/y'', removal ''/a/z''] True True 1"
    "last ps = page [removal ''/a/y''] True False 2" "ps \<noteq> []" "cursorTag q = 3"
    unfolding ps_def q_def by (simp_all add: page_def)
  have m: "mutations (trace (foldl answer_pull s (ps @ [q])))
            = [FsRemove (PathResolve [''/r''])]"
    unfolding s_def ps_def q_def by code_simp
  note t = pages_accumulate_until_complete [OF h1 h2 h3, unfolded Let_def w v]
  have "cursorTag (page [removal ''/a/y''] True False 2) = 2" by (simp add: page_def)
  with t m h1 h2 h3 w(4) show ?thesis
    unfolding Let_def s_def [symmetric] ps_def [symmetric] q_def [symmetric] by simp
qed

subsection \<open>What the commit of a batch preserves\<close>

text \<open>A property of the object that survives the requests for entries, the bookkeeping in
  the table of activations and the final callback survives every function of the commit.\<close>

lemma set_commit_key:
  "c < length (commits s) \<Longrightarrow> commit_key x = commit_key (commits s ! c) \<Longrightarrow>
   map commit_key ((commits s)[c := x]) = map commit_key (commits s)"
  by (simp add: map_update list_update_same_conv)

lemma each_done_preserves:
  assumes U: "\<And>s cs. P s \<Longrightarrow> map commit_key cs = map commit_key (commits s) \<Longrightarrow> P (s\<lparr>commits := cs\<rparr>)"
    and F: "\<And>e s. P s \<Longrightarrow> P (fin c e s)"
    and P: "P s"
  shows "P (each_done fin c err s)"
proof (cases "c < length (commits s)")
  case False
  then show ?thesis using P by (simp add: each_done_def)
next
  case True
  have k1: "map commit_key ((commits s)[c := (commits s ! c)\<lparr>failed := True\<rparr>]) = map commit_key (commits s)"
    using True by (intro set_commit_key) (simp_all add: commit_key_def)
  have k2: "map commit_key ((commits s)[c := (commits s ! c)\<lparr>completed := completed (commits s ! c) + 1\<rparr>])
            = map commit_key (commits s)"
    using True by (intro set_commit_key) (simp_all add: commit_key_def)
  note u1 = U [OF P k1] and u2 = U [OF P k2]
  show ?thesis
    using True P u1 u2 F [OF u1] F [OF u2]
    by (simp add: each_done_def Let_def set_commit_def split: option.splits)
qed

lemma parallel_done_preserves:
  assumes I: "\<And>x k s. entry_req (x, k) \<Longrightarrow> cont_commit k = Some c \<Longrightarrow> P s \<Longrightarrow> P (issue x k s)"
    and U: "\<And>s cs. P s \<Longrightarrow> map commit_key cs = map commit_key (commits s) \<Longrightarrow> P (s\<lparr>commits := cs\<rparr>)"
    and F: "\<And>e s. P s \<Longrightarrow> P (fin c e s)"
    and P: "P s"
  shows "P (parallel_done fin c i lp err s)"
proof (cases "c < length (commits s)")
  case False
  then show ?thesis using P by (simp add: parallel_done_def)
next
  case True
  obtain n f where nf: "par_state (commits s ! c) i = (n, f)" by (cases "par_state (commits s ! c) i")
  have k: "\<And>x. map commit_key ((commits s)[c := (commits s ! c)\<lparr>par := x\<rparr>]) = map commit_key (commits s)"
    using True by (intro set_commit_key) (simp_all add: commit_key_def)
  note u = U [OF P k]
  have e: "\<And>x e. P (each_done fin c e (s\<lparr>commits := (commits s)[c := (commits s ! c)\<lparr>par := x\<rparr>]\<rparr>))"
    by (rule each_done_preserves [where P = P and fin = fin and c = c, OF U F u])
  have w: "\<And>x. P (issue (FsOutputFile lp) (EachDone c i) (s\<lparr>commits := (commits s)[c := (commits s ! c)\<lparr>par := x\<rparr>]\<rparr>))"
    by (rule I [OF _ _ u]; simp add: entry_req_def)
  show ?thesis
    using True P u e w nf
    by (simp add: parallel_done_def Let_def set_commit_def split: option.splits)
qed

lemma folder_statted_preserves:
  assumes I: "\<And>x k s. entry_req (x, k) \<Longrightarrow> cont_commit k = Some c \<Longrightarrow> P s \<Longrightarrow> P (issue x k s)"
    and U: "\<And>s cs. P s \<Longrightarrow> map commit_key cs = map commit_key (commits s) \<Longrightarrow> P (s\<lparr>commits := cs\<rparr>)"
    and F: "\<And>e s. P s \<Longrightarrow> P (fin c e s)"
    and P: "P s"
  shows "P (folder_statted fin c i lp res s)"
proof -
  have a: "P (issue (FsMkdirs lp) (EachDone c i) s)" "P (issue (FsRemove lp) (FolderRemoveCb c i lp) s)"
    by (rule I [OF _ _ P]; simp add: entry_req_def)+
  have b: "\<And>e. P (each_done fin c e s)" by (rule each_done_preserves [where P = P and fin = fin and c = c, OF U F P])
  show ?thesis using a b P by (simp add: folder_statted_def split: result.splits)
qed

lemma folder_removed_preserves:
  assumes I: "\<And>x k s. entry_req (x, k) \<Longrightarrow> cont_commit k = Some c \<Longrightarrow> P s \<Longrightarrow> P (issue x k s)"
    and U: "\<And>s cs. P s \<Longrightarrow> map commit_key cs = map commit_key (commits s) \<Longrightarrow> P (s\<lparr>commits := cs\<rparr>)"
    and F: "\<And>e s. P s \<Longrightarrow> P (fin c e s)"
    and P: "P s"
  shows "P (folder_removed fin c i lp res s)"
proof -
  have a: "P (issue (FsMkdirs lp) (EachDone c i) s)"
    by (rule I [OF _ _ P]; simp add: entry_req_def)
  have b: "\<And>e. P (each_done fin c e s)" by (rule each_done_preserves [where P = P and fin = fin and c = c, OF U F P])
  show ?thesis using a b P by (simp add: folder_removed_def split: result.splits)
qed

lemma commitChange_preserves:
  assumes I: "\<And>x k s. entry_req (x, k) \<Longrightarrow> cont_commit k = Some c \<Longrightarrow> P s \<Longrightarrow> P (issue x k s)"
    and U: "\<And>s cs. P s \<Longrightarrow> map commit_key cs = map commit_key (commits s) \<Longrightarrow> P (s\<lparr>commits := cs\<rparr>)"
    and F: "\<And>e s. P s \<Longrightarrow> P (fin c e s)"
    and P: "P s"
  shows "P (commitChange fin c i ch s)"
proof -
  have a: "\<And>lp. P (issue (FsRemove lp) (EachDone c i) s)"
    by (rule I [OF _ _ P]; simp add: entry_req_def)
  have b: "\<And>e. P (each_done fin c e s)" by (rule each_done_preserves [where P = P and fin = fin and c = c, OF U F P])
  have f1: "\<And>lp. P (issue (FsRemove lp) (ParallelLocal c i lp) s)"
    by (rule I [OF _ _ P]; simp add: entry_req_def)
  have f: "\<And>lp x. P (issue (ReadFile x) (ParallelDropbox c i lp) (issue (FsRemove lp) (ParallelLocal c i lp) s))"
    by (rule I [OF _ _ f1]; simp add: entry_req_def)
  have d: "\<And>lp. P (issue (FsStat lp) (FolderStatCb c i lp) s)"
    by (rule I [OF _ _ P]; simp add: entry_req_def)
  show ?thesis
    using a b f d
    by (simp add: commitChange_def replaceLocalWithFile_def replaceLocalWithFolder_def Let_def)
qed

lemma fold_preserves:
  assumes "\<And>x s. P s \<Longrightarrow> P (f x s)" and "P s"
  shows "P (fold f xs s)"
  using assms(2) by (induction xs arbitrary: s) (simp_all add: assms(1))

lemma each_start_preserves:
  assumes I: "\<And>x k s. entry_req (x, k) \<Longrightarrow> cont_commit k = Some c \<Longrightarrow> P s \<Longrightarrow> P (issue x k s)"
    and U: "\<And>s cs. P s \<Longrightarrow> map commit_key cs = map commit_key (commits s) \<Longrightarrow> P (s\<lparr>commits := cs\<rparr>)"
    and F: "\<And>e s. P s \<Longrightarrow> P (fin c e s)"
    and P: "P s"
  shows "P (each_start fin c s)"
proof -
  have "\<And>xs. P (fold (\<lambda>(i, ch). commitChange fin c i ch) xs s)"
  proof -
    fix xs
    show "P (fold (\<lambda>(i, ch). commitChange fin c i ch) xs s)"
    proof (rule fold_preserves [where P = P])
      fix x t assume "P t"
      then show "P ((\<lambda>(i, ch). commitChange fin c i ch) x t)"
        by (cases x) (simp add: commitChange_preserves [where P = P and fin = fin and c = c, OF I U F])
    qed (rule P)
  qed
  then show ?thesis using P F [OF P] by (simp add: each_start_def Let_def)
qed

subsection \<open>Routing entries to watched paths\<close>

lemma under_prefix: "isUnder p ch \<longleftrightarrow> prefix p (path ch)"
proof
  assume "isUnder p ch"
  then have "take (length p) (path ch) = p" by (simp add: isUnder_def)
  then show "prefix p (path ch)" by (metis take_is_prefix)
next
  assume "prefix p (path ch)"
  then obtain zs where "path ch = p @ zs" by (auto simp: prefix_def)
  then show "isUnder p ch" by (simp add: isUnder_def)
qed

lemma under_filter: "filter (isUnder p) xs = filter (\<lambda>e. prefix p (path e)) xs"
  by (rule filter_cong) (simp_all add: under_prefix)

lemma pathHandler_push:
  "r < length (queues t) \<Longrightarrow>
   pathHandler r (Inr (map path (filter (isUnder p) (changes pc)))) t = t' \<Longrightarrow>
   paths t' = paths t \<and> root t' = root t \<and> length (queues t') = length (queues t)
   \<and> tasks (queues t' ! r) = tasks (queues t ! r) @ pushed (root t) p pc
   \<and> (\<forall>r'. r' \<noteq> r \<longrightarrow> queues t' ! r' = queues t ! r')"
  by (auto simp: pathHandler_def queue_push_def issue_def pushed_def under_filter comp_def)

lemma dispatch_fold:
  assumes "paths t = al" and "root t = rt"
    and "list_all (\<lambda>(p, r). r < length (queues t)) al"
    and "set ks \<subseteq> fst ` set al"
    and "fold (\<lambda>p (s, t).
                 ((case map_of (paths s) p of
                     Some r \<Rightarrow> pathHandler r (Inr (map path (filter (isUnder p) (changes pc)))) s
                   | None \<Rightarrow> s), True)) ks (t, b) = (t', b')"
  shows "paths t' = al \<and> root t' = rt \<and> length (queues t') = length (queues t)
       \<and> (\<forall>r. tasks (queues t' ! r)
              = tasks (queues t ! r)
                @ concat (map (\<lambda>k. if map_of al k = Some r then pushed rt k pc else []) ks))
       \<and> b' = (b \<or> ks \<noteq> [])"
  using assms
proof (induction ks arbitrary: t b)
  case Nil
  then show ?case by simp
next
  case (Cons k ks)
  from Cons.prems(4) obtain r where kr: "(k, r) \<in> set al" by auto
  then obtain r0 where m: "map_of al k = Some r0"
    by (metis map_of_eq_None_iff not_Some_eq fst_conv image_eqI)
  then have "(k, r0) \<in> set al" by (rule map_of_SomeD)
  with Cons.prems(3) have lt: "r0 < length (queues t)" by (auto simp: list_all_iff)
  define t1 where "t1 = pathHandler r0 (Inr (map path (filter (isUnder k) (changes pc)))) t"
  note ph = pathHandler_push [OF lt t1_def [symmetric]]
  have f: "fold (\<lambda>p (s, t).
                 ((case map_of (paths s) p of
                     Some r \<Rightarrow> pathHandler r (Inr (map path (filter (isUnder p) (changes pc)))) s
                   | None \<Rightarrow> s), True)) ks (t1, True) = (t', b')"
    using Cons.prems(5) m by (simp add: Cons.prems(1) t1_def)
  have a1: "paths t1 = al" "root t1 = rt" using ph Cons.prems by simp_all
  have a3: "list_all (\<lambda>(p, r). r < length (queues t1)) al" using ph Cons.prems(3) by simp
  have a4: "set ks \<subseteq> fst ` set al" using Cons.prems(4) by simp
  note ih = Cons.IH [OF a1 a3 a4 f]
  have q: "\<And>r. tasks (queues t1 ! r)
            = tasks (queues t ! r) @ (if map_of al k = Some r then pushed rt k pc else [])"
    using ph m Cons.prems(2) by auto
  show ?case using ih ph q by simp
qed

lemma concat_single:
  "distinct xs \<Longrightarrow> p \<in> set xs \<Longrightarrow> concat (map (\<lambda>k. if k = p then X else []) xs) = X"
  by (induction xs) auto

lemma map_of_unique:
  assumes "distinct (map fst al)" and "distinct (map snd al)" and "(p, r) \<in> set al"
  shows "k \<in> fst ` set al \<Longrightarrow> (map_of al k = Some r) = (k = p)"
proof
  assume k: "k \<in> fst ` set al" and "map_of al k = Some r"
  then have "(k, r) \<in> set al" by (simp add: map_of_SomeD)
  with assms(2,3) show "k = p"
    by (metis distinct_map inj_onD snd_conv fst_conv)
next
  assume "k = p"
  with assms(1,3) show "map_of al k = Some r" by simp
qed

lemma dispatch_tasks:
  assumes d1: "distinct (map fst (paths s))" and d2: "distinct (map snd (paths s))"
    and lt: "list_all (\<lambda>(p, r). r < length (queues s)) (paths s)"
    and pr: "(p, r) \<in> set (paths s)"
  shows "tasks (queues (dispatch pc s) ! r) = tasks (queues s ! r) @ pushed (root s) p pc"
proof -
  obtain t' b' where f: "fold (\<lambda>p (s, t).
                 ((case map_of (paths s) p of
                     Some r \<Rightarrow> pathHandler r (Inr (map path (filter (isUnder p) (changes pc)))) s
                   | None \<Rightarrow> s), True)) (map fst (paths s)) (s, False) = (t', b')"
    by (cases "fold (\<lambda>p (s, t).
                 ((case map_of (paths s) p of
                     Some r \<Rightarrow> pathHandler r (Inr (map path (filter (isUnder p) (changes pc)))) s
                   | None \<Rightarrow> s), True)) (map fst (paths s)) (s, False)")
  have sub: "set (map fst (paths s)) \<subseteq> fst ` set (paths s)" by simp
  note df = dispatch_fold [OF refl refl lt sub f]
  have ne: "paths s \<noteq> []" using pr by auto
  then have b': "b'" using df by simp
  have "dispatch pc s = t'" using ne f b' by (simp add: dispatch_def)
  moreover have "concat (map (\<lambda>k. if map_of (paths s) k = Some r then pushed (root s) k pc else [])
                   (map fst (paths s)))
       = concat (map (\<lambda>k. if k = p then pushed (root s) p pc else []) (map fst (paths s)))"
    by (rule arg_cong [where f = concat], rule map_cong [OF refl])
       (simp add: map_of_unique [OF d1 d2 pr])
  moreover have "p \<in> set (map fst (paths s))" using pr by force
  ultimately show ?thesis using df concat_single [OF d1] by simp
qed


lemma watchForChanges_frame:
  "paths (watchForChanges s) = paths s" "root (watchForChanges s) = root s"
  "commits (watchForChanges s) = commits s" "queues (watchForChanges s) = queues s"
  by (simp_all add: watchForChanges_def pullChanges_def issue_def)

lemma pathHandler1_frame:
  "paths (pathHandler1 r a s) = paths s" "root (pathHandler1 r a s) = root s"
  "commits (pathHandler1 r a s) = commits s"
  by (simp_all add: pathHandler1_def watchForChanges_frame emit_def split: sum.splits)

lemma commitCallback1_frame:
  "paths (commitCallback1 c e s) = paths s" "root (commitCallback1 c e s) = root s"
  "commits (commitCallback1 c e s) = commits s"
  by (simp_all add: commitCallback1_def pathHandler1_frame split: option.splits)

lemma commitChanges1_frame:
  "paths (commitChanges1 p b r t) = paths t \<and> root (commitChanges1 p b r t) = root t
   \<and> map commit_key (commits (commitChanges1 p b r t))
       = map commit_key (commits t) @ [(b, Some p, Some r, None)]"
proof -
  define K where "K = map commit_key (commits t) @ [(b, Some p, Some r, None)]"
  define P where "P = (\<lambda>u::inst. paths u = paths t \<and> root u = root t \<and> map commit_key (commits u) = K)"
  define t1 where "t1 = t\<lparr>commits := commits t @ [new_commit b (Some p) (Some r) None]\<rparr>"
  have I: "\<And>c k c0 s. entry_req (c, k) \<Longrightarrow> cont_commit k = Some c0 \<Longrightarrow> P s \<Longrightarrow> P (issue c k s)" by (simp add: P_def issue_def)
  have U: "\<And>s cs. P s \<Longrightarrow> map commit_key cs = map commit_key (commits s) \<Longrightarrow> P (s\<lparr>commits := cs\<rparr>)"
    by (simp add: P_def)
  have F: "\<And>c e s. P s \<Longrightarrow> P (commitCallback1 c e s)" by (simp add: P_def commitCallback1_frame)
  have P1: "P t1" by (simp add: P_def t1_def K_def commit_key_def new_commit_def)
  have a: "P (each_start commitCallback1 (length (commits t)) t1)"
    by (rule each_start_preserves [where P = P, OF I U F P1])
  have b: "P (resetDir1 p (SeriesNext (length (commits t))) t1)"
    using P1 by (simp add: P_def resetDir1_def removeThenMkdirs_def issue_def)
  have "P (commitChanges1 p b r t)"
    using a b by (simp add: commitChanges1_def Let_def t1_def)
  then show ?thesis by (simp add: P_def K_def)
qed

lemma dispatch1_fold:
  assumes "paths t = al" and "set ks \<subseteq> fst ` set al"
    and "fold (\<lambda>p (s, cp).
                    (let filtered = filter (isUnder p) (changes pc)
                     in if filtered \<noteq> [] then
                          ((case map_of (paths s) p of
                              Some r \<Rightarrow> commitChanges1 p (pc\<lparr>changes := filtered\<rparr>) r s
                            | None \<Rightarrow> s), cp @ [p])
                        else (s, cp))) ks (t, cp0) = (t', cp')"
  shows "paths t' = al
       \<and> map commit_key (commits t')
         = map commit_key (commits t)
           @ map (\<lambda>k. (pc\<lparr>changes := filter (\<lambda>e. prefix k (path e)) (changes pc)\<rparr>, Some k, map_of al k, None))
               (filter (\<lambda>k. filter (\<lambda>e. prefix k (path e)) (changes pc) \<noteq> []) ks)"
  using assms
proof (induction ks arbitrary: t cp0)
  case Nil
  then show ?case by simp
next
  case (Cons k ks)
  from Cons.prems(2) obtain r where "(k, r) \<in> set al" by auto
  then obtain r0 where m: "map_of al k = Some r0"
    by (metis map_of_eq_None_iff not_Some_eq fst_conv image_eqI)
  have sub: "set ks \<subseteq> fst ` set al" using Cons.prems(2) by simp
  show ?case
  proof (cases "filter (\<lambda>e. prefix k (path e)) (changes pc) = []")
    case True
    then have f: "fold (\<lambda>p (s, cp).
                    (let filtered = filter (isUnder p) (changes pc)
                     in if filtered \<noteq> [] then
                          ((case map_of (paths s) p of
                              Some r \<Rightarrow> commitChanges1 p (pc\<lparr>changes := filtered\<rparr>) r s
                            | None \<Rightarrow> s), cp @ [p])
                        else (s, cp))) ks (t, cp0) = (t', cp')"
      using Cons.prems(3) by (simp add: under_filter)
    show ?thesis using Cons.IH [OF Cons.prems(1) sub f] True by simp
  next
    case False
    define t1 where "t1 = commitChanges1 k (pc\<lparr>changes := filter (\<lambda>e. prefix k (path e)) (changes pc)\<rparr>) r0 t"
    have f: "fold (\<lambda>p (s, cp).
                    (let filtered = filter (isUnder p) (changes pc)
                     in if filtered \<noteq> [] then
                          ((case map_of (paths s) p of
                              Some r \<Rightarrow> commitChanges1 p (pc\<lparr>changes := filtered\<rparr>) r s
                            | None \<Rightarrow> s), cp @ [p])
                        else (s, cp))) ks (t1, cp0 @ [k]) = (t', cp')"
      using Cons.prems(3) False m by (simp add: under_filter Cons.prems(1) t1_def)
    note fr = commitChanges1_frame [of k "pc\<lparr>changes := filter (\<lambda>e. prefix k (path e)) (changes pc)\<rparr>" r0 t, folded t1_def]
    have p1: "paths t1 = al" using fr Cons.prems(1) by simp
    show ?thesis using Cons.IH [OF p1 sub f] False fr m by simp
  qed
qed

lemma dispatch1_commits:
  assumes d1: "distinct (map fst (paths s))"
  shows "map commit_key (commits (dispatch1 pc s))
         = map commit_key (commits s)
           @ map (\<lambda>(p, r). (pc\<lparr>changes := filter (\<lambda>e. prefix p (path e)) (changes pc)\<rparr>, Some p, Some r, None))
               (filter (\<lambda>(p, r). filter (\<lambda>e. prefix p (path e)) (changes pc) \<noteq> []) (paths s))"
proof -
  obtain t' cp' where f: "fold (\<lambda>p (s, cp).
                    (let filtered = filter (isUnder p) (changes pc)
                     in if filtered \<noteq> [] then
                          ((case map_of (paths s) p of
                              Some r \<Rightarrow> commitChanges1 p (pc\<lparr>changes := filtered\<rparr>) r s
                            | None \<Rightarrow> s), cp @ [p])
                        else (s, cp))) (map fst (paths s)) (s, []) = (t', cp')"
    by (cases "fold (\<lambda>p (s, cp).
                    (let filtered = filter (isUnder p) (changes pc)
                     in if filtered \<noteq> [] then
                          ((case map_of (paths s) p of
                              Some r \<Rightarrow> commitChanges1 p (pc\<lparr>changes := filtered\<rparr>) r s
                            | None \<Rightarrow> s), cp @ [p])
                        else (s, cp))) (map fst (paths s)) (s, [])")
  have sub: "set (map fst (paths s)) \<subseteq> fst ` set (paths s)" by simp
  note df = dispatch1_fold [OF refl sub f]
  have c: "commits (dispatch1 pc s) = commits t'"
    using f by (simp add: dispatch1_def watchForChanges_frame)
  have m: "map_of (paths s) (fst x) = Some (snd x)" if "x \<in> set (paths s)" for x
    using map_of_is_SomeI [OF d1, of "fst x" "snd x"] that by simp
  have "map (\<lambda>k. (pc\<lparr>changes := filter (\<lambda>e. prefix k (path e)) (changes pc)\<rparr>, Some k, map_of (paths s) k, None))
               (filter (\<lambda>k. filter (\<lambda>e. prefix k (path e)) (changes pc) \<noteq> []) (map fst (paths s)))
      = map (\<lambda>(p, r). (pc\<lparr>changes := filter (\<lambda>e. prefix p (path e)) (changes pc)\<rparr>, Some p, Some r, None))
               (filter (\<lambda>(p, r). filter (\<lambda>e. prefix p (path e)) (changes pc) \<noteq> []) (paths s))"
    unfolding filter_map map_map comp_def
    by (rule map_cong) (auto simp: m split_beta intro: filter_cong)
  then show ?thesis using df c by simp
qed


text \<open>
  C6.  For a complete batch and a registered watched path \<open>p\<close>, the entries handed to
  \<open>p\<close> are exactly the entries of the batch whose remote path has \<open>p\<close> as a string
  prefix, in feed order: part_000 pushes their local paths as one task on the queue in front
  of \<open>p\<close>'s \<open>onChange\<close> (nothing when there is none); part_001 starts one commit per
  watched path that has such entries, on a copy of the batch holding exactly these entries,
  with \<open>p\<close>'s handler as callback.  An entry under two nested watched paths is in both.
\<close>

theorem entries_routed_by_prefix:
  assumes d1: "distinct (map fst (paths s))"
  shows "(distinct (map snd (paths s)) \<and> list_all (\<lambda>(p, r). r < length (queues s)) (paths s)
            \<and> (p, r) \<in> set (paths s) \<longrightarrow>
          tasks (queues (dispatch pc s) ! r) = tasks (queues s ! r) @ pushed (root s) p pc)
       \<and> map commit_key (commits (dispatch1 pc s))
          = map commit_key (commits s)
            @ map (\<lambda>(p, r). (pc\<lparr>changes := filter (\<lambda>e. prefix p (path e)) (changes pc)\<rparr>,
                              Some p, Some r, None))
                (filter (\<lambda>(p, r). filter (\<lambda>e. prefix p (path e)) (changes pc) \<noteq> []) (paths s))
       \<and> (isUnder p e \<longleftrightarrow> prefix p (path e))"
  using dispatch_tasks [OF d1, where p = p and r = r and pc = pc]
    dispatch1_commits [OF d1, where pc = pc] under_prefix [where p = p and ch = e]
  by blast

theorem entries_routed_by_prefix_witness:
  "(let s = sync (Some ''/a/b'') (sync (Some ''/a'') (fresh ''u'' ''/r''));
        pc = page [fileEntry ''/a/b/file.txt'', removal ''/a/other.txt'', removal ''/c/x''] False False 1
    in distinct (map fst (paths s)) \<and> distinct (map snd (paths s))
     \<and> list_all (\<lambda>(p, r). r < length (queues s)) (paths s)
     \<and> (''/a'', 0) \<in> set (paths s) \<and> (''/a/b'', 1) \<in> set (paths s)
     \<and> tasks (queues (dispatch pc s) ! 0)
        = [[PathJoin ''/r'' ''./a/b/file.txt'', PathJoin ''/r'' ''./a/other.txt'']]
     \<and> tasks (queues (dispatch pc s) ! 1) = [[PathJoin ''/r'' ''./a/b/file.txt'']])
   \<and> (let s = sync1 (Some ''/a/b'') (sync1 (Some ''/a'') (fresh ''u'' ''/r''));
            pc = page [fileEntry ''/a/b/file.txt'', removal ''/a/other.txt'', removal ''/c/x''] False False 1
        in distinct (map fst (paths s))
         \<and> map commit_key (commits (dispatch1 pc s))
            = [(page [fileEntry ''/a/b/file.txt'', removal ''/a/other.txt''] False False 1,
                Some ''/a'', Some 0, None),
               (page [fileEntry ''/a/b/file.txt''] False False 1, Some ''/a/b'', Some 1, None)])"
proof -
  define s where "s = sync (Some ''/a/b'') (sync (Some ''/a'') (fresh ''u'' ''/r''))"
  define s1 where "s1 = sync1 (Some ''/a/b'') (sync1 (Some ''/a'') (fresh ''u'' ''/r''))"
  define pc where
    "pc = page [fileEntry ''/a/b/file.txt'', removal ''/a/other.txt'', removal ''/c/x''] False False 1"
  have d: "distinct (map fst (paths s))" "distinct (map snd (paths s))"
    "list_all (\<lambda>(p, r). r < length (queues s)) (paths s)"
    "(''/a'', 0) \<in> set (paths s)" "(''/a/b'', 1) \<in> set (paths s)"
    unfolding s_def by code_simp+
  have e: "tasks (queues s ! 0) = []" "tasks (queues s ! 1) = []" "root s = ''/r''"
    unfolding s_def by code_simp+
  have pu: "pushed ''/r'' ''/a'' pc = [[PathJoin ''/r'' ''./a/b/file.txt'', PathJoin ''/r'' ''./a/other.txt'']]"
    "pushed ''/r'' ''/a/b'' pc = [[PathJoin ''/r'' ''./a/b/file.txt'']]"
    unfolding pc_def by code_simp+
  have d1: "distinct (map fst (paths s1))" unfolding s1_def by code_simp
  have e1: "map commit_key (commits s1)
            @ map (\<lambda>(p, r). (pc\<lparr>changes := filter (\<lambda>e. prefix p (path e)) (changes pc)\<rparr>,
                              Some p, Some r, None))
                (filter (\<lambda>(p, r). filter (\<lambda>e. prefix p (path e)) (changes pc) \<noteq> []) (paths s1))
          = [(page [fileEntry ''/a/b/file.txt'', removal ''/a/other.txt''] False False 1,
                Some ''/a'', Some 0, None),
               (page [fileEntry ''/a/b/file.txt''] False False 1, Some ''/a/b'', Some 1, None)]"
    unfolding s1_def pc_def by code_simp
  note a = entries_routed_by_prefix [OF d(1), where r = 0 and p = "''/a''" and pc = pc]
  note b = entries_routed_by_prefix [OF d(1), where r = 1 and p = "''/a/b''" and pc = pc]
  note c = entries_routed_by_prefix [OF d1, where r = 0 and p = "''/a''" and pc = pc]
  have t0: "tasks (queues (dispatch pc s) ! 0)
        = [[PathJoin ''/r'' ''./a/b/file.txt'', PathJoin ''/r'' ''./a/other.txt'']]"
    using a d e pu by simp
  have t1: "tasks (queues (dispatch pc s) ! 1) = [[PathJoin ''/r'' ''./a/b/file.txt'']]"
    using b d e pu by simp
  have t2: "map commit_key (commits (dispatch1 pc s1))
            = [(page [fileEntry ''/a/b/file.txt'', removal ''/a/other.txt''] False False 1,
                Some ''/a'', Some 0, None),
               (page [fileEntry ''/a/b/file.txt''] False False 1, Some ''/a/b'', Some 1, None)]"
    using c e1 by simp
  show ?thesis
    unfolding Let_def s_def [symmetric] s1_def [symmetric] pc_def [symmetric]
    using d d1 t0 t1 t2 by simp
qed

subsection \<open>Stopping the last watched path\<close>

lemma resume_reset_stop:
  "resume (ResetDirCb dir (StopCb n)) Ok t = issue (FsMkdirs dir) (StopCb n) t"
  "resume (ResetDirCb dir (StopCb n)) (Failed e) t = emit (StopCallback n (Some e)) t"
  "resume (StopCb n) res t = emit (StopCallback n (err_of res)) t"
  "resume1 (ResetDirCb dir (StopCb n)) Ok t = issue (FsMkdirs dir) (StopCb n) t"
  "resume1 (ResetDirCb dir (StopCb n)) (Failed e) t = emit (StopCallback n (Some e)) t"
  "resume1 (StopCb n) res t = emit (StopCallback n (err_of res)) t"
  by (simp_all add: err_of_def)

lemma stopSync_last_polling:
  assumes "AList.delete (normalizePath p) (paths s) = []" and "watchingForChanges s = Some h"
  shows "stopSync p (C, s)
         = (AList.delete (cacheKey (client_uid s) (root s)) C,
            issue (FsRemove (PathResolve [root s]))
              (ResetDirCb (PathResolve [root s]) (StopCb (stops s)))
              ((emit (Aborted h) (s\<lparr>paths := [], stops := Suc (stops s)\<rparr>))\<lparr>watchingForChanges := None\<rparr>))"
  using assms by (simp add: stopSync_def Let_def abort_def resetDir_def removeThenMkdirs_def emit_def)

lemma stopSync_otherwise:
  assumes "\<not> (AList.delete (normalizePath p) (paths s) = [] \<and> watchingForChanges s \<noteq> None)"
  shows "stopSync p (C, s)
         = (C, issue NextTick (StopCb (stops s))
                 (s\<lparr>paths := AList.delete (normalizePath p) (paths s), stops := Suc (stops s)\<rparr>))"
  using assms by (auto simp: stopSync_def Let_def)

lemma stopSync1_last_polling:
  assumes "AList.delete (normalizePath1 p) (paths s) = []" and "watchingForChanges s = Some h"
  shows "stopSync1 p s
         = issue (FsRemove (PathResolve [root s, drop 1 (normalizePath1 p)]))
              (ResetDirCb (PathResolve [root s, drop 1 (normalizePath1 p)]) (StopCb (stops s)))
              ((emit (Aborted h) (s\<lparr>paths := [], stops := Suc (stops s)\<rparr>))\<lparr>watchingForChanges := None\<rparr>)"
  using assms by (simp add: stopSync1_def Let_def abort_def resetDir1_def removeThenMkdirs_def emit_def)

text \<open>
  C9, as the claim states it, fails in part_000: \<open>stopSync\<close> removes the last watched path
  while the first pull is still in flight, so no poll is outstanding.  The callback runs,
  and the object is still in the cache and no file system request was ever issued.
\<close>

theorem stopSync_without_poll_keeps_cache:
  "(case run ([(''u:/r'', 0)], fresh ''u'' ''/r'')
           [Sync (Some ''/a''), StopSync ''/a'', Return NextTick (StopCb 0) Ok] of
      (C, s) \<Rightarrow>
        paths s = [] \<and> StopCallback 0 None \<in> set (trace s)
        \<and> map_of C (cacheKey (client_uid s) (root s)) = Some 0 \<and> mutations (trace s) = [])"
  by code_simp

text \<open>
  C9, amended.  In part_000, when \<open>stopSync\<close> removes the last watched path while a
  long-poll is outstanding, the poll is aborted, the object leaves the cache, and the local
  root is removed and made again before the callback runs: the only request left behind is
  the removal, its continuation makes the directory, and only the answer to that (or a
  failure of the removal) calls back.  When no poll is outstanding or a path remains,
  nothing is aborted, evicted or wiped and the callback is scheduled for the next tick.
  part_001 has no eviction; with a poll outstanding it aborts the poll and resets the
  directory of the stopped path before the callback.
\<close>

theorem stopSync_last_path:
  "(AList.delete (normalizePath p) (paths s) = [] \<and> watchingForChanges s = Some h \<longrightarrow>
      (case stopSync p (C, s) of
         (C', s') \<Rightarrow>
           map_of C' (cacheKey (client_uid s) (root s)) = None
           \<and> paths s' = [] \<and> watchingForChanges s' = None
           \<and> trace s' = trace s @ [Aborted h,
                 Issued (FsRemove (PathResolve [root s]))
                   (ResetDirCb (PathResolve [root s]) (StopCb (stops s)))]
           \<and> pending s' = pending s @ [(FsRemove (PathResolve [root s]),
                                         ResetDirCb (PathResolve [root s]) (StopCb (stops s)))]))
   \<and> resume (ResetDirCb dir (StopCb n)) Ok t = issue (FsMkdirs dir) (StopCb n) t
   \<and> resume (ResetDirCb dir (StopCb n)) (Failed e) t = emit (StopCallback n (Some e)) t
   \<and> resume (StopCb n) res t = emit (StopCallback n (err_of res)) t
   \<and> (\<not> (AList.delete (normalizePath p) (paths s) = [] \<and> watchingForChanges s \<noteq> None) \<longrightarrow>
        stopSync p (C, s)
          = (C, issue NextTick (StopCb (stops s))
                  (s\<lparr>paths := AList.delete (normalizePath p) (paths s), stops := Suc (stops s)\<rparr>)))
   \<and> (AList.delete (normalizePath1 p) (paths s) = [] \<and> watchingForChanges s = Some h \<longrightarrow>
        stopSync1 p s
          = issue (FsRemove (PathResolve [root s, drop 1 (normalizePath1 p)]))
              (ResetDirCb (PathResolve [root s, drop 1 (normalizePath1 p)]) (StopCb (stops s)))
              ((emit (Aborted h) (s\<lparr>paths := [], stops := Suc (stops s)\<rparr>))\<lparr>watchingForChanges := None\<rparr>))
   \<and> resume1 (ResetDirCb dir (StopCb n)) Ok t = issue (FsMkdirs dir) (StopCb n) t
   \<and> resume1 (ResetDirCb dir (StopCb n)) (Failed e) t = emit (StopCallback n (Some e)) t
   \<and> resume1 (StopCb n) res t = emit (StopCallback n (err_of res)) t"
proof -
  have a: "AList.delete (normalizePath p) (paths s) = [] \<and> watchingForChanges s = Some h \<longrightarrow>
      (case stopSync p (C, s) of
         (C', s') \<Rightarrow>
           map_of C' (cacheKey (client_uid s) (root s)) = None
           \<and> paths s' = [] \<and> watchingForChanges s' = None
           \<and> trace s' = trace s @ [Aborted h,
                 Issued (FsRemove (PathResolve [root s]))
                   (ResetDirCb (PathResolve [root s]) (StopCb (stops s)))]
           \<and> pending s' = pending s @ [(FsRemove (PathResolve [root s]),
                                         ResetDirCb (PathResolve [root s]) (StopCb (stops s)))])"
    by (auto simp: stopSync_last_polling AList.delete_conv issue_def emit_def)
  show ?thesis
    using a stopSync_otherwise [of p s C] stopSync1_last_polling [of p s h] resume_reset_stop
    by blast
qed


theorem stopSync_last_path_witness:
  "(let s = snd (run ([(''u:/r'', 0)], fresh ''u'' ''/r'')
                  [Sync (Some ''/a''),
                   Return (PullChanges None) (PullCb None) (Pulled (page [] False False 1)),
                   Sync (Some ''/a'')])
    in AList.delete (normalizePath ''/a'') (paths s) = [] \<and> watchingForChanges s = Some 0
     \<and> (case stopSync ''/a'' ([(''u:/r'', 0)], s) of
           (C', s') \<Rightarrow>
             map_of C' ''u:/r'' = None \<and> paths s' = [] \<and> watchingForChanges s' = None
             \<and> pending s' = pending s @ [(FsRemove (PathResolve [''/r'']),
                                           ResetDirCb (PathResolve [''/r'']) (StopCb 0))]))
   \<and> (let s = sync (Some ''/a'') (fresh ''u'' ''/r'')
       in \<not> (AList.delete (normalizePath ''/a'') (paths s) = [] \<and> watchingForChanges s \<noteq> None)
        \<and> fst (stopSync ''/a'' ([(''u:/r'', 0)], s)) = [(''u:/r'', 0)]
        \<and> pending (snd (stopSync ''/a'' ([(''u:/r'', 0)], s))) = pending s @ [(NextTick, StopCb 0)])
   \<and> (let s = run1 (fresh ''u'' ''/r'')
                  [Sync (Some ''/a''),
                   Return (PullChanges None) (PullCb None) (Pulled (page [] False False 1))]
       in AList.delete (normalizePath1 ''/a'') (paths s) = [] \<and> watchingForChanges s = Some 0
        \<and> pending (stopSync1 ''/a'' s)
           = pending s @ [(FsRemove (PathResolve [''/r'', ''a'']),
                           ResetDirCb (PathResolve [''/r'', ''a'']) (StopCb 0))])"
proof -
  define s where "s = snd (run ([(''u:/r'', 0)], fresh ''u'' ''/r'')
                  [Sync (Some ''/a''),
                   Return (PullChanges None) (PullCb None) (Pulled (page [] False False 1)),
                   Sync (Some ''/a'')])"
  define s0 where "s0 = sync (Some ''/a'') (fresh ''u'' ''/r'')"
  define s1 where "s1 = run1 (fresh ''u'' ''/r'')
                  [Sync (Some ''/a''),
                   Return (PullChanges None) (PullCb None) (Pulled (page [] False False 1))]"
  have h: "AList.delete (normalizePath ''/a'') (paths s) = [] \<and> watchingForChanges s = Some 0"
    unfolding s_def by code_simp
  have v: "cacheKey (client_uid s) (root s) = ''u:/r''" "root s = ''/r''" "stops s = 0"
    unfolding s_def by code_simp+
  have h0: "\<not> (AList.delete (normalizePath ''/a'') (paths s0) = [] \<and> watchingForChanges s0 \<noteq> None)"
    unfolding s0_def by code_simp
  have v0: "stops s0 = 0" unfolding s0_def by code_simp
  have h1: "AList.delete (normalizePath1 ''/a'') (paths s1) = [] \<and> watchingForChanges s1 = Some 0"
    unfolding s1_def by code_simp
  have v1: "root s1 = ''/r''" "stops s1 = 0" "drop 1 (normalizePath1 ''/a'') = ''a''"
    unfolding s1_def by code_simp+
  note a = stopSync_last_path [where s = s and p = "''/a''" and h = 0 and C = "[(''u:/r'', 0)]"]
  note b = stopSync_last_path [where s = s0 and p = "''/a''" and C = "[(''u:/r'', 0)]"]
  note c = stopSync_last_path [where s = s1 and p = "''/a''" and h = 0]
  have ra: "(case stopSync ''/a'' ([(''u:/r'', 0)], s) of
           (C', s') \<Rightarrow>
             map_of C' ''u:/r'' = None \<and> paths s' = [] \<and> watchingForChanges s' = None
             \<and> pending s' = pending s @ [(FsRemove (PathResolve [''/r'']),
                                           ResetDirCb (PathResolve [''/r'']) (StopCb 0))])"
    using a h v by (auto split: prod.splits)
  have rb: "fst (stopSync ''/a'' ([(''u:/r'', 0)], s0)) = [(''u:/r'', 0)]
        \<and> pending (snd (stopSync ''/a'' ([(''u:/r'', 0)], s0))) = pending s0 @ [(NextTick, StopCb 0)]"
    using b h0 v0 by (simp add: issue_def)
  have rc: "pending (stopSync1 ''/a'' s1)
           = pending s1 @ [(FsRemove (PathResolve [''/r'', ''a'']),
                           ResetDirCb (PathResolve [''/r'', ''a'']) (StopCb 0))]"
    using c h1 v1 by (simp add: issue_def emit_def)
  show ?thesis
    unfolding Let_def s_def [symmetric] s0_def [symmetric] s1_def [symmetric]
    using h h0 h1 ra rb rc by blast
qed

subsection \<open>The order in which entries are applied\<close>

text \<open>
  C3, as the claim states it, fails: a batch of two removals is committed, and the request
  for the second entry is issued while the request for the first is unanswered.
\<close>

theorem second_entry_starts_before_first_completes:
  "\<not> sequential 0 []
       (trace (snd (run ([], fresh ''u'' ''/r'')
                      [Sync None,
                       Return (PullChanges None) (PullCb None)
                         (Pulled (page [removal ''/a'', removal ''/b''] False False 1))])))"
  by code_simp

lemma each_done_err_frame:
  assumes F: "\<And>s. pending (fin c (Some e) s) = pending s \<and> root (fin c (Some e) s) = root s
                   \<and> map commit_key (commits (fin c (Some e) s)) = map commit_key (commits s)"
  shows "pending (each_done fin c (Some e) s) = pending s \<and> root (each_done fin c (Some e) s) = root s
         \<and> map commit_key (commits (each_done fin c (Some e) s)) = map commit_key (commits s)"
proof (cases "c < length (commits s) \<and> \<not> failed (commits s ! c)")
  case False
  then show ?thesis by (auto simp: each_done_def Let_def)
next
  case True
  have k: "map commit_key ((commits s)[c := (commits s ! c)\<lparr>failed := True\<rparr>]) = map commit_key (commits s)"
    using True by (intro set_commit_key) (simp_all add: commit_key_def)
  show ?thesis using True F k by (simp add: each_done_def Let_def set_commit_def)
qed

lemma commitChange_requests:
  assumes F: "\<And>e s. pending (fin c (Some e) s) = pending s \<and> root (fin c (Some e) s) = root s
                   \<and> map commit_key (commits (fin c (Some e) s)) = map commit_key (commits s)"
  shows "pending (commitChange fin c i ch s) = pending s @ first_requests (root s) c i ch
       \<and> root (commitChange fin c i ch s) = root s
       \<and> map commit_key (commits (commitChange fin c i ch s)) = map commit_key (commits s)"
  using each_done_err_frame [of fin c UnableToCommitChange s, OF F]
  by (simp add: commitChange_def first_requests_def replaceLocalWithFile_def
        replaceLocalWithFolder_def issue_def Let_def)

lemma fold_commitChange_requests:
  assumes F: "\<And>e s. pending (fin c (Some e) s) = pending s \<and> root (fin c (Some e) s) = root s
                   \<and> map commit_key (commits (fin c (Some e) s)) = map commit_key (commits s)"
  shows "pending (fold (\<lambda>(i, ch). commitChange fin c i ch) xs s)
           = pending s @ concat (map (\<lambda>(i, ch). first_requests (root s) c i ch) xs)
       \<and> root (fold (\<lambda>(i, ch). commitChange fin c i ch) xs s) = root s"
proof (induction xs arbitrary: s)
  case Nil
  then show ?case by simp
next
  case (Cons x xs)
  obtain i ch where x: "x = (i, ch)" by (cases x)
  note cc = commitChange_requests [of fin c i ch s, OF F]
  show ?case using Cons.IH [of "commitChange fin c i ch s"] cc by (simp add: x)
qed

lemma errAll_frame:
  "pending (errAll pathHandler e s) = pending s" "root (errAll pathHandler e s) = root s"
  "commits (errAll pathHandler e s) = commits s"
  by (simp_all add: errAll_pathHandler)

lemma each_start_requests:
  assumes c: "c < length (commits s)" and ne: "changes (batch (commits s ! c)) \<noteq> []"
  shows "pending (each_start commitCallback c s)
           = pending s @ concat (map (\<lambda>(i, ch). first_requests (root s) c i ch)
                                  (enumerate 0 (changes (batch (commits s ! c)))))"
    and "pending (each_start commitCallback1 c s)
           = pending s @ concat (map (\<lambda>(i, ch). first_requests (root s) c i ch)
                                  (enumerate 0 (changes (batch (commits s ! c)))))"
proof -
  have F: "\<And>e s. pending (commitCallback c (Some e) s) = pending s
                 \<and> root (commitCallback c (Some e) s) = root s
                 \<and> map commit_key (commits (commitCallback c (Some e) s)) = map commit_key (commits s)"
    by (simp add: commitCallback_def errAll_frame)
  have F1: "\<And>e s. pending (commitCallback1 c (Some e) s) = pending s
                 \<and> root (commitCallback1 c (Some e) s) = root s
                 \<and> map commit_key (commits (commitCallback1 c (Some e) s)) = map commit_key (commits s)"
    by (simp add: commitCallback1_def pathHandler1_def emit_def split: option.splits)
  show "pending (each_start commitCallback c s)
           = pending s @ concat (map (\<lambda>(i, ch). first_requests (root s) c i ch)
                                  (enumerate 0 (changes (batch (commits s ! c)))))"
    using c ne fold_commitChange_requests [of commitCallback c, OF F]
    by (simp add: each_start_def Let_def)
  show "pending (each_start commitCallback1 c s)
           = pending s @ concat (map (\<lambda>(i, ch). first_requests (root s) c i ch)
                                  (enumerate 0 (changes (batch (commits s ! c)))))"
    using c ne fold_commitChange_requests [of commitCallback1 c, OF F1]
    by (simp add: each_start_def Let_def)
qed


subsection \<open>Stable properties survive the helper functions\<close>

lemma stable_issue: "stable P \<Longrightarrow> \<not> is_pull (c, k) \<Longrightarrow> P s \<Longrightarrow> P (issue c k s)"
  by (simp add: stable_def)

lemma stable_emit: "stable P \<Longrightarrow> silent a \<Longrightarrow> P s \<Longrightarrow> P (emit a s)"
  by (simp add: stable_def)

lemma stable_onError: "stable P \<Longrightarrow> P s \<Longrightarrow> P (emit (OnError r e) s)"
  by (simp add: stable_emit silent_def)

lemma stable_pullChanges: "stable P \<Longrightarrow> P s \<Longrightarrow> P (pullChanges p s)"
  by (simp add: stable_def)

lemma stable_queue_push: "stable P \<Longrightarrow> P s \<Longrightarrow> P (queue_push r t s)"
  by (simp add: stable_def)

lemma stable_commits: "stable P \<Longrightarrow> P s \<Longrightarrow> P (s\<lparr>commits := cs\<rparr>)"
  by (simp add: stable_def)

lemma stable_watching: "stable P \<Longrightarrow> P s \<Longrightarrow> P (s\<lparr>watchingForChanges := w\<rparr>)"
  by (simp add: stable_def)

lemma stable_handles: "stable P \<Longrightarrow> P s \<Longrightarrow> P (s\<lparr>handles := h\<rparr>)"
  by (simp add: stable_def)

lemma stable_paths: "stable P \<Longrightarrow> P s \<Longrightarrow> P (s\<lparr>paths := x\<rparr>)"
  by (simp add: stable_def)

lemma stable_stops: "stable P \<Longrightarrow> P s \<Longrightarrow> P (s\<lparr>stops := n\<rparr>)"
  by (simp add: stable_def)

lemma stable_regs: "stable P \<Longrightarrow> P s \<Longrightarrow> P (s\<lparr>regs := n\<rparr>)"
  by (simp add: stable_def)

lemma stable1_stable: "stable1 P \<Longrightarrow> stable P"
  by (simp add: stable1_def)

lemma stable1_onChange: "stable1 P \<Longrightarrow> P s \<Longrightarrow> P (emit (OnChange r ps) s)"
  by (simp add: stable1_def)

lemma entry_req_not_pull: "entry_req (c, k) \<Longrightarrow> \<not> is_pull (c, k)"
  by (auto simp: entry_req_def is_pull_def split: call.splits)

lemma stable_entry: "stable P \<Longrightarrow> entry_req (c, k) \<Longrightarrow> cont_commit k = Some c0 \<Longrightarrow> P s \<Longrightarrow> P (issue c k s)"
  by (simp add: stable_issue entry_req_not_pull)

lemma stable_watchForChanges:
  assumes st: "stable P" and P: "P s"
  shows "P (watchForChanges s)"
proof -
  have "P (s\<lparr>watchingForChanges := Some (handles s)\<rparr>)" by (rule stable_watching [OF st P])
  then have "P (s\<lparr>watchingForChanges := Some (handles s), handles := Suc (handles s)\<rparr>)"
    using stable_handles [OF st, of "s\<lparr>watchingForChanges := Some (handles s)\<rparr>" "Suc (handles s)"]
    by simp
  then have "P (issue (PollForChanges (cursor s)) (PollCb (handles s))
             (s\<lparr>watchingForChanges := Some (handles s), handles := Suc (handles s)\<rparr>))"
    by (intro stable_issue [OF st]) (simp_all add: is_pull_def)
  then show ?thesis
    using P stable_pullChanges [OF st P] by (simp add: watchForChanges_def)
qed

lemma stable_delay: "stable P \<Longrightarrow> P s \<Longrightarrow> P (delay n k s)"
  by (simp add: delay_def stable_issue is_pull_def)

lemma stable_removeThenMkdirs: "stable P \<Longrightarrow> P s \<Longrightarrow> P (removeThenMkdirs dir k s)"
  by (simp add: removeThenMkdirs_def stable_issue is_pull_def)

lemma stable_pathHandler: "stable P \<Longrightarrow> P s \<Longrightarrow> P (pathHandler r a s)"
  by (simp add: pathHandler_def stable_onError stable_queue_push split: sum.splits)

lemma stable_errAll: "stable P \<Longrightarrow> P s \<Longrightarrow> P (errAll pathHandler e s)"
  unfolding errAll_def
  by (rule fold_preserves [where P = P]) (auto simp: stable_pathHandler)

lemma stable_dispatch:
  assumes st: "stable P" and P: "P s"
  shows "P (dispatch pc s)"
proof -
  have "P (fst (fold (\<lambda>p (s, t).
                       ((case map_of (paths s) p of
                           Some r \<Rightarrow> pathHandler r (Inr (map path (filter (isUnder p) (changes pc)))) s
                         | None \<Rightarrow> s), True)) ks (s, b)))" for ks b
    using P by (induction ks arbitrary: s b) (auto simp: stable_pathHandler [OF st] split: option.splits)
  then show ?thesis
    using P by (auto simp: dispatch_def split_beta stable_watchForChanges [OF st])
qed

lemma stable_commitCallback: "stable P \<Longrightarrow> P s \<Longrightarrow> P (commitCallback c e s)"
  by (simp add: commitCallback_def stable_errAll stable_dispatch split: option.splits)

lemma stable_each_start:
  assumes st: "stable P" and F: "\<And>c e s. P s \<Longrightarrow> P (fin c e s)" and P: "P s"
  shows "P (each_start fin c s)"
  by (rule each_start_preserves [where P = P, OF stable_entry [OF st] stable_commits [OF st] F P])

lemma stable_each_done:
  assumes st: "stable P" and F: "\<And>c e s. P s \<Longrightarrow> P (fin c e s)" and P: "P s"
  shows "P (each_done fin c e s)"
  by (rule each_done_preserves [where P = P, OF stable_commits [OF st] F P])

lemma stable_parallel_done:
  assumes st: "stable P" and F: "\<And>c e s. P s \<Longrightarrow> P (fin c e s)" and P: "P s"
  shows "P (parallel_done fin c i lp e s)"
  by (rule parallel_done_preserves [where P = P, OF stable_entry [OF st] stable_commits [OF st] F P])

lemma stable_folder_statted:
  assumes st: "stable P" and F: "\<And>c e s. P s \<Longrightarrow> P (fin c e s)" and P: "P s"
  shows "P (folder_statted fin c i lp res s)"
  by (rule folder_statted_preserves [where P = P, OF stable_entry [OF st] stable_commits [OF st] F P])

lemma stable_folder_removed:
  assumes st: "stable P" and F: "\<And>c e s. P s \<Longrightarrow> P (fin c e s)" and P: "P s"
  shows "P (folder_removed fin c i lp res s)"
  by (rule folder_removed_preserves [where P = P, OF stable_entry [OF st] stable_commits [OF st] F P])

lemma stable_commitChanges:
  assumes st: "stable P" and P: "P s"
  shows "P (commitChanges pc s)"
proof -
  have 1: "P (s\<lparr>commits := commits s @ [new_commit pc None None None]\<rparr>)"
    by (rule stable_commits [OF st P])
  show ?thesis
    unfolding commitChanges_def Let_def resetDir_def
    using stable_removeThenMkdirs [OF st 1] stable_each_start [OF st stable_commitCallback [OF st] 1]
    by simp
qed


lemma stable_abort: "stable P \<Longrightarrow> P s \<Longrightarrow> P (abort s)"
  by (simp add: abort_def stable_emit silent_def split: option.splits)

lemma stable_stopSync:
  assumes st: "stable P" and P: "P s"
  shows "P (snd (stopSync p (C, s)))"
proof -
  define s1 where "s1 = s\<lparr>paths := AList.delete (normalizePath p) (paths s), stops := Suc (stops s)\<rparr>"
  have "P (s\<lparr>paths := AList.delete (normalizePath p) (paths s)\<rparr>)" by (rule stable_paths [OF st P])
  then have 1: "P s1"
    using stable_stops [OF st, of "s\<lparr>paths := AList.delete (normalizePath p) (paths s)\<rparr>" "Suc (stops s)"]
    by (simp add: s1_def)
  have 2: "P (issue NextTick (StopCb (stops s)) s1)"
    by (intro stable_issue [OF st] 1) (simp add: is_pull_def)
  have "P ((abort s1)\<lparr>watchingForChanges := None\<rparr>)"
    by (intro stable_watching [OF st] stable_abort [OF st] 1)
  then have 3: "P (resetDir (StopCb (stops s)) ((abort s1)\<lparr>watchingForChanges := None\<rparr>))"
    unfolding resetDir_def by (rule stable_removeThenMkdirs [OF st])
  show ?thesis
    using 2 3 unfolding s1_def by (auto simp: stopSync_def Let_def)
qed

lemma stable_pathHandler1: "stable1 P \<Longrightarrow> P s \<Longrightarrow> P (pathHandler1 r a s)"
  by (simp add: pathHandler1_def stable_onError stable1_stable stable1_onChange
        stable_watchForChanges split: sum.splits)

lemma stable_errAll1: "stable1 P \<Longrightarrow> P s \<Longrightarrow> P (errAll pathHandler1 e s)"
  unfolding errAll_def
  by (rule fold_preserves [where P = P]) (auto simp: stable_pathHandler1)

lemma stable_commitCallback1: "stable1 P \<Longrightarrow> P s \<Longrightarrow> P (commitCallback1 c e s)"
  by (simp add: commitCallback1_def stable_pathHandler1 split: option.splits)

lemma stable_commitChanges1:
  assumes st: "stable1 P" and P: "P s"
  shows "P (commitChanges1 p pc r s)"
proof -
  note st0 = stable1_stable [OF st]
  have 1: "P (s\<lparr>commits := commits s @ [new_commit pc (Some p) (Some r) None]\<rparr>)"
    by (rule stable_commits [OF st0 P])
  show ?thesis
    unfolding commitChanges1_def Let_def resetDir1_def
    using stable_removeThenMkdirs [OF st0 1]
      stable_each_start [OF st0 stable_commitCallback1 [OF st] 1]
    by simp
qed

lemma stable_dispatch1:
  assumes st: "stable1 P" and P: "P s"
  shows "P (dispatch1 pc s)"
proof -
  have "P (fst (fold (\<lambda>p (s, cp).
                    (let filtered = filter (isUnder p) (changes pc)
                     in if filtered \<noteq> [] then
                          ((case map_of (paths s) p of
                              Some r \<Rightarrow> commitChanges1 p (pc\<lparr>changes := filtered\<rparr>) r s
                            | None \<Rightarrow> s), cp @ [p])
                        else (s, cp))) ks (s, cp)))" for ks cp
    using P by (induction ks arbitrary: s cp)
               (auto simp: stable_commitChanges1 [OF st] Let_def split: option.splits)
  then show ?thesis
    using P by (auto simp: dispatch1_def split_beta stable_watchForChanges [OF stable1_stable [OF st]])
qed

lemma stable_stopSync1:
  assumes st: "stable P" and P: "P s"
  shows "P (stopSync1 p s)"
proof -
  define s1 where "s1 = s\<lparr>paths := AList.delete (normalizePath1 p) (paths s), stops := Suc (stops s)\<rparr>"
  have "P (s\<lparr>paths := AList.delete (normalizePath1 p) (paths s)\<rparr>)" by (rule stable_paths [OF st P])
  then have 1: "P s1"
    using stable_stops [OF st, of "s\<lparr>paths := AList.delete (normalizePath1 p) (paths s)\<rparr>" "Suc (stops s)"]
    by (simp add: s1_def)
  have 2: "P (abort s1)" by (rule stable_abort [OF st 1])
  then have "P ((abort s1)\<lparr>watchingForChanges := None\<rparr>)" by (rule stable_watching [OF st])
  then have 3: "P (resetDir1 (normalizePath1 p) (StopCb (stops s)) ((abort s1)\<lparr>watchingForChanges := None\<rparr>))"
    unfolding resetDir1_def by (rule stable_removeThenMkdirs [OF st])
  have 4: "P (resetDir1 (normalizePath1 p) (StopCb (stops s)) s1)"
    unfolding resetDir1_def by (rule stable_removeThenMkdirs [OF st 1])
  show ?thesis
    using 2 3 4 by (simp add: stopSync1_def Let_def s1_def [symmetric])
qed

lemma stable_sync1:
  assumes st: "stable P" and P: "P s"
  shows "P (sync1 p s)"
proof -
  have "P (s\<lparr>paths := x\<rparr>)" for x by (rule stable_paths [OF st P])
  then have "P (s\<lparr>paths := x, regs := n\<rparr>)" for x n
    using stable_regs [OF st, of "s\<lparr>paths := x\<rparr>" n] by simp
  then show ?thesis
    by (simp add: sync1_def Let_def stable_watchForChanges [OF st])
qed

text \<open>The continuations: but for a page answering a pull, which resets the busy flag,
  and a queue's turn, which calls \<open>onChange\<close>, every answer is handled by stable steps
  alone.\<close>

lemma stable_resume:
  assumes st: "stable P"
    and QP: "\<And>r s. P s \<Longrightarrow> P (queue_process r s)"
  shows "P s \<Longrightarrow> \<not> (\<exists>page prev. res = Pulled page \<and> k = PullCb prev) \<Longrightarrow> P (resume k res s)"
proof (induction k res s rule: resume.induct)
  case (1 h res s)
  have w: "P (s\<lparr>watchingForChanges := None\<rparr>)" by (rule stable_watching [OF st "1.prems"(1)])
  show ?case
    using "1.prems"(1) w stable_errAll [OF st "1.prems"(1)] stable_delay [OF st w]
      stable_pullChanges [OF st w]
    by (simp split: result.splits)
next
  case (2 prevChanges res s)
  then show ?case using stable_errAll [OF st] by (auto split: result.splits)
next
  case (3 res s)
  then show ?case by (simp add: stable_watchForChanges [OF st])
next
  case (4 r res s)
  then show ?case by (simp add: stable_pathHandler [OF st] split: result.splits)
next
  case (5 r res s)
  then show ?case by (simp add: QP)
next
  case (6 dir k res s)
  have "P (issue (FsMkdirs dir) k s)"
    by (intro stable_issue [OF st] "6.prems"(1)) (simp add: is_pull_def)
  then show ?case using 6 by (simp split: result.splits)
next
  case (7 c res s)
  then show ?case
    by (simp add: stable_commitCallback [OF st]
          stable_each_start [OF st stable_commitCallback [OF st]] split: result.splits)
next
  case (8 c i res s)
  then show ?case by (simp add: stable_each_done [OF st stable_commitCallback [OF st]])
next
  case (9 c i lp res s)
  then show ?case by (simp add: stable_parallel_done [OF st stable_commitCallback [OF st]])
next
  case (10 c i lp res s)
  then show ?case by (simp add: stable_parallel_done [OF st stable_commitCallback [OF st]])
next
  case (11 c i lp res s)
  then show ?case by (simp add: stable_folder_statted [OF st stable_commitCallback [OF st]])
next
  case (12 c i lp res s)
  then show ?case by (simp add: stable_folder_removed [OF st stable_commitCallback [OF st]])
next
  case (13 n res s)
  then show ?case by (simp add: stable_emit [OF st] silent_def)
qed simp_all

lemma stable_resume1:
  assumes st1: "stable1 P"
  shows "P s \<Longrightarrow> \<not> (\<exists>page prev. res = Pulled page \<and> k = PullCb prev) \<Longrightarrow> P (resume1 k res s)"
proof (induction k res s rule: resume1.induct)
  case (1 h res s)
  note st = stable1_stable [OF st1]
  have w: "P (s\<lparr>watchingForChanges := None\<rparr>)" by (rule stable_watching [OF st "1.prems"(1)])
  show ?case
    using "1.prems"(1) w stable_errAll1 [OF st1 "1.prems"(1)] stable_delay [OF st w]
      stable_pullChanges [OF st w]
    by (simp split: result.splits)
next
  case (2 prevChanges res s)
  then show ?case using stable_errAll1 [OF st1] by (auto split: result.splits)
next
  case (3 res s)
  then show ?case by (simp add: stable_watchForChanges [OF stable1_stable [OF st1]])
next
  case (4 dir k res s)
  have "P (issue (FsMkdirs dir) k s)"
    by (intro stable_issue [OF stable1_stable [OF st1]] "4.prems"(1)) (simp add: is_pull_def)
  then show ?case using 4 by (simp split: result.splits)
next
  case (5 c res s)
  then show ?case
    by (simp add: stable_commitCallback1 [OF st1]
          stable_each_start [OF stable1_stable [OF st1] stable_commitCallback1 [OF st1]]
          split: result.splits)
next
  case (6 c i res s)
  then show ?case
    by (simp add: stable_each_done [OF stable1_stable [OF st1] stable_commitCallback1 [OF st1]])
next
  case (7 c i lp res s)
  then show ?case
    by (simp add: stable_parallel_done [OF stable1_stable [OF st1] stable_commitCallback1 [OF st1]])
next
  case (8 c i lp res s)
  then show ?case
    by (simp add: stable_parallel_done [OF stable1_stable [OF st1] stable_commitCallback1 [OF st1]])
next
  case (9 c i lp res s)
  then show ?case
    by (simp add: stable_folder_statted [OF stable1_stable [OF st1] stable_commitCallback1 [OF st1]])
next
  case (10 c i lp res s)
  then show ?case
    by (simp add: stable_folder_removed [OF stable1_stable [OF st1] stable_commitCallback1 [OF st1]])
next
  case (11 n res s)
  then show ?case by (simp add: stable_emit [OF stable1_stable [OF st1]] silent_def)
qed simp_all

subsection \<open>A failed fetch leaves the busy flag set for good\<close>

lemma pview_issue:
  "\<not> is_pull (c, k) \<Longrightarrow> pulls (issue c k s) = pulls s \<and> pull_issues (trace (issue c k s)) = pull_issues (trace s)
     \<and> pullingChanges (issue c k s) = pullingChanges s"
  by (auto simp: issue_def pulls_def pull_issues_def is_pull_def split: call.splits)

lemma pview_emit:
  "pulls (emit a s) = pulls s \<and> pullingChanges (emit a s) = pullingChanges s"
  "\<forall>c k. a \<noteq> Issued c k \<Longrightarrow> pull_issues (trace (emit a s)) = pull_issues (trace s)"
  by (auto simp: emit_def pulls_def pull_issues_def split: action.splits call.splits)

lemma pview_queue_push:
  "pulls (queue_push r t s) = pulls s \<and> pull_issues (trace (queue_push r t s)) = pull_issues (trace s)
     \<and> pullingChanges (queue_push r t s) = pullingChanges s"
  by (simp add: queue_push_def issue_def pulls_def pull_issues_def is_pull_def)

lemma stable_halted: "stable (halted X)"
  unfolding stable_def
proof (intro conjI allI impI)
  fix s c k assume "halted X s" "\<not> is_pull (c, k)"
  then show "halted X (issue c k s)" using pview_issue [of c k s] by (simp add: halted_def)
next
  fix s a assume "halted X s" "silent a"
  then show "halted X (emit a s)"
    using pview_emit [of a s] by (auto simp: halted_def silent_def split: action.splits)
next
  fix s p assume "halted X s"
  then show "halted X (pullChanges p s)" by (simp add: halted_def pullChanges_def)
next
  fix s r t assume "halted X s"
  then show "halted X (queue_push r t s)" using pview_queue_push [of r t s] by (simp add: halted_def)
qed (simp_all add: halted_def pulls_def)

lemma stable1_halted: "stable1 (halted X)"
  unfolding stable1_def using stable_halted pview_emit
  by (auto simp: halted_def)

lemma stable_one_pull: "stable one_pull"
  unfolding stable_def
proof (intro conjI allI impI)
  fix s c k assume "one_pull s" "\<not> is_pull (c, k)"
  then show "one_pull (issue c k s)" using pview_issue [of c k s] by (simp add: one_pull_def)
next
  fix s a assume "one_pull s" "silent a"
  then show "one_pull (emit a s)"
    using pview_emit [of a s] by (auto simp: one_pull_def)
next
  fix s p assume "one_pull s"
  then show "one_pull (pullChanges p s)"
    by (auto simp: one_pull_def pullChanges_def issue_def pulls_def is_pull_def)
next
  fix s r t assume "one_pull s"
  then show "one_pull (queue_push r t s)" using pview_queue_push [of r t s] by (simp add: one_pull_def)
qed (simp_all add: one_pull_def pulls_def)

lemma stable1_one_pull: "stable1 one_pull"
  unfolding stable1_def using stable_one_pull pview_emit
  by (auto simp: one_pull_def)

text \<open>The functions of part_000 that are not built from stable steps alone touch the
  queues, and neither the flag nor the pulls.\<close>

lemma halted_queue_process: "halted X s \<Longrightarrow> halted X (queue_process r s)"
  by (auto simp: queue_process_def Let_def emit_def halted_def pulls_def pull_issues_def
           split: list.splits)

lemma one_pull_queue_process: "one_pull s \<Longrightarrow> one_pull (queue_process r s)"
  by (auto simp: queue_process_def Let_def emit_def one_pull_def pulls_def split: list.splits)

lemma halted_queues: "halted X s \<Longrightarrow> halted X (s\<lparr>queues := q\<rparr>)"
  by (simp add: halted_def pulls_def)

lemma one_pull_queues: "one_pull s \<Longrightarrow> one_pull (s\<lparr>queues := q\<rparr>)"
  by (simp add: one_pull_def pulls_def)

lemma halted_queue_next: "halted X s \<Longrightarrow> halted X (queue_next r s)"
  by (simp add: queue_next_def Let_def halted_queue_process halted_queues
        stable_watchForChanges [OF stable_halted])

lemma one_pull_queue_next: "one_pull s \<Longrightarrow> one_pull (queue_next r s)"
  by (simp add: queue_next_def Let_def one_pull_queue_process one_pull_queues
        stable_watchForChanges [OF stable_one_pull])

lemma halted_sync: "halted X s \<Longrightarrow> halted X (sync p s)"
  unfolding sync_def Let_def getLocalState_def
  by (intro stable_watchForChanges [OF stable_halted] stable_issue [OF stable_halted])
     (simp_all add: is_pull_def halted_def pulls_def)

lemma one_pull_sync: "one_pull s \<Longrightarrow> one_pull (sync p s)"
  unfolding sync_def Let_def getLocalState_def
  by (intro stable_watchForChanges [OF stable_one_pull] stable_issue [OF stable_one_pull])
     (simp_all add: is_pull_def one_pull_def pulls_def)

lemma page_is_pull: "valid_result c (Pulled pg) \<Longrightarrow> is_pull (c, k)"
  by (cases c) (simp_all add: is_pull_def)

lemma halted_answered:
  assumes "halted X s" and "(c, k) \<in> set (pending s)"
  shows "halted X (answered c k res s)" and "\<not> is_pull (c, k)"
proof -
  show np: "\<not> is_pull (c, k)"
  proof
    assume "is_pull (c, k)"
    with assms(2) have "(c, k) \<in> set (pulls s)" by (simp add: pulls_def)
    with assms(1) show False by (simp add: halted_def)
  qed
  have "pulls (answered c k res s) = pulls s"
    using np by (simp add: pulls_def answered_def filter_remove1 remove1_idem)
  then show "halted X (answered c k res s)"
    using assms(1) by (simp add: halted_def answered_def pull_issues_def)
qed

lemma halted_step:
  assumes "halted X (snd cs)"
  shows "halted X (snd (step cs ev))"
proof -
  obtain C s where cs: "cs = (C, s)" by (cases cs)
  with assms have h: "halted X s" by simp
  show ?thesis
  proof (cases ev)
    case (Sync p)
    then show ?thesis using h by (simp add: cs halted_sync)
  next
    case (StopSync p)
    then show ?thesis using stable_stopSync [OF stable_halted h] by (simp add: cs)
  next
    case (ConsumerCallback r)
    have "halted X (emit (CalledBack r) s)"
      using h pview_emit [of "CalledBack r" s] by (simp add: halted_def)
    then show ?thesis using h by (simp add: cs ConsumerCallback halted_queue_next)
  next
    case (Return c k res)
    show ?thesis
    proof (cases "(c, k) \<in> set (pending s) \<and> valid_result c res")
      case False
      then show ?thesis using h by (auto simp: cs Return)
    next
      case True
      from True have mem: "(c, k) \<in> set (pending s)" by simp
      note a = halted_answered [OF h mem]
      have "\<not> (\<exists>page prev. res = Pulled page \<and> k = PullCb prev)"
        using True a(2) page_is_pull by blast
      then have "halted X (resume k res (answered c k res s))"
        using a(1) True by (intro stable_resume [OF stable_halted halted_queue_process]) simp_all
      then show ?thesis using True by (simp add: cs Return)
    qed
  qed
qed

lemma halted_run: "halted X (snd cs) \<Longrightarrow> halted X (snd (run cs evs))"
  unfolding run_def by (induction evs arbitrary: cs) (simp_all add: halted_step)


lemma one_pull_answered:
  assumes "one_pull s" and "(c, k) \<in> set (pending s)"
  shows "one_pull (answered c k res s)" and "is_pull (c, k) \<Longrightarrow> pulls (answered c k res s) = []"
proof -
  have p: "pulls (answered c k res s) = (if is_pull (c, k) then remove1 (c, k) (pulls s) else pulls s)"
    by (simp add: pulls_def answered_def filter_remove1 remove1_idem)
  have m: "is_pull (c, k) \<Longrightarrow> (c, k) \<in> set (pulls s)" using assms(2) by (simp add: pulls_def)
  show e: "is_pull (c, k) \<Longrightarrow> pulls (answered c k res s) = []"
  proof -
    assume i: "is_pull (c, k)"
    with m have "pulls s \<noteq> []" by auto
    with assms(1) have "length (pulls s) = 1" by (simp add: one_pull_def)
    with m [OF i] have "pulls s = [(c, k)]" by (cases "pulls s") auto
    then show ?thesis using i by (simp add: p)
  qed
  show "one_pull (answered c k res s)"
  proof (cases "is_pull (c, k)")
    case True
    then show ?thesis using e by (simp add: one_pull_def)
  next
    case False
    then show ?thesis using assms(1) p by (simp add: one_pull_def answered_def)
  qed
qed

lemma one_pull_pulled:
  assumes st: "stable one_pull" and F: "\<And>b s. one_pull s \<Longrightarrow> one_pull (complete b s)"
    and e: "pulls s = []"
  shows "one_pull (pulled complete prev pg s)"
proof -
  have "one_pull (s\<lparr>cursor := Some (cursorTag pg), pullingChanges := False\<rparr>)"
    using e by (simp add: one_pull_def pulls_def)
  then show ?thesis
    by (simp add: pulled_def Let_def F stable_pullChanges [OF st])
qed

lemma one_pull_step:
  assumes "one_pull (snd cs)"
  shows "one_pull (snd (step cs ev))"
proof -
  obtain C s where cs: "cs = (C, s)" by (cases cs)
  with assms have h: "one_pull s" by simp
  show ?thesis
  proof (cases ev)
    case (Sync p)
    then show ?thesis using h by (simp add: cs one_pull_sync)
  next
    case (StopSync p)
    then show ?thesis using stable_stopSync [OF stable_one_pull h] by (simp add: cs)
  next
    case (ConsumerCallback r)
    have "one_pull (emit (CalledBack r) s)"
      using h pview_emit [of "CalledBack r" s] by (simp add: one_pull_def)
    then show ?thesis using h by (simp add: cs ConsumerCallback one_pull_queue_next)
  next
    case (Return c k res)
    show ?thesis
    proof (cases "(c, k) \<in> set (pending s) \<and> valid_result c res")
      case False
      then show ?thesis using h by (auto simp: cs Return)
    next
      case True
      then have mem: "(c, k) \<in> set (pending s)" by simp
      note a = one_pull_answered [OF h mem, of res]
      have "one_pull (resume k res (answered c k res s))"
      proof (cases "\<exists>pg prev. res = Pulled pg \<and> k = PullCb prev")
        case False
        then show ?thesis
          using a(1) by (intro stable_resume [OF stable_one_pull one_pull_queue_process]) simp_all
      next
        case True
        then obtain pg prev where r: "res = Pulled pg" "k = PullCb prev" by blast
        with \<open>(c, k) \<in> set (pending s) \<and> valid_result c res\<close> have "is_pull (c, k)"
          using page_is_pull by blast
        then have "pulls (answered c k res s) = []" by (rule a(2))
        then show ?thesis
          unfolding r resume.simps result.case
          by (intro one_pull_pulled [OF stable_one_pull stable_commitChanges [OF stable_one_pull]])
      qed
      then show ?thesis using True by (simp add: cs Return)
    qed
  qed
qed

lemma one_pull_run: "one_pull (snd cs) \<Longrightarrow> one_pull (snd (run cs evs))"
  unfolding run_def by (induction evs arbitrary: cs) (simp_all add: one_pull_step)

lemma one_pull_fresh: "one_pull (fresh u rt)"
  by (simp add: one_pull_def pulls_def fresh_def)

text \<open>The same for part_001.\<close>

lemma halted_step1:
  assumes h: "halted X s"
  shows "halted X (step1 s ev)"
proof (cases ev)
  case (Sync p)
  then show ?thesis using stable_sync1 [OF stable_halted h] by simp
next
  case (StopSync p)
  then show ?thesis using stable_stopSync1 [OF stable_halted h] by simp
next
  case (ConsumerCallback r)
  then show ?thesis using h by simp
next
  case (Return c k res)
  show ?thesis
  proof (cases "(c, k) \<in> set (pending s) \<and> valid_result c res")
    case False
    then show ?thesis using h by (auto simp: Return)
  next
    case True
    from True have mem: "(c, k) \<in> set (pending s)" by simp
    note a = halted_answered [OF h mem]
    have "\<not> (\<exists>pg prev. res = Pulled pg \<and> k = PullCb prev)"
      using True a(2) page_is_pull by blast
    then have "halted X (resume1 k res (answered c k res s))"
      using a(1) True by (intro stable_resume1 [OF stable1_halted]) simp_all
    then show ?thesis using True by (simp add: Return)
  qed
qed

lemma halted_run1: "halted X s \<Longrightarrow> halted X (run1 s evs)"
  unfolding run1_def by (induction evs arbitrary: s) (simp_all add: halted_step1)

lemma one_pull_step1:
  assumes h: "one_pull s"
  shows "one_pull (step1 s ev)"
proof (cases ev)
  case (Sync p)
  then show ?thesis using stable_sync1 [OF stable_one_pull h] by simp
next
  case (StopSync p)
  then show ?thesis using stable_stopSync1 [OF stable_one_pull h] by simp
next
  case (ConsumerCallback r)
  then show ?thesis using h by simp
next
  case (Return c k res)
  show ?thesis
  proof (cases "(c, k) \<in> set (pending s) \<and> valid_result c res")
    case False
    then show ?thesis using h by (auto simp: Return)
  next
    case True
    then have mem: "(c, k) \<in> set (pending s)" by simp
    note a = one_pull_answered [OF h mem, of res]
    have "one_pull (resume1 k res (answered c k res s))"
    proof (cases "\<exists>pg prev. res = Pulled pg \<and> k = PullCb prev")
      case False
      then show ?thesis
        using a(1) by (intro stable_resume1 [OF stable1_one_pull]) simp_all
    next
      case True
      then obtain pg prev where r: "res = Pulled pg" "k = PullCb prev" by blast
      with \<open>(c, k) \<in> set (pending s) \<and> valid_result c res\<close> have "is_pull (c, k)"
        using page_is_pull by blast
      then have "pulls (answered c k res s) = []" by (rule a(2))
      then show ?thesis
        unfolding r resume1.simps result.case
        by (intro one_pull_pulled [OF stable_one_pull stable_dispatch1 [OF stable1_one_pull]])
    qed
    then show ?thesis using True by (simp add: Return)
  qed
qed

lemma one_pull_run1: "one_pull s \<Longrightarrow> one_pull (run1 s evs)"
  unfolding run1_def by (induction evs arbitrary: s) (simp_all add: one_pull_step1)


lemma failed_pull_halted:
  assumes o: "one_pull s" and m: "(PullChanges c, PullCb prev) \<in> set (pending s)"
  shows "halted (pull_issues (trace s)) (answered (PullChanges c) (PullCb prev) (Failed e) s)"
proof -
  have i: "is_pull (PullChanges c, PullCb prev)" by (simp add: is_pull_def)
  then have "(PullChanges c, PullCb prev) \<in> set (pulls s)" using m by (simp add: pulls_def)
  then have f: "pullingChanges s" using o by (auto simp: one_pull_def)
  have "pulls (answered (PullChanges c) (PullCb prev) (Failed e) s) = []"
    by (rule one_pull_answered(2) [OF o m i])
  then show ?thesis using f by (simp add: halted_def answered_def pull_issues_def)
qed

lemma halted_pullChanges: "halted X s \<Longrightarrow> pullChanges p s = s"
  by (simp add: halted_def pullChanges_def)

text \<open>
  C10.  Take any object reachable from the constructor, with a fetch of \<open>pullChanges\<close> in
  flight, and let that fetch answer with an error.  Whatever happens afterwards (later
  \<open>sync\<close> and \<open>stopSync\<close> calls, answers to polls, timers and file system requests,
  consumers calling back), the busy flag stays set, no pull is in flight, no further fetch
  is ever issued, and every \<open>pullChanges\<close> call returns at once leaving the object as it
  is.  This holds in part_000 and in part_001.
\<close>

theorem failed_pull_halts_pulling:
  "(snd (run (C0, fresh u rt) evs0) = s \<and> (PullChanges c, PullCb prev) \<in> set (pending s) \<longrightarrow>
      (let s' = snd (run (step (C, s) (Return (PullChanges c) (PullCb prev) (Failed e))) evs)
       in pullingChanges s' \<and> pulls s' = [] \<and> pull_issues (trace s') = pull_issues (trace s)
        \<and> pullChanges p s' = s'))
   \<and> (run1 (fresh u rt) evs0 = s \<and> (PullChanges c, PullCb prev) \<in> set (pending s) \<longrightarrow>
      (let s' = run1 (step1 s (Return (PullChanges c) (PullCb prev) (Failed e))) evs
       in pullingChanges s' \<and> pulls s' = [] \<and> pull_issues (trace s') = pull_issues (trace s)
        \<and> pullChanges p s' = s'))"
proof (intro conjI impI)
  assume a: "snd (run (C0, fresh u rt) evs0) = s \<and> (PullChanges c, PullCb prev) \<in> set (pending s)"
  then have m: "(PullChanges c, PullCb prev) \<in> set (pending s)" by simp
  have o: "one_pull s" using a one_pull_run [of "(C0, fresh u rt)" evs0] by (auto simp: one_pull_fresh)
  note h = failed_pull_halted [OF o m, of e]
  have "halted (pull_issues (trace s))
          (snd (step (C, s) (Return (PullChanges c) (PullCb prev) (Failed e))))"
    using m stable_errAll [OF stable_halted h] by simp
  then have "halted (pull_issues (trace s))
          (snd (run (step (C, s) (Return (PullChanges c) (PullCb prev) (Failed e))) evs))"
    by (rule halted_run)
  then show "let s' = snd (run (step (C, s) (Return (PullChanges c) (PullCb prev) (Failed e))) evs)
       in pullingChanges s' \<and> pulls s' = [] \<and> pull_issues (trace s') = pull_issues (trace s)
        \<and> pullChanges p s' = s'"
    using halted_pullChanges by (simp add: Let_def halted_def)
next
  assume a: "run1 (fresh u rt) evs0 = s \<and> (PullChanges c, PullCb prev) \<in> set (pending s)"
  then have m: "(PullChanges c, PullCb prev) \<in> set (pending s)" by simp
  have o: "one_pull s" using a one_pull_run1 [of "fresh u rt" evs0] by (auto simp: one_pull_fresh)
  note h = failed_pull_halted [OF o m, of e]
  have "halted (pull_issues (trace s)) (step1 s (Return (PullChanges c) (PullCb prev) (Failed e)))"
    using m stable_errAll1 [OF stable1_halted h] by simp
  then have "halted (pull_issues (trace s))
          (run1 (step1 s (Return (PullChanges c) (PullCb prev) (Failed e))) evs)"
    by (rule halted_run1)
  then show "let s' = run1 (step1 s (Return (PullChanges c) (PullCb prev) (Failed e))) evs
       in pullingChanges s' \<and> pulls s' = [] \<and> pull_issues (trace s') = pull_issues (trace s)
        \<and> pullChanges p s' = s'"
    using halted_pullChanges by (simp add: Let_def halted_def)
qed

theorem failed_pull_halts_pulling_witness:
  "(let s = snd (run ([], fresh ''u'' ''/r'') [Sync (Some ''/a'')]);
        s' = snd (run (step ([], s) (Return (PullChanges None) (PullCb None) (Failed ApiError)))
                    [Sync (Some ''/b''), Return SetImmediate DelayCb Ok])
    in (PullChanges None, PullCb None) \<in> set (pending s)
     \<and> pullingChanges s' \<and> pulls s' = []
     \<and> pull_issues (trace s') = [Issued (PullChanges None) (PullCb None)]
     \<and> pullChanges None s' = s')
   \<and> (let s = run1 (fresh ''u'' ''/r'') [Sync (Some ''/a'')];
            s' = run1 (step1 s (Return (PullChanges None) (PullCb None) (Failed ApiError)))
                   [Sync (Some ''/b'')]
       in (PullChanges None, PullCb None) \<in> set (pending s)
        \<and> pullingChanges s' \<and> pulls s' = []
        \<and> pull_issues (trace s') = [Issued (PullChanges None) (PullCb None)]
        \<and> pullChanges None s' = s')"
proof -
  define s where "s = snd (run ([], fresh ''u'' ''/r'') [Sync (Some ''/a'')])"
  define s1 where "s1 = run1 (fresh ''u'' ''/r'') [Sync (Some ''/a'')]"
  have h: "(PullChanges None, PullCb None) \<in> set (pending s)" unfolding s_def by code_simp
  have h1: "(PullChanges None, PullCb None) \<in> set (pending s1)" unfolding s1_def by code_simp
  have v: "pull_issues (trace s) = [Issued (PullChanges None) (PullCb None)]"
    unfolding s_def by code_simp
  have v1: "pull_issues (trace s1) = [Issued (PullChanges None) (PullCb None)]"
    unfolding s1_def by code_simp
  note a = failed_pull_halts_pulling
    [where ?C0.0 = "[]" and u = "''u''" and rt = "''/r''" and ?evs0.0 = "[Sync (Some ''/a'')]"
       and s = s and c = None and prev = None and C = "[]" and e = ApiError and p = None
       and evs = "[Sync (Some ''/b''), Return SetImmediate DelayCb Ok]"]
  note b = failed_pull_halts_pulling
    [where u = "''u''" and rt = "''/r''" and ?evs0.0 = "[Sync (Some ''/a'')]"
       and s = s1 and c = None and prev = None and e = ApiError and p = None
       and evs = "[Sync (Some ''/b'')]"]
  show ?thesis
    unfolding Let_def s_def [symmetric] s1_def [symmetric]
    using a b h h1 v v1 by (simp add: Let_def s_def s1_def)
qed

subsection \<open>The queue in front of a change handler\<close>

text \<open>
  C1, as the claim states it, fails.  The paths \<^verbatim>\<open>/a\<close> and \<^verbatim>\<open>/b\<close> are watched; a first
  batch touches both, and both handlers are called.  The consumer of \<^verbatim>\<open>/b\<close> calls back;
  its queue drains, the engine polls, pulls a second batch with an entry under \<^verbatim>\<open>/a\<close> and
  issues the removal of \<^verbatim>\<open>/a/z\<close> while the \<open>onChange\<close> of \<^verbatim>\<open>/a\<close> for the first batch is
  still running.
\<close>

theorem next_batch_mutates_while_handler_runs:
  "(let lpx = PathJoin ''/r'' ''./a/x''; lpy = PathJoin ''/r'' ''./b/y'';
        s = snd (run ([], fresh ''u'' ''/r'')
              [Sync (Some ''/a''), Sync (Some ''/b''),
               Return (PullChanges None) (PullCb None)
                 (Pulled (page [removal ''/a/x'', removal ''/b/y''] False False 1)),
               Return (FsRemove lpx) (EachDone 0 0) Ok,
               Return (FsRemove lpy) (EachDone 0 1) Ok,
               Return SetImmediate (QueueProcess 0) Ok,
               Return SetImmediate (QueueProcess 1) Ok,
               ConsumerCallback 1,
               Return (PollForChanges (Some 1)) (PollCb 0) (PollResult True 0),
               Return (PullChanges (Some 1)) (PullCb None)
                 (Pulled (page [removal ''/a/z''] False False 2))])
    in map_of (paths s) ''/a'' = Some 0
     \<and> handler_state 0 (trace s) = Some True \<and> workers (queues s ! 0) = 1
     \<and> (FsRemove (PathJoin ''/r'' ''./a/z''), EachDone 1 0) \<in> set (pending s)
     \<and> overlap 0 ''/r'' ''/a'' False (trace s))"
  by code_simp


lemma handler_state_append:
  "handler_state r (tr @ xs) = foldl (observe r) (handler_state r tr) xs"
  by (simp add: handler_state_def)

lemma observe_neutral: "neutral a \<Longrightarrow> observe r x a = x"
  by (cases x; cases a) (simp_all add: neutral_def)

lemma observe_neutrals: "list_all neutral xs \<Longrightarrow> foldl (observe r) x xs = x"
  by (induction xs arbitrary: x) (simp_all add: observe_neutral)

lemma queues_agree_frame:
  assumes "queues_agree s" and "map workers (queues s') = map workers (queues s)"
    and "trace s' = trace s @ xs" and "list_all neutral xs"
  shows "queues_agree s'"
proof -
  have l: "length (queues s') = length (queues s)" using assms(2) by (metis length_map)
  have w: "workers (queues s' ! r) = workers (queues s ! r)" if "r < length (queues s)" for r
    using assms(2) that l by (metis nth_map)
  show ?thesis
    unfolding queues_agree_def
    using assms(1) l w
    by (auto simp: queues_agree_def assms(3) handler_state_append observe_neutrals [OF assms(4)])
qed

lemma stable_queues_agree: "stable queues_agree"
  unfolding stable_def
proof (intro conjI allI impI)
  fix s c k assume "queues_agree s"
  then show "queues_agree (issue c k s)"
    by (rule queues_agree_frame [where xs = "[Issued c k]"]) (simp_all add: issue_def neutral_def)
next
  fix s a assume q: "queues_agree s" and sa: "silent a"
  have n: "list_all neutral [a]"
    using sa by (cases a) (simp_all add: neutral_def silent_def)
  show "queues_agree (emit a s)"
    by (rule queues_agree_frame [OF q _ _ n]) (simp_all add: emit_def)
next
  fix s p assume q: "queues_agree s"
  show "queues_agree (pullChanges p s)"
  proof (cases "pullingChanges s")
    case True
    then show ?thesis using q by (simp add: pullChanges_def)
  next
    case False
    have n: "list_all neutral [Issued (PullChanges (cursor s)) (PullCb p)]" by (simp add: neutral_def)
    show ?thesis
      by (rule queues_agree_frame [OF q _ _ n]) (simp_all add: pullChanges_def False issue_def)
  qed
next
  fix s r t assume a: "queues_agree s"
  show "queues_agree (queue_push r t s)"
  proof (cases "r < length (queues s)")
    case False
    then show ?thesis using a by (simp add: queue_push_def)
  next
    case True
    show ?thesis
      by (rule queues_agree_frame [OF a, where xs = "[Issued SetImmediate (QueueProcess r)]"])
         (simp_all add: queue_push_def True issue_def neutral_def map_update list_update_same_conv)
  qed
next
  fix s cs assume "queues_agree s"
  then show "queues_agree (s\<lparr>commits := cs\<rparr>)"
    by (rule queues_agree_frame [where xs = "[]"]) simp_all
next
  fix s w assume "queues_agree s"
  then show "queues_agree (s\<lparr>watchingForChanges := w\<rparr>)"
    by (rule queues_agree_frame [where xs = "[]"]) simp_all
next
  fix s h assume "queues_agree s"
  then show "queues_agree (s\<lparr>handles := h\<rparr>)"
    by (rule queues_agree_frame [where xs = "[]"]) simp_all
next
  fix s x assume "queues_agree s"
  then show "queues_agree (s\<lparr>paths := x\<rparr>)"
    by (rule queues_agree_frame [where xs = "[]"]) simp_all
next
  fix s n assume "queues_agree s"
  then show "queues_agree (s\<lparr>stops := n\<rparr>)"
    by (rule queues_agree_frame [where xs = "[]"]) simp_all
next
  fix s n assume "queues_agree s"
  then show "queues_agree (s\<lparr>regs := n\<rparr>)"
    by (rule queues_agree_frame [where xs = "[]"]) simp_all
qed


lemma queues_agree_fresh: "queues_agree (fresh u rt)"
  by (simp add: queues_agree_def fresh_def handler_state_def)

lemma queues_agree_queue_process:
  assumes q: "queues_agree s"
  shows "queues_agree (queue_process r s)"
proof (cases "r < length (queues s) \<and> tasks (queues s ! r) \<noteq> [] \<and> workers (queues s ! r) < 1")
  case False
  then show ?thesis using q by (auto simp: queue_process_def Let_def split: list.splits)
next
  case True
  then obtain t ts where ts: "tasks (queues s ! r) = t # ts" by (cases "tasks (queues s ! r)") auto
  from True have w0: "workers (queues s ! r) = 0" and lt: "r < length (queues s)" by simp_all
  have e: "queue_process r s
           = emit (OnChange r t)
               (s\<lparr>queues := (queues s)[r := (queues s ! r)\<lparr>tasks := ts, workers := 1\<rparr>]\<rparr>)"
    using True ts by (simp add: queue_process_def Let_def)
  have hr: "handler_state r (trace s) = Some False" using q lt w0 by (simp add: queues_agree_def)
  show ?thesis
    unfolding e queues_agree_def
  proof (intro allI conjI impI)
    fix r'
    show "handler_state r' (trace (emit (OnChange r t)
               (s\<lparr>queues := (queues s)[r := (queues s ! r)\<lparr>tasks := ts, workers := 1\<rparr>]\<rparr>)))
          = Some (r' < length (queues (emit (OnChange r t)
               (s\<lparr>queues := (queues s)[r := (queues s ! r)\<lparr>tasks := ts, workers := 1\<rparr>]\<rparr>)))
             \<and> workers (queues (emit (OnChange r t)
               (s\<lparr>queues := (queues s)[r := (queues s ! r)\<lparr>tasks := ts, workers := 1\<rparr>]\<rparr>)) ! r') = 1)"
    proof (cases "r' = r")
      case True
      then show ?thesis using hr lt by (simp add: emit_def handler_state_append)
    next
      case False
      then show ?thesis
        using q by (cases "handler_state r' (trace s)")
                   (auto simp: emit_def handler_state_append queues_agree_def)
    qed
  next
    fix r'
    assume "r' < length (queues (emit (OnChange r t)
               (s\<lparr>queues := (queues s)[r := (queues s ! r)\<lparr>tasks := ts, workers := 1\<rparr>]\<rparr>)))"
    then show "workers (queues (emit (OnChange r t)
               (s\<lparr>queues := (queues s)[r := (queues s ! r)\<lparr>tasks := ts, workers := 1\<rparr>]\<rparr>)) ! r') \<le> 1"
      using q by (cases "r' = r") (auto simp: emit_def queues_agree_def)
  qed
qed

lemma queues_agree_called_back:
  assumes q: "queues_agree s" and lt: "r < length (queues s)" and w: "0 < workers (queues s ! r)"
  shows "queues_agree ((emit (CalledBack r) s)
           \<lparr>queues := (queues s)[r := (queues s ! r)\<lparr>workers := workers (queues s ! r) - 1\<rparr>]\<rparr>)"
proof -
  have w1: "workers (queues s ! r) = 1" using q lt w by (auto simp: queues_agree_def dest: spec [where x = r])
  have hr: "handler_state r (trace s) = Some True" using q lt w1 by (simp add: queues_agree_def)
  show ?thesis
    unfolding queues_agree_def
  proof (intro allI conjI impI)
    fix r'
    show "handler_state r' (trace ((emit (CalledBack r) s)
           \<lparr>queues := (queues s)[r := (queues s ! r)\<lparr>workers := workers (queues s ! r) - 1\<rparr>]\<rparr>))
          = Some (r' < length (queues ((emit (CalledBack r) s)
           \<lparr>queues := (queues s)[r := (queues s ! r)\<lparr>workers := workers (queues s ! r) - 1\<rparr>]\<rparr>))
             \<and> workers (queues ((emit (CalledBack r) s)
           \<lparr>queues := (queues s)[r := (queues s ! r)\<lparr>workers := workers (queues s ! r) - 1\<rparr>]\<rparr>) ! r') = 1)"
    proof (cases "r' = r")
      case True
      then show ?thesis using hr lt w1 by (simp add: emit_def handler_state_append)
    next
      case False
      then show ?thesis
        using q by (cases "handler_state r' (trace s)")
                   (auto simp: emit_def handler_state_append queues_agree_def)
    qed
  next
    fix r'
    assume "r' < length (queues ((emit (CalledBack r) s)
           \<lparr>queues := (queues s)[r := (queues s ! r)\<lparr>workers := workers (queues s ! r) - 1\<rparr>]\<rparr>))"
    then show "workers (queues ((emit (CalledBack r) s)
           \<lparr>queues := (queues s)[r := (queues s ! r)\<lparr>workers := workers (queues s ! r) - 1\<rparr>]\<rparr>) ! r') \<le> 1"
      using q w1 by (cases "r' = r") (auto simp: emit_def queues_agree_def)
  qed
qed

lemma queue_next_called_back:
  assumes lt: "r < length (queues s)"
  shows "queue_next r (emit (CalledBack r) s)
         = (let s1 = (emit (CalledBack r) s)
                       \<lparr>queues := (queues s)[r := (queues s ! r)\<lparr>workers := workers (queues s ! r) - 1\<rparr>]\<rparr>
            in queue_process r
                 (if length (tasks (queues s ! r)) + (workers (queues s ! r) - 1) = 0
                  then watchForChanges s1 else s1))"
  using lt by (simp add: queue_next_def Let_def emit_def)

lemma queues_agree_sync:
  assumes q: "queues_agree s"
  shows "queues_agree (sync p s)"
proof -
  have 1: "queues_agree (s\<lparr>queues := queues s @ [\<lparr>tasks = [], workers = 0\<rparr>]\<rparr>)"
    unfolding queues_agree_def
  proof (intro allI conjI impI)
    fix r
    show "handler_state r (trace (s\<lparr>queues := queues s @ [\<lparr>tasks = [], workers = 0\<rparr>]\<rparr>))
          = Some (r < length (queues (s\<lparr>queues := queues s @ [\<lparr>tasks = [], workers = 0\<rparr>]\<rparr>))
                  \<and> workers (queues (s\<lparr>queues := queues s @ [\<lparr>tasks = [], workers = 0\<rparr>]\<rparr>) ! r) = 1)"
      using q by (cases "r < length (queues s)") (auto simp: queues_agree_def nth_append)
  next
    fix r assume "r < length (queues (s\<lparr>queues := queues s @ [\<lparr>tasks = [], workers = 0\<rparr>]\<rparr>))"
    then show "workers (queues (s\<lparr>queues := queues s @ [\<lparr>tasks = [], workers = 0\<rparr>]\<rparr>) ! r) \<le> 1"
      using q by (cases "r < length (queues s)") (auto simp: queues_agree_def nth_append)
  qed
  have 2: "queues_agree (s\<lparr>queues := queues s @ [\<lparr>tasks = [], workers = 0\<rparr>], paths := x\<rparr>)" for x
    using stable_paths [OF stable_queues_agree 1, of x] by simp
  show ?thesis
    unfolding sync_def Let_def getLocalState_def
    by (intro stable_watchForChanges [OF stable_queues_agree] stable_issue [OF stable_queues_agree] 2)
       (simp add: is_pull_def)
qed

lemma queues_agree_pulled:
  assumes q: "queues_agree s"
  shows "queues_agree (pulled commitChanges prev pg s)"
proof -
  have "queues_agree (s\<lparr>cursor := Some (cursorTag pg), pullingChanges := False\<rparr>)"
    by (rule queues_agree_frame [OF q, where xs = "[]"]) simp_all
  then show ?thesis
    by (simp add: pulled_def Let_def stable_pullChanges [OF stable_queues_agree]
          stable_commitChanges [OF stable_queues_agree])
qed

lemma queues_agree_step:
  assumes "queues_agree (snd cs)"
  shows "queues_agree (snd (step cs ev))"
proof -
  obtain C s where cs: "cs = (C, s)" by (cases cs)
  with assms have q: "queues_agree s" by simp
  show ?thesis
  proof (cases ev)
    case (Sync p)
    then show ?thesis using q by (simp add: cs queues_agree_sync)
  next
    case (StopSync p)
    then show ?thesis using stable_stopSync [OF stable_queues_agree q] by (simp add: cs)
  next
    case (ConsumerCallback r)
    show ?thesis
    proof (cases "r < length (queues s) \<and> 0 < workers (queues s ! r)")
      case False
      then show ?thesis using q by (auto simp: cs ConsumerCallback)
    next
      case True
      then have lt: "r < length (queues s)" and w: "0 < workers (queues s ! r)" by simp_all
      define s1 where "s1 = (emit (CalledBack r) s)
           \<lparr>queues := (queues s)[r := (queues s ! r)\<lparr>workers := workers (queues s ! r) - 1\<rparr>]\<rparr>"
      have cb: "queues_agree s1" unfolding s1_def by (rule queues_agree_called_back [OF q lt w])
      have e: "snd (step cs ev)
               = queue_process r
                   (if length (tasks (queues s ! r)) + (workers (queues s ! r) - 1) = 0
                    then watchForChanges s1 else s1)"
        using True unfolding cs ConsumerCallback s1_def
        by (simp only: step.simps if_True snd_conv queue_next_called_back [OF lt] Let_def
              simp_thms)
      show ?thesis
        unfolding e
        by (rule queues_agree_queue_process)
           (simp add: cb stable_watchForChanges [OF stable_queues_agree cb])
    qed
  next
    case (Return c k res)
    show ?thesis
    proof (cases "(c, k) \<in> set (pending s) \<and> valid_result c res")
      case False
      then show ?thesis using q by (auto simp: cs Return)
    next
      case True
      have a: "queues_agree (answered c k res s)"
        by (rule queues_agree_frame [OF q, where xs = "[Returned c k res]"])
           (simp_all add: answered_def neutral_def)
      have "queues_agree (resume k res (answered c k res s))"
      proof (cases "\<exists>pg prev. res = Pulled pg \<and> k = PullCb prev")
        case False
        then show ?thesis
          using a by (intro stable_resume [OF stable_queues_agree queues_agree_queue_process]) simp_all
      next
        case True
        then obtain pg prev where r: "res = Pulled pg" "k = PullCb prev" by blast
        show ?thesis
          unfolding r resume.simps result.case using a [unfolded r] by (rule queues_agree_pulled)
      qed
      then show ?thesis using True by (simp add: cs Return)
    qed
  qed
qed

lemma queues_agree_run: "queues_agree (snd cs) \<Longrightarrow> queues_agree (snd (run cs evs))"
  unfolding run_def by (induction evs arbitrary: cs) (simp_all add: queues_agree_step)

subsection \<open>What the watch loop preserves\<close>

lemma loop_safe_issue: "loop_safe P \<Longrightarrow> P s \<Longrightarrow> cont_commit k = None \<Longrightarrow> P (issue x k s)"
  by (simp add: loop_safe_def)

lemma loop_safe_emit: "loop_safe P \<Longrightarrow> P s \<Longrightarrow> \<not> is_request a \<Longrightarrow> P (emit a s)"
  by (simp add: loop_safe_def)

lemma loop_safe_pulling: "loop_safe P \<Longrightarrow> P s \<Longrightarrow> P (s\<lparr>pullingChanges := b\<rparr>)"
  by (simp add: loop_safe_def)

lemma loop_safe_cursor: "loop_safe P \<Longrightarrow> P s \<Longrightarrow> P (s\<lparr>cursor := x\<rparr>)"
  by (simp add: loop_safe_def)

lemma loop_safe_queues: "loop_safe P \<Longrightarrow> P s \<Longrightarrow> P (s\<lparr>queues := q\<rparr>)"
  by (simp add: loop_safe_def)

lemma loop_safe_commits:
  "loop_safe P \<Longrightarrow> P s \<Longrightarrow> map commit_key cs = map commit_key (commits s) \<Longrightarrow> P (s\<lparr>commits := cs\<rparr>)"
  by (simp add: loop_safe_def)

lemma loop_safe_watching: "loop_safe P \<Longrightarrow> P s \<Longrightarrow> P (s\<lparr>watchingForChanges := w\<rparr>)"
  by (simp add: loop_safe_def)

lemma loop_safe_handles: "loop_safe P \<Longrightarrow> P s \<Longrightarrow> P (s\<lparr>handles := h\<rparr>)"
  by (simp add: loop_safe_def)

lemma loop_safe_paths: "loop_safe P \<Longrightarrow> P s \<Longrightarrow> P (s\<lparr>paths := x\<rparr>)"
  by (simp add: loop_safe_def)

lemma loop_safe_stops: "loop_safe P \<Longrightarrow> P s \<Longrightarrow> P (s\<lparr>stops := n\<rparr>)"
  by (simp add: loop_safe_def)

lemma loop_safe_regs: "loop_safe P \<Longrightarrow> P s \<Longrightarrow> P (s\<lparr>regs := n\<rparr>)"
  by (simp add: loop_safe_def)

lemma loop_safe_pullChanges:
  assumes st: "loop_safe P" and P: "P s"
  shows "P (pullChanges prev s)"
proof -
  have "P (issue (PullChanges (cursor s)) (PullCb prev) (s\<lparr>pullingChanges := True\<rparr>))"
    by (rule loop_safe_issue [OF st loop_safe_pulling [OF st P]]) simp
  then show ?thesis using P by (simp add: pullChanges_def)
qed

lemma loop_safe_watchForChanges:
  assumes st: "loop_safe P" and P: "P s"
  shows "P (watchForChanges s)"
proof -
  have "P (s\<lparr>watchingForChanges := Some (handles s)\<rparr>)" by (rule loop_safe_watching [OF st P])
  then have "P (s\<lparr>watchingForChanges := Some (handles s), handles := Suc (handles s)\<rparr>)"
    using loop_safe_handles [OF st, of "s\<lparr>watchingForChanges := Some (handles s)\<rparr>" "Suc (handles s)"]
    by simp
  then have "P (issue (PollForChanges (cursor s)) (PollCb (handles s))
             (s\<lparr>watchingForChanges := Some (handles s), handles := Suc (handles s)\<rparr>))"
    by (rule loop_safe_issue [OF st]) simp
  then show ?thesis
    using P loop_safe_pullChanges [OF st P] by (simp add: watchForChanges_def)
qed

lemma loop_safe_delay: "loop_safe P \<Longrightarrow> P s \<Longrightarrow> cont_commit k = None \<Longrightarrow> P (delay n k s)"
  by (simp add: delay_def loop_safe_issue)

lemma loop_safe_removeThenMkdirs:
  "loop_safe P \<Longrightarrow> P s \<Longrightarrow> cont_commit k = None \<Longrightarrow> P (removeThenMkdirs dir k s)"
  by (simp add: removeThenMkdirs_def loop_safe_issue)

lemma loop_safe_queue_push:
  assumes st: "loop_safe P" and P: "P s"
  shows "P (queue_push r t s)"
proof -
  have "P (issue SetImmediate (QueueProcess r) (s\<lparr>queues := q\<rparr>))" for q
    by (rule loop_safe_issue [OF st loop_safe_queues [OF st P]]) simp
  then show ?thesis using P by (simp add: queue_push_def)
qed

lemma loop_safe_queue_process:
  assumes st: "loop_safe P" and P: "P s"
  shows "P (queue_process r s)"
proof -
  have "P (emit (OnChange r t) (s\<lparr>queues := q\<rparr>))" for q t
    by (rule loop_safe_emit [OF st loop_safe_queues [OF st P]]) (simp add: is_request_def)
  then show ?thesis using P by (simp add: queue_process_def Let_def split: list.splits)
qed

lemma loop_safe_queue_next:
  assumes st: "loop_safe P" and P: "P s"
  shows "P (queue_next r s)"
proof -
  have a: "P (s\<lparr>queues := q\<rparr>)" for q by (rule loop_safe_queues [OF st P])
  have b: "P (watchForChanges (s\<lparr>queues := q\<rparr>))" for q by (rule loop_safe_watchForChanges [OF st a])
  show ?thesis
    using P a b by (simp add: queue_next_def Let_def loop_safe_queue_process [OF st])
qed

lemma loop_safe_pathHandler: "loop_safe P \<Longrightarrow> P s \<Longrightarrow> P (pathHandler r a s)"
  by (simp add: pathHandler_def loop_safe_emit loop_safe_queue_push is_request_def split: sum.splits)

lemma loop_safe_errAll: "loop_safe P \<Longrightarrow> P s \<Longrightarrow> P (errAll pathHandler e s)"
  unfolding errAll_def
  by (rule fold_preserves [where P = P]) (auto simp: loop_safe_pathHandler)

lemma loop_safe_dispatch:
  assumes st: "loop_safe P" and P: "P s"
  shows "P (dispatch pc s)"
proof -
  have "P (fst (fold (\<lambda>p (s, t).
                       ((case map_of (paths s) p of
                           Some r \<Rightarrow> pathHandler r (Inr (map path (filter (isUnder p) (changes pc)))) s
                         | None \<Rightarrow> s), True)) ks (s, b)))" for ks b
    using P by (induction ks arbitrary: s b) (auto simp: loop_safe_pathHandler [OF st] split: option.splits)
  then show ?thesis
    using P by (auto simp: dispatch_def split_beta loop_safe_watchForChanges [OF st])
qed

lemma loop_safe_commitCallback: "loop_safe P \<Longrightarrow> P s \<Longrightarrow> P (commitCallback c e s)"
  by (simp add: commitCallback_def loop_safe_errAll loop_safe_dispatch split: option.splits)

lemma loop_safe_abort: "loop_safe P \<Longrightarrow> P s \<Longrightarrow> P (abort s)"
  by (simp add: abort_def loop_safe_emit is_request_def split: option.splits)

lemma loop_safe_sync:
  assumes st: "loop_safe P" and P: "P s"
  shows "P (sync p s)"
proof -
  have a: "P (s\<lparr>queues := q, paths := x\<rparr>)" for q x
    using loop_safe_paths [OF st loop_safe_queues [OF st P, of q], of x] by simp
  have b: "P (getLocalState p' r (s\<lparr>queues := q, paths := x\<rparr>))" for q x p' r
    unfolding getLocalState_def by (rule loop_safe_issue [OF st a]) simp
  show ?thesis
    unfolding sync_def Let_def by (rule loop_safe_watchForChanges [OF st b])
qed

lemma loop_safe_stopSync:
  assumes st: "loop_safe P" and P: "P s"
  shows "P (snd (stopSync p (C, s)))"
proof -
  have a: "P (s\<lparr>paths := x, stops := n\<rparr>)" for x n
    using loop_safe_stops [OF st loop_safe_paths [OF st P, of x], of n] by simp
  have b: "P (issue NextTick (StopCb m) (s\<lparr>paths := x, stops := n\<rparr>))" for x n m
    by (rule loop_safe_issue [OF st a]) simp
  have c: "P ((abort (s\<lparr>paths := x, stops := n\<rparr>))\<lparr>watchingForChanges := None\<rparr>)" for x n
    by (rule loop_safe_watching [OF st loop_safe_abort [OF st a]])
  have d: "P (resetDir (StopCb m) ((abort (s\<lparr>paths := x, stops := n\<rparr>))\<lparr>watchingForChanges := None\<rparr>))" for x n m
    unfolding resetDir_def by (rule loop_safe_removeThenMkdirs [OF st c]) simp
  show ?thesis using b d by (simp add: stopSync_def Let_def)
qed

lemma loop_safe_pathHandler1:
  assumes st: "loop_safe P" and P: "P s"
  shows "P (pathHandler1 r a s)"
proof -
  have a: "P (emit (OnChange r x) s)" for x
    by (rule loop_safe_emit [OF st P]) (simp add: is_request_def)
  have b: "P (emit (OnError r e) s)" for e
    by (rule loop_safe_emit [OF st P]) (simp add: is_request_def)
  show ?thesis
    using b loop_safe_watchForChanges [OF st a] loop_safe_watchForChanges [OF st P]
    by (simp add: pathHandler1_def split: sum.splits)
qed

lemma loop_safe_errAll1: "loop_safe P \<Longrightarrow> P s \<Longrightarrow> P (errAll pathHandler1 e s)"
  unfolding errAll_def
  by (rule fold_preserves [where P = P]) (auto simp: loop_safe_pathHandler1)

lemma loop_safe_commitCallback1: "loop_safe P \<Longrightarrow> P s \<Longrightarrow> P (commitCallback1 c e s)"
  by (simp add: commitCallback1_def loop_safe_pathHandler1 split: option.splits)

lemma loop_safe_sync1:
  assumes st: "loop_safe P" and P: "P s"
  shows "P (sync1 p s)"
proof -
  have a: "P (s\<lparr>paths := x, regs := n\<rparr>)" for x n
    using loop_safe_regs [OF st loop_safe_paths [OF st P, of x], of n] by simp
  show ?thesis
    unfolding sync1_def Let_def by (rule loop_safe_watchForChanges [OF st a])
qed

lemma loop_safe_stopSync1:
  assumes st: "loop_safe P" and P: "P s"
  shows "P (stopSync1 p s)"
proof -
  have a: "P (s\<lparr>paths := x, stops := n\<rparr>)" for x n
    using loop_safe_stops [OF st loop_safe_paths [OF st P, of x], of n] by simp
  have b: "P (abort (s\<lparr>paths := x, stops := n\<rparr>))" for x n
    by (rule loop_safe_abort [OF st a])
  have c: "P ((abort (s\<lparr>paths := x, stops := n\<rparr>))\<lparr>watchingForChanges := None\<rparr>)" for x n
    by (rule loop_safe_watching [OF st b])
  have d: "P (resetDir1 q (StopCb m) ((abort (s\<lparr>paths := x, stops := n\<rparr>))\<lparr>watchingForChanges := None\<rparr>))" for x n m q
    unfolding resetDir1_def by (rule loop_safe_removeThenMkdirs [OF st c]) simp
  have e: "P (resetDir1 q (StopCb m) (s\<lparr>paths := x, stops := n\<rparr>))" for x n m q
    unfolding resetDir1_def by (rule loop_safe_removeThenMkdirs [OF st a]) simp
  show ?thesis using b d e by (simp add: stopSync1_def Let_def)
qed

text \<open>The callbacks of requests that belong to no activation, up to the complete batch.\<close>

lemma loop_safe_resume:
  assumes st: "loop_safe P"
  shows "P s \<Longrightarrow> cont_commit k = None \<Longrightarrow> \<not> (\<exists>pg prev. res = Pulled pg \<and> k = PullCb prev)
         \<Longrightarrow> P (resume k res s)"
proof (induction k res s rule: resume.induct)
  case (1 h res s)
  have w: "P (s\<lparr>watchingForChanges := None\<rparr>)" by (rule loop_safe_watching [OF st "1.prems"(1)])
  have d: "P (delay n DelayCb (s\<lparr>watchingForChanges := None\<rparr>))" for n
    by (rule loop_safe_delay [OF st w]) simp
  show ?case
    using "1.prems"(1) w loop_safe_errAll [OF st "1.prems"(1)] d loop_safe_pullChanges [OF st w]
    by (simp split: result.splits)
next
  case (2 prevChanges res s)
  then show ?case using loop_safe_errAll [OF st] by (auto split: result.splits)
next
  case (3 res s)
  then show ?case by (simp add: loop_safe_watchForChanges [OF st])
next
  case (4 r res s)
  then show ?case by (simp add: loop_safe_pathHandler [OF st] split: result.splits)
next
  case (5 r res s)
  then show ?case by (simp add: loop_safe_queue_process [OF st])
next
  case (6 dir k res s)
  have "P (issue (FsMkdirs dir) k s)"
    using "6.prems" by (intro loop_safe_issue [OF st]) simp_all
  then show ?case using 6 by (simp split: result.splits)
next
  case (13 n res s)
  then show ?case by (simp add: loop_safe_emit [OF st] is_request_def)
qed simp_all

lemma loop_safe_resume1:
  assumes st: "loop_safe P"
  shows "P s \<Longrightarrow> cont_commit k = None \<Longrightarrow> \<not> (\<exists>pg prev. res = Pulled pg \<and> k = PullCb prev)
         \<Longrightarrow> P (resume1 k res s)"
proof (induction k res s rule: resume1.induct)
  case (1 h res s)
  have w: "P (s\<lparr>watchingForChanges := None\<rparr>)" by (rule loop_safe_watching [OF st "1.prems"(1)])
  have d: "P (delay n DelayCb (s\<lparr>watchingForChanges := None\<rparr>))" for n
    by (rule loop_safe_delay [OF st w]) simp
  show ?case
    using "1.prems"(1) w loop_safe_errAll1 [OF st "1.prems"(1)] d loop_safe_pullChanges [OF st w]
    by (simp split: result.splits)
next
  case (2 prevChanges res s)
  then show ?case using loop_safe_errAll1 [OF st] by (auto split: result.splits)
next
  case (3 res s)
  then show ?case by (simp add: loop_safe_watchForChanges [OF st])
next
  case (4 dir k res s)
  have "P (issue (FsMkdirs dir) k s)"
    using "4.prems" by (intro loop_safe_issue [OF st]) simp_all
  then show ?case using 4 by (simp split: result.splits)
next
  case (11 n res s)
  then show ?case by (simp add: loop_safe_emit [OF st] is_request_def)
qed simp_all

text \<open>The callbacks of the requests for the entries of an activation.\<close>

lemma entry_resume:
  assumes st: "loop_safe P"
    and I: "\<And>x k s. entry_req (x, k) \<Longrightarrow> cont_commit k = Some c \<Longrightarrow> P s \<Longrightarrow> P (issue x k s)"
    and e: "entry_of k = Some (c, i)"
    and P: "P s"
  shows "P (resume k res s)" "P (resume1 k res s)"
proof -
  have U: "\<And>s cs. P s \<Longrightarrow> map commit_key cs = map commit_key (commits s) \<Longrightarrow> P (s\<lparr>commits := cs\<rparr>)"
    by (rule loop_safe_commits [OF st])
  have g1: "P (each_done fin c err s)" if F: "\<And>e s. P s \<Longrightarrow> P (fin c e s)" for fin err
    by (rule each_done_preserves [where P = P]) (erule U, assumption, erule F, rule P)
  have g2: "P (parallel_done fin c j lp err s)" if F: "\<And>e s. P s \<Longrightarrow> P (fin c e s)" for fin err j lp
    by (rule parallel_done_preserves [where P = P])
       (erule I, assumption, assumption, erule U, assumption, erule F, rule P)
  have g3: "P (folder_statted fin c j lp res s)" if F: "\<And>e s. P s \<Longrightarrow> P (fin c e s)" for fin j lp
    by (rule folder_statted_preserves [where P = P])
       (erule I, assumption, assumption, erule U, assumption, erule F, rule P)
  have g4: "P (folder_removed fin c j lp res s)" if F: "\<And>e s. P s \<Longrightarrow> P (fin c e s)" for fin j lp
    by (rule folder_removed_preserves [where P = P])
       (erule I, assumption, assumption, erule U, assumption, erule F, rule P)
  note g = g1 g2 g3 g4
  show "P (resume k res s)"
    using e g [where fin = commitCallback, OF loop_safe_commitCallback [OF st]] by (cases k) simp_all
  show "P (resume1 k res s)"
    using e g [where fin = commitCallback1, OF loop_safe_commitCallback1 [OF st]] by (cases k) simp_all
qed

subsection \<open>What every reachable object knows of its activations\<close>

text \<open>The monitor of the reset only moves on the requests and answers of its own
  activation, and never backwards.\<close>

lemma entry_of_commit: "entry_of k = Some (c, i) \<Longrightarrow> cont_commit k = Some c"
  by (cases k) simp_all

lemma entry_req_entry: "entry_req (x, k) \<Longrightarrow> entry_of k \<noteq> None"
  by (cases k) (simp_all add: entry_req_def)

lemma phase_snoc: "phase dir c (tr @ [a]) = reset_monitor dir c (phase dir c tr) a"
  by (simp add: phase_def)

lemma monitor_other:
  assumes "\<And>x k. a = Issued x k \<Longrightarrow> cont_commit k \<noteq> Some c"
    and "\<And>x k r. a = Returned x k r \<Longrightarrow> cont_commit k \<noteq> Some c"
  shows "reset_monitor dir c v a = v"
proof (cases v)
  case None
  then show ?thesis by simp
next
  case (Some n)
  show ?thesis
  proof (cases a)
    case (Issued x k)
    have "map_option fst (entry_of k) \<noteq> Some c"
      using assms(1) [OF Issued] entry_of_commit [of k c] by (cases "entry_of k") auto
    then show ?thesis using Some Issued by simp
  next
    case (Returned x k r)
    then show ?thesis using Some assms(2) [OF Returned] by auto
  qed (simp_all add: Some)
qed

lemma reached_snoc:
  assumes r: "reached dir c tr m"
    and e: "\<And>x k. a = Issued x k \<Longrightarrow> map_option fst (entry_of k) = Some c \<Longrightarrow> reached dir c tr 2"
  shows "reached dir c (tr @ [a]) m"
proof -
  obtain n where n: "phase dir c tr = Some n" "m \<le> n"
    using r by (auto simp: reached_def split: option.splits)
  show ?thesis
  proof (cases a)
    case (Issued x k)
    show ?thesis
    proof (cases "map_option fst (entry_of k) = Some c")
      case True
      then have "2 \<le> n" using e [OF Issued True] n by (simp add: reached_def)
      then show ?thesis using n Issued by (simp add: reached_def phase_snoc)
    next
      case False
      then show ?thesis using n Issued by (simp add: reached_def phase_snoc)
    qed
  next
    case (Returned x k res)
    then show ?thesis using n by (auto simp: reached_def phase_snoc)
  qed (simp_all add: reached_def phase_snoc n)
qed

lemma reached_mono: "reached dir c tr m \<Longrightarrow> l \<le> m \<Longrightarrow> reached dir c tr l"
  by (auto simp: reached_def split: option.splits)

lemma reached_removed:
  "reached dir c tr 0 \<Longrightarrow>
   reached dir c (tr @ [Returned (FsRemove dir) (ResetDirCb dir (SeriesNext c)) Ok]) 1"
  by (auto simp: reached_def phase_snoc split: option.splits)

lemma reached_made:
  "reached dir c tr 1 \<Longrightarrow> reached dir c (tr @ [Returned (FsMkdirs dir) (SeriesNext c) Ok]) 2"
  by (auto simp: reached_def phase_snoc split: option.splits)

lemma reset_issued_snoc: "reset_issued dir c tr \<Longrightarrow> reset_issued dir c (tr @ [a])"
  by (simp add: reset_issued_def)

lemma allowed_snoc:
  assumes "allowed D c K tr y"
    and "\<And>m. blankSlate (fst (K ! c)) \<Longrightarrow> reached (D (K ! c)) c tr m
             \<Longrightarrow> reached (D (K ! c)) c (tr @ [a]) m"
  shows "allowed D c K (tr @ [a]) y"
  using assms by (auto simp: allowed_def)

lemma allowed_other: "cont_commit (snd y) \<noteq> Some c \<Longrightarrow> allowed D c K tr y"
  by (simp add: allowed_def)

lemma tracked_snoc:
  assumes t: "tracked D c K pend tr" and c: "c < length K"
    and r: "\<And>m. blankSlate (fst (K ! c)) \<Longrightarrow> reached (D (K ! c)) c tr m
               \<Longrightarrow> reached (D (K ! c)) c (tr @ [a]) m"
    and y: "\<And>y. y \<in> set pend' \<Longrightarrow> y \<notin> set pend \<Longrightarrow> allowed D c K (tr @ [a]) y"
  shows "tracked D c K pend' (tr @ [a])"
proof -
  have "allowed D c K (tr @ [a]) y" if "y \<in> set pend'" for y
  proof (cases "y \<in> set pend")
    case True
    then have "allowed D c K tr y" using t c by (simp add: tracked_def)
    then show ?thesis by (rule allowed_snoc) (rule r)
  next
    case False
    then show ?thesis using y that by simp
  qed
  then show ?thesis
    using t c r reset_issued_snoc by (simp add: tracked_def)
qed

lemma tracked_pristine:
  assumes t: "tracked D c K pend tr" and c: "\<not> c < length K"
    and a: "\<And>x k. a = Issued x k \<Longrightarrow> cont_commit k \<noteq> Some c"
           "\<And>x k r. a = Returned x k r \<Longrightarrow> cont_commit k \<noteq> Some c"
    and y: "\<And>y. y \<in> set pend' \<Longrightarrow> y \<notin> set pend \<Longrightarrow> cont_commit (snd y) \<noteq> Some c"
  shows "tracked D c K pend' (tr @ [a])"
proof -
  have p: "phase dir c (tr @ [a]) = phase dir c tr" for dir
    unfolding phase_snoc by (rule monitor_other) (use a in auto)
  have "cont_commit (snd y) \<noteq> Some c" if "y \<in> set pend'" for y
    using t c y [OF that] by (cases "y \<in> set pend") (auto simp: tracked_def)
  then show ?thesis using t c by (simp add: tracked_def p)
qed

lemma tracked_issue_other:
  assumes t: "tracked D c K pend tr" and k: "cont_commit k \<noteq> Some c"
  shows "tracked D c K (pend @ [(x, k)]) (tr @ [Issued x k])"
proof (cases "c < length K")
  case True
  have e: "map_option fst (entry_of k) \<noteq> Some c"
    using k entry_of_commit [of k c] by (cases "entry_of k") auto
  show ?thesis
  proof (rule tracked_snoc [OF t True])
    fix m assume "reached (D (K ! c)) c tr m"
    then show "reached (D (K ! c)) c (tr @ [Issued x k]) m" by (rule reached_snoc) (use e in auto)
  next
    fix y assume "y \<in> set (pend @ [(x, k)])" "y \<notin> set pend"
    then show "allowed D c K (tr @ [Issued x k]) y" using k by (auto intro: allowed_other)
  qed
next
  case False
  show ?thesis by (rule tracked_pristine [OF t False]) (use k in auto)
qed

lemma tracked_emit:
  assumes t: "tracked D c K pend tr" and a: "\<not> is_request a"
  shows "tracked D c K pend (tr @ [a])"
proof (cases "c < length K")
  case True
  show ?thesis
  proof (rule tracked_snoc [OF t True])
    fix m assume "reached (D (K ! c)) c tr m"
    then show "reached (D (K ! c)) c (tr @ [a]) m"
      by (rule reached_snoc) (use a in \<open>auto simp: is_request_def\<close>)
  qed simp
next
  case False
  show ?thesis by (rule tracked_pristine [OF t False]) (use a in \<open>auto simp: is_request_def\<close>)
qed

lemma ready_snoc: "ready_at D c K tr \<Longrightarrow> ready_at D c K (tr @ [a])"
  by (auto simp: ready_at_def intro: reached_snoc)

lemma tracked_issue_entry:
  assumes t: "tracked D c K pend tr" and r: "ready_at D c K tr"
    and e: "entry_of k \<noteq> None" and k: "cont_commit k = Some c"
  shows "tracked D c K (pend @ [(x, k)]) (tr @ [Issued x k])"
proof -
  have c: "c < length K" using r by (simp add: ready_at_def)
  have r2: "blankSlate (fst (K ! c)) \<Longrightarrow> reached (D (K ! c)) c (tr @ [Issued x k]) 2"
    using ready_snoc [OF r, of "Issued x k"] by (simp add: ready_at_def)
  show ?thesis
  proof (rule tracked_snoc [OF t c])
    fix m assume "blankSlate (fst (K ! c))" and m: "reached (D (K ! c)) c tr m"
    then show "reached (D (K ! c)) c (tr @ [Issued x k]) m"
      using r by (intro reached_snoc) (auto simp: ready_at_def)
  next
    fix y assume "y \<in> set (pend @ [(x, k)])" "y \<notin> set pend"
    then have "y = (x, k)" by auto
    then show "allowed D c K (tr @ [Issued x k]) y" using e k r2 by (auto simp: allowed_def)
  qed
qed

lemma tracked_answered:
  assumes t: "tracked D c K pend tr" and m: "(x, k) \<in> set pend"
  shows "tracked D c K (remove1 (x, k) pend) (tr @ [Returned x k res])"
proof (cases "c < length K")
  case True
  show ?thesis
  proof (rule tracked_snoc [OF t True])
    fix m assume "reached (D (K ! c)) c tr m"
    then show "reached (D (K ! c)) c (tr @ [Returned x k res]) m" by (rule reached_snoc) auto
  next
    fix y assume "y \<in> set (remove1 (x, k) pend)" "y \<notin> set pend"
    then show "allowed D c K (tr @ [Returned x k res]) y" by (metis notin_set_remove1)
  qed
next
  case False
  have k: "cont_commit k \<noteq> Some c" using t m False by (auto simp: tracked_def)
  show ?thesis
  proof (rule tracked_pristine [OF t False])
    fix y assume "y \<in> set (remove1 (x, k) pend)" "y \<notin> set pend"
    then show "cont_commit (snd y) \<noteq> Some c" by (metis notin_set_remove1)
  qed (use k in auto)
qed

lemma tracked_issue_mkdirs:
  assumes t: "tracked D c K pend tr" and c: "c < length K" and b: "blankSlate (fst (K ! c))"
    and r: "reached (D (K ! c)) c tr 1"
  shows "tracked D c K (pend @ [(FsMkdirs (D (K ! c)), SeriesNext c)])
           (tr @ [Issued (FsMkdirs (D (K ! c))) (SeriesNext c)])"
proof (rule tracked_snoc [OF t c])
  fix m assume "reached (D (K ! c)) c tr m"
  then show "reached (D (K ! c)) c (tr @ [Issued (FsMkdirs (D (K ! c))) (SeriesNext c)]) m"
    by (rule reached_snoc) auto
next
  fix y assume "y \<in> set (pend @ [(FsMkdirs (D (K ! c)), SeriesNext c)])" "y \<notin> set pend"
  then have y: "y = (FsMkdirs (D (K ! c)), SeriesNext c)" by auto
  have "reached (D (K ! c)) c (tr @ [Issued (FsMkdirs (D (K ! c))) (SeriesNext c)]) 1"
    using r by (rule reached_snoc) auto
  then show "allowed D c K (tr @ [Issued (FsMkdirs (D (K ! c))) (SeriesNext c)]) y"
    using b by (simp add: allowed_def y)
qed

lemma allowed_extend: "c < length K \<Longrightarrow> allowed D c (K @ [ky]) tr y = allowed D c K tr y"
  by (simp add: allowed_def nth_append)

lemma tracked_extend:
  "tracked D c K pend tr \<Longrightarrow> c \<noteq> length K \<Longrightarrow> tracked D c (K @ [ky]) pend tr"
  by (cases "c < length K") (simp_all add: tracked_def nth_append allowed_extend)

lemma tracked_created:
  assumes t: "tracked D (length K) K pend tr" and b: "\<not> blankSlate (fst ky)"
  shows "tracked D (length K) (K @ [ky]) pend tr"
  using t b by (auto simp: tracked_def allowed_def)

lemma tracked_created_blank:
  assumes t: "tracked D (length K) K pend tr" and b: "blankSlate (fst ky)"
  shows "tracked D (length K) (K @ [ky])
           (pend @ [(FsRemove (D ky), ResetDirCb (D ky) (SeriesNext (length K)))])
           (tr @ [Issued (FsRemove (D ky)) (ResetDirCb (D ky) (SeriesNext (length K)))])"
proof -
  have p: "phase (D ky) (length K) tr = Some 0" using t by (simp add: tracked_def)
  have "reached (D ky) (length K) tr 0" using p by (simp add: reached_def)
  then have g: "reached (D ky) (length K)
           (tr @ [Issued (FsRemove (D ky)) (ResetDirCb (D ky) (SeriesNext (length K)))]) 0"
    by (rule reached_snoc) auto
  have o: "\<And>y. y \<in> set pend \<Longrightarrow> cont_commit (snd y) \<noteq> Some (length K)"
    using t by (simp add: tracked_def)
  show ?thesis
    using g b o by (auto simp: tracked_def reset_issued_def allowed_def)
qed

lemma reset_inv_loop_safe: "loop_safe (reset_inv D G rt)"
  unfolding loop_safe_def reset_inv_def
  by (auto simp: issue_def emit_def intro: tracked_issue_other tracked_emit)

lemma reset_inv_ready_loop_safe: "loop_safe (\<lambda>s. reset_inv D G rt s \<and> ready D c s)"
  unfolding loop_safe_def reset_inv_def ready_def
  by (auto simp: issue_def emit_def intro: tracked_issue_other tracked_emit ready_snoc)

lemma reset_inv_ready_entry:
  assumes e: "entry_req (x, k)" and k: "cont_commit k = Some c"
    and P: "reset_inv D G rt s \<and> ready D c s"
  shows "reset_inv D G rt (issue x k s) \<and> ready D c (issue x k s)"
proof -
  let ?K = "map commit_key (commits s)"
  have "tracked D c' ?K (pending s @ [(x, k)]) (trace s @ [Issued x k])" for c'
  proof (cases "c' = c")
    case True
    show ?thesis
      unfolding True
      by (rule tracked_issue_entry) (use P k entry_req_entry [OF e] in \<open>auto simp: reset_inv_def ready_def\<close>)
  next
    case False
    show ?thesis
      by (rule tracked_issue_other) (use P k False in \<open>auto simp: reset_inv_def\<close>)
  qed
  then show ?thesis
    using P by (simp add: reset_inv_def ready_def issue_def ready_snoc)
qed

lemma reset_inv_answered:
  "reset_inv D G rt s \<Longrightarrow> (x, k) \<in> set (pending s) \<Longrightarrow> reset_inv D G rt (answered x k res s)"
  by (simp add: reset_inv_def answered_def tracked_answered)

lemma ready_answered: "ready D c s \<Longrightarrow> ready D c (answered x k res s)"
  by (simp add: ready_def answered_def ready_snoc)

lemma reset_inv_pending:
  assumes I: "reset_inv D G rt s" and m: "(x, k) \<in> set (pending s)" and k: "cont_commit k = Some c"
  shows "c < length (commits s)" "allowed D c (map commit_key (commits s)) (trace s) (x, k)"
proof -
  have t: "tracked D c (map commit_key (commits s)) (pending s) (trace s)"
    using I by (simp add: reset_inv_def)
  show c: "c < length (commits s)"
  proof (rule ccontr)
    assume "\<not> c < length (commits s)"
    then have "cont_commit (snd (x, k)) \<noteq> Some c" using t m by (auto simp: tracked_def)
    then show False using k by simp
  qed
  show "allowed D c (map commit_key (commits s)) (trace s) (x, k)"
    using t c m by (auto simp: tracked_def)
qed

text \<open>The callbacks of the requests of an activation.\<close>

lemma commit_resume:
  assumes I: "reset_inv D G rt s" and m: "(x, k) \<in> set (pending s)" and v: "valid_result x res"
    and k: "cont_commit k = Some c"
  shows "reset_inv D G rt (resume k res (answered x k res s))"
    and "reset_inv D G rt (resume1 k res (answered x k res s))"
proof -
  let ?K = "map commit_key (commits s)"
  let ?s = "answered x k res s"
  let ?P = "\<lambda>s. reset_inv D G rt s \<and> ready D c s"
  note c = reset_inv_pending(1) [OF I m k] and a = reset_inv_pending(2) [OF I m k]
  note I' = reset_inv_answered [OF I m, of res]
  have t: "tracked D c ?K (pending s) (trace s)" using I by (simp add: reset_inv_def)
  have K': "map commit_key (commits ?s) = ?K" "trace ?s = trace s @ [Returned x k res]"
    by (simp_all add: answered_def)
  have T': "tracked D c' ?K (pending ?s) (trace ?s)" for c'
    using I' K'(1) by (simp add: reset_inv_def)
  have R': "root ?s = rt" "list_all G ?K" "commits ?s = commits s"
    using I by (simp_all add: reset_inv_def answered_def)
  note st = reset_inv_ready_loop_safe [of D G rt c]
  have F: "\<And>e t. ?P t \<Longrightarrow> ?P (commitCallback c e t)" by (rule loop_safe_commitCallback [OF st])
  have F1: "\<And>e t. ?P t \<Longrightarrow> ?P (commitCallback1 c e t)" by (rule loop_safe_commitCallback1 [OF st])
  have U: "\<And>s cs. ?P s \<Longrightarrow> map commit_key cs = map commit_key (commits s) \<Longrightarrow> ?P (s\<lparr>commits := cs\<rparr>)"
    by (rule loop_safe_commits [OF st])
  have E: "\<And>x k s. entry_req (x, k) \<Longrightarrow> cont_commit k = Some c \<Longrightarrow> ?P s \<Longrightarrow> ?P (issue x k s)"
    by (rule reset_inv_ready_entry)
  have start: "?P (each_start fin c t)" if "\<And>e s. ?P s \<Longrightarrow> ?P (fin c e s)" "?P t" for fin t
    by (rule each_start_preserves [where P = ?P])
       (erule E, assumption, assumption, erule U, assumption, erule that(1), rule that(2))
  have both: "reset_inv D G rt (resume k res ?s) \<and> reset_inv D G rt (resume1 k res ?s)"
  proof (cases "entry_of k")
    case (Some ci)
    obtain c' i where ci: "ci = (c', i)" by (cases ci)
    have e: "entry_of k = Some (c, i)" using Some ci entry_of_commit [of k c' i] k by simp
    have "ready D c s" using a c e k by (simp add: allowed_def ready_def ready_at_def)
    then have P: "?P ?s" using I' ready_answered by simp
    show ?thesis using entry_resume [where P = ?P, OF st E e P] by simp
  next
    case None
    then have b: "blankSlate (fst (?K ! c))"
      and d: "(k = ResetDirCb (D (?K ! c)) (SeriesNext c) \<and> x = FsRemove (D (?K ! c)))
            \<or> (k = SeriesNext c \<and> x = FsMkdirs (D (?K ! c)) \<and> reached (D (?K ! c)) c (trace s) 1)"
      using a k by (simp_all add: allowed_def)
    have r0: "reached (D (?K ! c)) c (trace s) 0" using t c b by (simp add: tracked_def)
    from d show ?thesis
    proof
      assume h: "k = ResetDirCb (D (?K ! c)) (SeriesNext c) \<and> x = FsRemove (D (?K ! c))"
      show ?thesis
      proof (cases res)
        case Ok
        have r1: "reached (D (?K ! c)) c (trace ?s) 1"
          using reached_removed [OF r0] h Ok by (simp add: answered_def)
        have "tracked D c' ?K (pending ?s @ [(FsMkdirs (D (?K ! c)), SeriesNext c)])
                 (trace ?s @ [Issued (FsMkdirs (D (?K ! c))) (SeriesNext c)])" for c'
        proof (cases "c' = c")
          case True
          show ?thesis
            unfolding True using c b r1 T' [of c] by (intro tracked_issue_mkdirs) simp_all
        next
          case False
          show ?thesis using False T' [of c'] by (intro tracked_issue_other) simp_all
        qed
        then have "reset_inv D G rt (issue (FsMkdirs (D (?K ! c))) (SeriesNext c) ?s)"
          using R' by (simp add: reset_inv_def issue_def)
        then show ?thesis using h Ok by simp
      next
        case (Failed e)
        then show ?thesis
          using h loop_safe_commitCallback [OF reset_inv_loop_safe I']
            loop_safe_commitCallback1 [OF reset_inv_loop_safe I'] by simp
      qed (use v h in simp_all)
    next
      assume h: "k = SeriesNext c \<and> x = FsMkdirs (D (?K ! c)) \<and> reached (D (?K ! c)) c (trace s) 1"
      show ?thesis
      proof (cases res)
        case Ok
        have "reached (D (?K ! c)) c (trace ?s) 2"
          using reached_made [of "D (?K ! c)" c "trace s"] h Ok by (simp add: answered_def)
        then have P: "?P ?s" using I' c by (simp add: ready_def ready_at_def K')
        show ?thesis
          using start [where fin = commitCallback, OF F P]
            start [where fin = commitCallback1, OF F1 P] h Ok by simp
      next
        case (Failed e)
        then show ?thesis
          using h loop_safe_commitCallback [OF reset_inv_loop_safe I']
            loop_safe_commitCallback1 [OF reset_inv_loop_safe I'] by simp
      qed (use v h in simp_all)
    qed
  qed
  show "reset_inv D G rt (resume k res (answered x k res s))" using both by simp
  show "reset_inv D G rt (resume1 k res (answered x k res s))" using both by simp
qed

lemma reset_inv_new_commit:
  assumes I: "reset_inv D G rt s" and g: "G (commit_key cm)"
    and F: "\<And>e t. reset_inv D G rt t \<and> ready D (length (commits s)) t \<Longrightarrow>
                   reset_inv D G rt (fin (length (commits s)) e t) \<and> ready D (length (commits s)) (fin (length (commits s)) e t)"
  shows "reset_inv D G rt
           (if blankSlate (batch cm)
            then removeThenMkdirs (D (commit_key cm)) (SeriesNext (length (commits s)))
                   (s\<lparr>commits := commits s @ [cm]\<rparr>)
            else each_start fin (length (commits s)) (s\<lparr>commits := commits s @ [cm]\<rparr>))"
proof -
  let ?K = "map commit_key (commits s)"
  let ?c = "length (commits s)"
  let ?s1 = "s\<lparr>commits := commits s @ [cm]\<rparr>"
  let ?P = "\<lambda>t. reset_inv D G rt t \<and> ready D ?c t"
  have T: "tracked D c ?K (pending s) (trace s)" for c using I by (simp add: reset_inv_def)
  have R: "root s = rt" "list_all G (?K @ [commit_key cm])" using I g by (simp_all add: reset_inv_def)
  have b: "fst (commit_key cm) = batch cm" by (simp add: commit_key_def)
  have l: "length ?K = ?c" by simp
  show ?thesis
  proof (cases "blankSlate (batch cm)")
    case True
    let ?d = "D (commit_key cm)"
    have "tracked D c (?K @ [commit_key cm]) (pending s @ [(FsRemove ?d, ResetDirCb ?d (SeriesNext ?c))])
            (trace s @ [Issued (FsRemove ?d) (ResetDirCb ?d (SeriesNext ?c))])" for c
    proof (cases "c = ?c")
      case c: True
      show ?thesis
        using tracked_created_blank [where D = D and K = ?K and ky = "commit_key cm", OF _ ] T [of ?c] True b
        unfolding c l by simp
    next
      case False
      then have "tracked D c (?K @ [commit_key cm]) (pending s) (trace s)"
        using T [of c] by (intro tracked_extend) simp_all
      then show ?thesis using False by (intro tracked_issue_other) simp_all
    qed
    then show ?thesis
      using True R by (simp add: reset_inv_def removeThenMkdirs_def issue_def)
  next
    case False
    have "tracked D c (?K @ [commit_key cm]) (pending s) (trace s)" for c
    proof (cases "c = ?c")
      case c: True
      show ?thesis
        using tracked_created [where D = D and K = ?K and ky = "commit_key cm"] T [of ?c] False b
        unfolding c l by simp
    next
      case False
      then show ?thesis using T [of c] by (intro tracked_extend) simp_all
    qed
    then have P: "?P ?s1"
      using R False b by (simp add: reset_inv_def ready_def ready_at_def nth_append)
    note st = reset_inv_ready_loop_safe [of D G rt ?c]
    have U: "\<And>s cs. ?P s \<Longrightarrow> map commit_key cs = map commit_key (commits s) \<Longrightarrow> ?P (s\<lparr>commits := cs\<rparr>)"
      by (rule loop_safe_commits [OF st])
    have E: "\<And>x k s. entry_req (x, k) \<Longrightarrow> cont_commit k = Some ?c \<Longrightarrow> ?P s \<Longrightarrow> ?P (issue x k s)"
      by (rule reset_inv_ready_entry)
    have "?P (each_start fin ?c ?s1)"
      by (rule each_start_preserves [where P = ?P])
         (erule E, assumption, assumption, erule U, assumption, erule F, rule P)
    then show ?thesis using False by simp
  qed
qed

lemma reset_inv_commitChanges:
  assumes I: "reset_inv (mirror rt) whole rt s"
  shows "reset_inv (mirror rt) whole rt (commitChanges pc s)"
proof -
  have k: "commit_key (new_commit pc None None None) = (pc, None, None, None)"
    by (simp add: commit_key_def new_commit_def)
  have F: "\<And>e t. reset_inv (mirror rt) whole rt t \<and> ready (mirror rt) (length (commits s)) t \<Longrightarrow>
             reset_inv (mirror rt) whole rt (commitCallback (length (commits s)) e t)
             \<and> ready (mirror rt) (length (commits s)) (commitCallback (length (commits s)) e t)"
    by (rule loop_safe_commitCallback [OF reset_inv_ready_loop_safe])
  have r: "root s = rt" using I by (simp add: reset_inv_def)
  have g: "whole (commit_key (new_commit pc None None None))" by (simp add: k whole_def)
  have d: "mirror rt (commit_key (new_commit pc None None None)) = PathResolve [rt]"
    by (simp add: k mirror_def)
  have bt: "batch (new_commit pc None None None) = pc" by (simp add: new_commit_def)
  note N = reset_inv_new_commit [where fin = commitCallback and cm = "new_commit pc None None None", OF I g F]
  show ?thesis
    using N [unfolded d bt] by (simp add: commitChanges_def Let_def resetDir_def r split: if_splits)
qed

lemma reset_inv_commitChanges1:
  assumes I: "reset_inv (mirror rt) scoped rt s" and n: "changes pc \<noteq> []"
  shows "reset_inv (mirror rt) scoped rt (commitChanges1 p pc r s)"
proof -
  have k: "commit_key (new_commit pc (Some p) (Some r) None) = (pc, Some p, Some r, None)"
    by (simp add: commit_key_def new_commit_def)
  have F: "\<And>e t. reset_inv (mirror rt) scoped rt t \<and> ready (mirror rt) (length (commits s)) t \<Longrightarrow>
             reset_inv (mirror rt) scoped rt (commitCallback1 (length (commits s)) e t)
             \<and> ready (mirror rt) (length (commits s)) (commitCallback1 (length (commits s)) e t)"
    by (rule loop_safe_commitCallback1 [OF reset_inv_ready_loop_safe])
  have r: "root s = rt" using I by (simp add: reset_inv_def)
  have g: "scoped (commit_key (new_commit pc (Some p) (Some r) None))"
    using n by (simp add: k scoped_def)
  have d: "mirror rt (commit_key (new_commit pc (Some p) (Some r) None)) = PathResolve [rt, drop 1 p]"
    by (simp add: k mirror_def)
  have bt: "batch (new_commit pc (Some p) (Some r) None) = pc" by (simp add: new_commit_def)
  note N = reset_inv_new_commit [where fin = commitCallback1 and cm = "new_commit pc (Some p) (Some r) None", OF I g F]
  show ?thesis
    using N [unfolded d bt] by (simp add: commitChanges1_def Let_def resetDir1_def r split: if_splits)
qed

lemma reset_inv_dispatch1:
  assumes I: "reset_inv (mirror rt) scoped rt s"
  shows "reset_inv (mirror rt) scoped rt (dispatch1 pc s)"
proof -
  have "reset_inv (mirror rt) scoped rt (fst (fold (\<lambda>p (s, cp).
                    (let filtered = filter (isUnder p) (changes pc)
                     in if filtered \<noteq> [] then
                          ((case map_of (paths s) p of
                              Some r \<Rightarrow> commitChanges1 p (pc\<lparr>changes := filtered\<rparr>) r s
                            | None \<Rightarrow> s), cp @ [p])
                        else (s, cp))) ks (s, cp)))" for ks cp
    using I
    by (induction ks arbitrary: s cp) (auto simp: Let_def reset_inv_commitChanges1 split: option.splits)
  then show ?thesis
    by (auto simp: dispatch1_def split_beta loop_safe_watchForChanges [OF reset_inv_loop_safe])
qed

lemma reset_inv_pulled:
  assumes C: "\<And>b t. reset_inv D G rt t \<Longrightarrow> reset_inv D G rt (complete b t)" and I: "reset_inv D G rt s"
  shows "reset_inv D G rt (pulled complete prev pg s)"
proof -
  note st = reset_inv_loop_safe [of D G rt]
  have a: "reset_inv D G rt (s\<lparr>cursor := Some (cursorTag pg), pullingChanges := False\<rparr>)"
    using loop_safe_pulling [OF st loop_safe_cursor [OF st I, of "Some (cursorTag pg)"], of False] by simp
  show ?thesis
    using C [OF a] loop_safe_pullChanges [OF st a] by (simp add: pulled_def Let_def)
qed

lemma reset_inv_step:
  assumes I: "reset_inv (mirror rt) whole rt (snd cs)"
  shows "reset_inv (mirror rt) whole rt (snd (step cs ev))"
proof -
  obtain C s where cs: "cs = (C, s)" by (cases cs)
  note st = reset_inv_loop_safe [of "mirror rt" whole rt]
  have J: "reset_inv (mirror rt) whole rt s" using I cs by simp
  show ?thesis
  proof (cases ev)
    case (Sync p)
    then show ?thesis using cs loop_safe_sync [OF st J] by simp
  next
    case (StopSync p)
    then show ?thesis using cs loop_safe_stopSync [OF st J] by simp
  next
    case (ConsumerCallback r)
    have "reset_inv (mirror rt) whole rt (emit (CalledBack r) s)"
      by (rule loop_safe_emit [OF st J]) (simp add: is_request_def)
    then show ?thesis using cs ConsumerCallback J loop_safe_queue_next [OF st] by simp
  next
    case (Return x k res)
    show ?thesis
    proof (cases "(x, k) \<in> set (pending s) \<and> valid_result x res")
      case False
      then show ?thesis using cs Return J by auto
    next
      case True
      note A = reset_inv_answered [OF J conjunct1 [OF True], of res]
      have "reset_inv (mirror rt) whole rt (resume k res (answered x k res s))"
      proof (cases "cont_commit k")
        case (Some c)
        show ?thesis by (rule commit_resume(1) [OF J conjunct1 [OF True] conjunct2 [OF True] Some])
      next
        case None
        show ?thesis
        proof (cases "\<exists>pg prev. res = Pulled pg \<and> k = PullCb prev")
          case True
          then obtain pg prev where "res = Pulled pg" "k = PullCb prev" by blast
          then show ?thesis using reset_inv_pulled [where complete = commitChanges, OF reset_inv_commitChanges A] by simp
        next
          case False
          show ?thesis by (rule loop_safe_resume [OF st A None False])
        qed
      qed
      then show ?thesis using cs Return True by simp
    qed
  qed
qed

lemma reset_inv_step1:
  assumes J: "reset_inv (mirror rt) scoped rt s"
  shows "reset_inv (mirror rt) scoped rt (step1 s ev)"
proof -
  note st = reset_inv_loop_safe [of "mirror rt" scoped rt]
  show ?thesis
  proof (cases ev)
    case (Sync p)
    then show ?thesis using loop_safe_sync1 [OF st J] by simp
  next
    case (StopSync p)
    then show ?thesis using loop_safe_stopSync1 [OF st J] by simp
  next
    case (ConsumerCallback r)
    then show ?thesis using J by simp
  next
    case (Return x k res)
    show ?thesis
    proof (cases "(x, k) \<in> set (pending s) \<and> valid_result x res")
      case False
      then show ?thesis using Return J by auto
    next
      case True
      note A = reset_inv_answered [OF J conjunct1 [OF True], of res]
      have "reset_inv (mirror rt) scoped rt (resume1 k res (answered x k res s))"
      proof (cases "cont_commit k")
        case (Some c)
        show ?thesis by (rule commit_resume(2) [OF J conjunct1 [OF True] conjunct2 [OF True] Some])
      next
        case None
        show ?thesis
        proof (cases "\<exists>pg prev. res = Pulled pg \<and> k = PullCb prev")
          case True
          then obtain pg prev where "res = Pulled pg" "k = PullCb prev" by blast
          then show ?thesis using reset_inv_pulled [where complete = dispatch1, OF reset_inv_dispatch1 A] by simp
        next
          case False
          show ?thesis by (rule loop_safe_resume1 [OF st A None False])
        qed
      qed
      then show ?thesis using Return True by simp
    qed
  qed
qed

lemma reset_inv_fresh: "reset_inv D G rt (fresh u rt)"
  by (simp add: reset_inv_def fresh_def tracked_def phase_def)

lemma reset_inv_run: "reset_inv (mirror rt) whole rt (snd cs) \<Longrightarrow> reset_inv (mirror rt) whole rt (snd (run cs evs))"
  unfolding run_def by (induction evs arbitrary: cs) (simp_all add: reset_inv_step)

lemma reset_inv_run1: "reset_inv (mirror rt) scoped rt s \<Longrightarrow> reset_inv (mirror rt) scoped rt (run1 s evs)"
  unfolding run1_def by (induction evs arbitrary: s) (simp_all add: reset_inv_step1)

lemma reset_inv_blank:
  assumes I: "reset_inv D G rt s" and c: "c < length (commits s)" and b: "blankSlate (batch (commits s ! c))"
  shows "reset_issued (D (commit_key (commits s ! c))) c (trace s)"
    and "reset_before_entries (D (commit_key (commits s ! c))) c (trace s)"
    and "G (commit_key (commits s ! c))"
proof -
  have t: "tracked D c (map commit_key (commits s)) (pending s) (trace s)"
    using I by (simp add: reset_inv_def)
  have f: "fst (commit_key (commits s ! c)) = batch (commits s ! c)" by (simp add: commit_key_def)
  show "reset_issued (D (commit_key (commits s ! c))) c (trace s)"
    using t c b by (simp add: tracked_def f)
  show "reset_before_entries (D (commit_key (commits s ! c))) c (trace s)"
    using t c b by (auto simp: tracked_def f reset_before_entries_def reached_def split: option.splits)
  show "G (commit_key (commits s ! c))"
    using I c by (simp add: reset_inv_def list_all_length)
qed

subsection \<open>The reset on a blank slate\<close>

text \<open>
  C2, as the claim states it, fails in part_001.  The paths \<^verbatim>\<open>/a\<close> and \<^verbatim>\<open>/b\<close> are watched
  and a complete batch with \<open>blankSlate = true\<close> arrives whose only entry lies under
  \<^verbatim>\<open>/a\<close>: one commit is started, for \<^verbatim>\<open>/a\<close>, and the only request to the file system
  is the removal of the mirror of \<^verbatim>\<open>/a\<close>; nothing resets the mirror of \<^verbatim>\<open>/b\<close>.  When the
  batch has no entry at all, no commit is started and no request to the file system is
  issued: the engine goes straight back to polling.
\<close>

theorem blank_slate_skips_path_without_entries:
  "(let s = run1 (fresh ''u'' ''/r'')
              [Sync (Some ''/a''), Sync (Some ''/b''),
               Return (PullChanges None) (PullCb None)
                 (Pulled (page [fileEntry ''/a/x''] False True 1))]
    in paths s = [(''/a'', 0), (''/b'', 1)] \<and> map cpath (commits s) = [Some ''/a'']
     \<and> mutations (trace s) = [FsRemove (PathResolve [''/r'', ''a''])]
     \<and> pending s = [(FsRemove (PathResolve [''/r'', ''a'']),
                      ResetDirCb (PathResolve [''/r'', ''a'']) (SeriesNext 0))])
 \<and> (let s = run1 (fresh ''u'' ''/r'')
              [Sync (Some ''/a''),
               Return (PullChanges None) (PullCb None) (Pulled (page [] False True 1))]
    in paths s = [(''/a'', 0)] \<and> commits s = [] \<and> mutations (trace s) = []
     \<and> pending s = [(PollForChanges (Some 1), PollCb 0)])"
  by code_simp

text \<open>
  C2, amended.  In part_000 every activation of \<open>commitChanges\<close> on a batch with
  \<open>blankSlate = true\<close> has issued the removal of the local root, and no request for an
  entry of the batch is issued before that removal and then the \<open>mkdirs\<close> of the root
  have returned without an error; this holds in every state the engine can reach.  The
  reset is issued whatever the entries are, also for an empty entry list (third part).
  In part_001 the same holds for every activation, with the mirror directory of the
  activation's watched path in place of the root; an activation exists only for a watched
  path with at least one entry below it.
\<close>

theorem blank_slate_resets_before_entries:
  "(\<forall>c. let s = snd (run (C, fresh u rt) evs) in
          c < length (commits s) \<longrightarrow> blankSlate (batch (commits s ! c)) \<longrightarrow>
            reset_issued (PathResolve [rt]) c (trace s)
          \<and> reset_before_entries (PathResolve [rt]) c (trace s))
 \<and> (\<forall>c. let s = run1 (fresh u rt) evs' in
          c < length (commits s) \<longrightarrow> blankSlate (batch (commits s ! c)) \<longrightarrow>
            (\<exists>p. cpath (commits s ! c) = Some p \<and> changes (batch (commits s ! c)) \<noteq> []
                \<and> reset_issued (PathResolve [rt, drop 1 p]) c (trace s)
                \<and> reset_before_entries (PathResolve [rt, drop 1 p]) c (trace s)))
 \<and> (\<not> shouldPullAgain pg \<longrightarrow> blankSlate (accumulate prev pg) \<longrightarrow>
       (let t = pulled commitChanges prev pg s; c = length (commits s) in
          c < length (commits t) \<and> batch (commits t ! c) = accumulate prev pg
        \<and> reset_issued (PathResolve [root s]) c (trace t)))"
proof (intro conjI allI)
  fix c
  define s0 where "s0 = snd (run (C, fresh u rt) evs)"
  have I: "reset_inv (mirror rt) whole rt s0"
    unfolding s0_def by (rule reset_inv_run) (simp add: reset_inv_fresh)
  have "reset_issued (PathResolve [rt]) c (trace s0) \<and> reset_before_entries (PathResolve [rt]) c (trace s0)"
    if c: "c < length (commits s0)" and b: "blankSlate (batch (commits s0 ! c))"
  proof -
    have "whole (commit_key (commits s0 ! c))" by (rule reset_inv_blank(3) [OF I c b])
    then have m: "mirror rt (commit_key (commits s0 ! c)) = PathResolve [rt]"
      by (simp add: whole_def mirror_def)
    show ?thesis using reset_inv_blank(1,2) [OF I c b] by (simp add: m)
  qed
  then show "let s = snd (run (C, fresh u rt) evs) in
          c < length (commits s) \<longrightarrow> blankSlate (batch (commits s ! c)) \<longrightarrow>
            reset_issued (PathResolve [rt]) c (trace s)
          \<and> reset_before_entries (PathResolve [rt]) c (trace s)"
    by (simp add: s0_def Let_def)
next
  fix c
  define s0 where "s0 = run1 (fresh u rt) evs'"
  have I: "reset_inv (mirror rt) scoped rt s0"
    unfolding s0_def by (rule reset_inv_run1) (simp add: reset_inv_fresh)
  have "\<exists>p. cpath (commits s0 ! c) = Some p \<and> changes (batch (commits s0 ! c)) \<noteq> []
                \<and> reset_issued (PathResolve [rt, drop 1 p]) c (trace s0)
                \<and> reset_before_entries (PathResolve [rt, drop 1 p]) c (trace s0)"
    if c: "c < length (commits s0)" and b: "blankSlate (batch (commits s0 ! c))"
  proof -
    have "scoped (commit_key (commits s0 ! c))" by (rule reset_inv_blank(3) [OF I c b])
    then obtain p where p: "cpath (commits s0 ! c) = Some p" and n: "changes (batch (commits s0 ! c)) \<noteq> []"
      by (auto simp: scoped_def commit_key_def)
    have m: "mirror rt (commit_key (commits s0 ! c)) = PathResolve [rt, drop 1 p]"
      by (simp add: mirror_def commit_key_def p)
    show ?thesis using reset_inv_blank(1,2) [OF I c b] p n by (simp add: m)
  qed
  then show "let s = run1 (fresh u rt) evs' in
          c < length (commits s) \<longrightarrow> blankSlate (batch (commits s ! c)) \<longrightarrow>
            (\<exists>p. cpath (commits s ! c) = Some p \<and> changes (batch (commits s ! c)) \<noteq> []
                \<and> reset_issued (PathResolve [rt, drop 1 p]) c (trace s)
                \<and> reset_before_entries (PathResolve [rt, drop 1 p]) c (trace s))"
    by (simp add: s0_def Let_def)
next
  show "\<not> shouldPullAgain pg \<longrightarrow> blankSlate (accumulate prev pg) \<longrightarrow>
       (let t = pulled commitChanges prev pg s; c = length (commits s) in
          c < length (commits t) \<and> batch (commits t ! c) = accumulate prev pg
        \<and> reset_issued (PathResolve [root s]) c (trace t))"
    by (simp add: pulled_def Let_def commitChanges_def resetDir_def removeThenMkdirs_def issue_def
          reset_issued_def new_commit_def)
qed

theorem blank_slate_resets_before_entries_witness:
  "(let s = snd (run ([], fresh ''u'' ''/r'')
                  [Sync (Some ''/a''),
                   Return (PullChanges None) (PullCb None)
                     (Pulled (page [fileEntry ''/a/x''] False True 1)),
                   Return (FsRemove (PathResolve [''/r'']))
                     (ResetDirCb (PathResolve [''/r'']) (SeriesNext 0)) Ok,
                   Return (FsMkdirs (PathResolve [''/r''])) (SeriesNext 0) Ok])
    in 0 < length (commits s) \<and> blankSlate (batch (commits s ! 0))
     \<and> entry_req (last (pending s))
     \<and> reset_issued (PathResolve [''/r'']) 0 (trace s)
     \<and> reset_before_entries (PathResolve [''/r'']) 0 (trace s))
 \<and> (let s = run1 (fresh ''u'' ''/r'')
                  [Sync (Some ''/a''),
                   Return (PullChanges None) (PullCb None)
                     (Pulled (page [fileEntry ''/a/x''] False True 1)),
                   Return (FsRemove (PathResolve [''/r'', ''a'']))
                     (ResetDirCb (PathResolve [''/r'', ''a'']) (SeriesNext 0)) Ok,
                   Return (FsMkdirs (PathResolve [''/r'', ''a''])) (SeriesNext 0) Ok]
    in 0 < length (commits s) \<and> blankSlate (batch (commits s ! 0))
     \<and> cpath (commits s ! 0) = Some ''/a''
     \<and> entry_req (last (pending s))
     \<and> reset_issued (PathResolve [''/r'', ''a'']) 0 (trace s)
     \<and> reset_before_entries (PathResolve [''/r'', ''a'']) 0 (trace s))
 \<and> (let pg = page [] False True 1; s = fresh ''u'' ''/r''; t = pulled commitChanges None pg s
    in \<not> shouldPullAgain pg \<and> blankSlate (accumulate None pg) \<and> changes (accumulate None pg) = []
     \<and> 0 < length (commits t) \<and> batch (commits t ! 0) = pg
     \<and> reset_issued (PathResolve [''/r'']) 0 (trace t))"
proof -
  define e0 where "e0 = [Sync (Some ''/a''),
                   Return (PullChanges None) (PullCb None)
                     (Pulled (page [fileEntry ''/a/x''] False True 1)),
                   Return (FsRemove (PathResolve [''/r'']))
                     (ResetDirCb (PathResolve [''/r'']) (SeriesNext 0)) Ok,
                   Return (FsMkdirs (PathResolve [''/r''])) (SeriesNext 0) Ok]"
  define e1 where "e1 = [Sync (Some ''/a''),
                   Return (PullChanges None) (PullCb None)
                     (Pulled (page [fileEntry ''/a/x''] False True 1)),
                   Return (FsRemove (PathResolve [''/r'', ''a'']))
                     (ResetDirCb (PathResolve [''/r'', ''a'']) (SeriesNext 0)) Ok,
                   Return (FsMkdirs (PathResolve [''/r'', ''a''])) (SeriesNext 0) Ok]"
  define s0 where "s0 = snd (run ([], fresh ''u'' ''/r'') e0)"
  define s1 where "s1 = run1 (fresh ''u'' ''/r'') e1"
  define pg where "pg = page [] False True 1"
  have h0: "0 < length (commits s0)" "blankSlate (batch (commits s0 ! 0))" "entry_req (last (pending s0))"
    unfolding s0_def e0_def by code_simp+
  have h1: "0 < length (commits s1)" "blankSlate (batch (commits s1 ! 0))"
    "cpath (commits s1 ! 0) = Some ''/a''" "entry_req (last (pending s1))"
    unfolding s1_def e1_def by code_simp+
  have h2: "\<not> shouldPullAgain pg" "blankSlate (accumulate None pg)" "changes (accumulate None pg) = []"
    "accumulate None pg = pg" "root (fresh ''u'' ''/r'') = ''/r''" "length (commits (fresh ''u'' ''/r'')) = 0"
    unfolding pg_def by code_simp+
  note t = blank_slate_resets_before_entries [where C = "[]" and u = "''u''" and rt = "''/r''"
      and evs = e0 and evs' = e1 and pg = pg and prev = None and s = "fresh ''u'' ''/r''"]
  have a: "reset_issued (PathResolve [''/r'']) 0 (trace s0) \<and> reset_before_entries (PathResolve [''/r'']) 0 (trace s0)"
    using t [THEN conjunct1, THEN spec, of 0] h0 by (simp add: Let_def s0_def)
  have b: "reset_issued (PathResolve [''/r'', ''a'']) 0 (trace s1)
         \<and> reset_before_entries (PathResolve [''/r'', ''a'']) 0 (trace s1)"
    using t [THEN conjunct2, THEN conjunct1, THEN spec, of 0] h1 by (simp add: Let_def s1_def)
  have c: "0 < length (commits (pulled commitChanges None pg (fresh ''u'' ''/r'')))
         \<and> batch (commits (pulled commitChanges None pg (fresh ''u'' ''/r'')) ! 0) = pg
         \<and> reset_issued (PathResolve [''/r'']) 0 (trace (pulled commitChanges None pg (fresh ''u'' ''/r'')))"
    using t [THEN conjunct2, THEN conjunct2] h2 by (simp add: Let_def)
  show ?thesis
    using a b c h0 h1 h2
    unfolding Let_def s0_def [symmetric] s1_def [symmetric] e0_def [symmetric] e1_def [symmetric]
      pg_def [symmetric]
    by simp
qed

subsection \<open>The cache in every state of the process\<close>

lemma identity_stable: "stable (\<lambda>t. root t = r \<and> client_uid t = u)"
  by (simp add: stable_def issue_def emit_def pullChanges_def queue_push_def)

lemma identity_stable1: "stable1 (\<lambda>t. root t = r \<and> client_uid t = u)"
  by (simp add: stable1_def identity_stable emit_def)

lemma identity_queue_process:
  "root (queue_process q s) = root s \<and> client_uid (queue_process q s) = client_uid s"
  by (simp add: queue_process_def Let_def emit_def split: list.splits)

lemma identity_pulled:
  assumes C: "\<And>b t. root (complete b t) = root t \<and> client_uid (complete b t) = client_uid t"
  shows "root (pulled complete prev pg s) = root s \<and> client_uid (pulled complete prev pg s) = client_uid s"
  using C by (simp add: pulled_def Let_def pullChanges_def issue_def)

lemma step_identity:
  "root (snd (step cs ev)) = root (snd cs) \<and> client_uid (snd (step cs ev)) = client_uid (snd cs)"
proof -
  obtain C s where cs: "cs = (C, s)" by (cases cs)
  define P where "P = (\<lambda>t::inst. root t = root s \<and> client_uid t = client_uid s)"
  have st: "stable P" unfolding P_def by (rule identity_stable)
  have P: "P s" by (simp add: P_def)
  have QP: "\<And>q t. P t \<Longrightarrow> P (queue_process q t)" by (simp add: P_def identity_queue_process)
  have "P (snd (step cs ev))"
  proof (cases ev)
    case (Sync p)
    have "P (getLocalState p' q (s\<lparr>queues := x, paths := y\<rparr>))" for p' q x y
      by (simp add: P_def getLocalState_def issue_def)
    then show ?thesis by (simp add: cs Sync sync_def Let_def stable_watchForChanges [OF st])
  next
    case (StopSync p)
    then show ?thesis using stable_stopSync [OF st P] by (simp add: cs)
  next
    case (ConsumerCallback q)
    have a: "P (t\<lparr>queues := x\<rparr>)" if "P t" for t x using that by (simp add: P_def)
    have b: "P (queue_next q t)" if "P t" for t
      using that a [OF that] stable_watchForChanges [OF st a [OF that]]
      by (simp add: queue_next_def Let_def QP)
    have "P (emit (CalledBack q) s)" by (simp add: P_def emit_def)
    then show ?thesis using P b by (simp add: cs ConsumerCallback)
  next
    case (Return x k res)
    have A: "P (answered x k res s)" by (simp add: P_def answered_def)
    have "P (resume k res (answered x k res s))"
    proof (cases "\<exists>pg prev. res = Pulled pg \<and> k = PullCb prev")
      case True
      then obtain pg prev where e: "res = Pulled pg" "k = PullCb prev" by blast
      have "\<And>b t. root (commitChanges b t) = root t \<and> client_uid (commitChanges b t) = client_uid t"
        using stable_commitChanges [OF identity_stable] by blast
      then show ?thesis using identity_pulled [where complete = commitChanges] A by (simp add: e P_def)
    next
      case False
      show ?thesis by (rule stable_resume [OF st QP A False])
    qed
    then show ?thesis using P by (simp add: cs Return)
  qed
  then show ?thesis by (simp add: P_def cs)
qed

lemma step1_identity:
  "root (step1 s ev) = root s \<and> client_uid (step1 s ev) = client_uid s"
proof -
  define P where "P = (\<lambda>t::inst. root t = root s \<and> client_uid t = client_uid s)"
  have st1: "stable1 P" unfolding P_def by (rule identity_stable1)
  note st = stable1_stable [OF st1]
  have P: "P s" by (simp add: P_def)
  have "P (step1 s ev)"
  proof (cases ev)
    case (Sync p)
    then show ?thesis using stable_sync1 [OF st P] by simp
  next
    case (StopSync p)
    then show ?thesis using stable_stopSync1 [OF st P] by simp
  next
    case (ConsumerCallback q)
    then show ?thesis using P by simp
  next
    case (Return x k res)
    have A: "P (answered x k res s)" by (simp add: P_def answered_def)
    have "P (resume1 k res (answered x k res s))"
    proof (cases "\<exists>pg prev. res = Pulled pg \<and> k = PullCb prev")
      case True
      then obtain pg prev where e: "res = Pulled pg" "k = PullCb prev" by blast
      have "\<And>b t. root (dispatch1 b t) = root t \<and> client_uid (dispatch1 b t) = client_uid t"
        using stable_dispatch1 [OF identity_stable1] by blast
      then show ?thesis using identity_pulled [where complete = dispatch1] A by (simp add: e P_def)
    next
      case False
      show ?thesis by (rule stable_resume1 [OF st1 A False])
    qed
    then show ?thesis using P by (simp add: Return)
  qed
  then show ?thesis by (simp add: P_def)
qed

lemma step_cache:
  "map_of (fst (step cs ev)) k = Some i \<Longrightarrow> map_of (fst cs) k = Some i"
proof -
  obtain C s where cs: "cs = (C, s)" by (cases cs)
  assume "map_of (fst (step cs ev)) k = Some i"
  then show ?thesis
    by (cases ev) (auto simp: cs stopSync_def Let_def AList.delete_conv' split: if_splits)
qed

lemma cache_ok_boot: "cache_ok boot" "cache_ok1 boot"
  by (simp_all add: cache_ok_def cache_ok1_def boot_def)

lemma cache_ok_New:
  assumes "cache_ok w"
  shows "cache_ok (snd (DropboxSync cfg r w))"
proof (cases "map_of (cache w) (cacheKey (uid cfg) r)")
  case (Some i)
  then show ?thesis using assms by (simp add: DropboxSync_def)
next
  case None
  have a: "\<And>k i. map_of (cache w) k = Some i \<Longrightarrow>
             i < length (objs w) \<and> cacheKey (client_uid (objs w ! i)) (root (objs w ! i)) = k"
    using assms by (simp add: cache_ok_def)
  have "i < Suc (length (objs w))
        \<and> cacheKey (client_uid ((objs w @ [fresh (uid cfg) r]) ! i)) (root ((objs w @ [fresh (uid cfg) r]) ! i)) = k"
    if "map_of (AList.update (cacheKey (uid cfg) r) (length (objs w)) (cache w)) k = Some i" for k i
  proof (cases "k = cacheKey (uid cfg) r")
    case True
    then show ?thesis using that by (auto simp: AList.update_conv' fresh_def)
  next
    case False
    then have "map_of (cache w) k = Some i" using that by (simp add: AList.update_conv')
    then show ?thesis using a [of k i] by (simp add: nth_append)
  qed
  then show ?thesis using None by (simp add: DropboxSync_def cache_ok_def)
qed

lemma cache_ok_invoke:
  assumes o: "cache_ok w"
  shows "cache_ok (invoke i ev w)"
proof (cases "i < length (objs w)")
  case False
  then show ?thesis using o by (simp add: invoke_def)
next
  case True
  obtain C s where st: "step (cache w, objs w ! i) ev = (C, s)" by (cases "step (cache w, objs w ! i) ev")
  have id: "root s = root (objs w ! i)" "client_uid s = client_uid (objs w ! i)"
    using step_identity [of "(cache w, objs w ! i)" ev] by (simp_all add: st)
  have c: "\<And>k j. map_of C k = Some j \<Longrightarrow> map_of (cache w) k = Some j"
    using step_cache [of "(cache w, objs w ! i)" ev] by (simp add: st)
  have "j < length (objs w) \<and> cacheKey (client_uid ((objs w)[i := s] ! j)) (root ((objs w)[i := s] ! j)) = k"
    if "map_of C k = Some j" for k j
    using o c [OF that] id True by (cases "j = i") (auto simp: cache_ok_def)
  then show ?thesis using True by (simp add: invoke_def st cache_ok_def)
qed

lemma cache_ok_run: "cache_ok w \<Longrightarrow> cache_ok (process_run w evs)"
  unfolding process_run_def
proof (induction evs arbitrary: w)
  case Nil
  then show ?case by simp
next
  case (Cons e evs)
  have "cache_ok (process_step w e)"
    using Cons.prems by (cases e) (simp_all add: cache_ok_New cache_ok_invoke)
  then show ?case using Cons.IH by simp
qed

lemma cache_ok1_New:
  assumes "cache_ok1 w"
  shows "cache_ok1 (snd (DropboxSync1 cfg r w))"
proof (cases "map_of (cache w) (uid cfg)")
  case (Some i)
  then show ?thesis using assms by (simp add: DropboxSync1_def)
next
  case None
  have a: "\<And>k i. map_of (cache w) k = Some i \<Longrightarrow> i < length (objs w) \<and> client_uid (objs w ! i) = k"
    and b: "\<And>i. i < length (objs w) \<Longrightarrow> map_of (cache w) (client_uid (objs w ! i)) = Some i"
    using assms by (simp_all add: cache_ok1_def)
  have n: "client_uid (objs w ! i) \<noteq> uid cfg" if "i < length (objs w)" for i
    using b [OF that] None by auto
  show ?thesis
    using None a b n
    by (auto simp: DropboxSync1_def cache_ok1_def AList.update_conv' nth_append fresh_def less_Suc_eq
             split: if_splits)
qed

lemma cache_ok1_invoke:
  assumes o: "cache_ok1 w"
  shows "cache_ok1 (invoke1 i ev w)"
proof (cases "i < length (objs w)")
  case False
  then show ?thesis using o by (simp add: invoke1_def)
next
  case True
  have id: "client_uid ((objs w)[i := step1 (objs w ! i) ev] ! j) = client_uid (objs w ! j)" for j
    using True step1_identity [of "objs w ! i" ev] by (cases "j = i") simp_all
  show ?thesis using o True by (simp add: invoke1_def cache_ok1_def id)
qed

lemma cache_ok1_run: "cache_ok1 w \<Longrightarrow> cache_ok1 (process_run1 w evs)"
  unfolding process_run1_def
proof (induction evs arbitrary: w)
  case Nil
  then show ?case by simp
next
  case (Cons e evs)
  have "cache_ok1 (process_step1 w e)"
    using Cons.prems by (cases e) (simp_all add: cache_ok1_New cache_ok1_invoke)
  then show ?case using Cons.IH by simp
qed

lemma DropboxSync_sync_run:
  "snd (DropboxSync_sync cfg r p w) = process_run w [New cfg r, On (fst (DropboxSync cfg r w)) (Sync p)]"
  "snd (DropboxSync_sync1 cfg r p w) = process_run1 w [New cfg r, On (fst (DropboxSync1 cfg r w)) (Sync p)]"
  by (simp_all add: DropboxSync_sync_def DropboxSync_sync1_def process_run_def process_run1_def
        invoke_def invoke1_def split_beta Let_def)

lemma distinct_cache_step: "distinct (map fst (fst cs)) \<Longrightarrow> distinct (map fst (fst (step cs ev)))"
proof -
  obtain C s where cs: "cs = (C, s)" by (cases cs)
  assume "distinct (map fst (fst cs))"
  then show ?thesis
    by (cases ev) (auto simp: cs stopSync_def Let_def AList.distinct_delete split: if_splits)
qed

lemma distinct_cache_run:
  "distinct (map fst (cache w)) \<Longrightarrow> distinct (map fst (cache (process_run w evs)))"
  unfolding process_run_def
proof (induction evs arbitrary: w)
  case Nil
  then show ?case by simp
next
  case (Cons e evs)
  have "distinct (map fst (cache (process_step w e)))"
  proof (cases e)
    case (New cfg r)
    then show ?thesis using Cons.prems by (simp add: distinct_cache_DropboxSync)
  next
    case (On i ev)
    then show ?thesis
      using Cons.prems distinct_cache_step [of "(cache w, objs w ! i)" ev]
      by (simp add: invoke_def split_beta)
  qed
  then show ?case using Cons.IH by simp
qed

lemma distinct_cache_run1:
  "distinct (map fst (cache w)) \<Longrightarrow> distinct (map fst (cache (process_run1 w evs)))"
  unfolding process_run1_def
proof (induction evs arbitrary: w)
  case Nil
  then show ?case by simp
next
  case (Cons e evs)
  have "distinct (map fst (cache (process_step1 w e)))"
    using Cons.prems by (cases e) (simp_all add: distinct_cache_DropboxSync1 invoke1_def)
  then show ?case using Cons.IH by simp
qed

subsection \<open>One instance per identity\<close>

text \<open>
  C7, as the claim states it, fails in part_000: the cache does not keep a second live
  instance of an identity from coming into being.  An instance is constructed for
  \<^verbatim>\<open>u\<close> and \<^verbatim>\<open>/r\<close> and watches \<^verbatim>\<open>/a\<close>; \<open>stopSync\<close> of its last path takes it out of the
  cache; its holder calls \<open>sync\<close> for \<^verbatim>\<open>/b\<close> on it; a construction for \<^verbatim>\<open>u\<close> and
  \<^verbatim>\<open>/r\<close> now makes a second object, which watches \<^verbatim>\<open>/a\<close>.  Both objects have the same
  uid and root, both watch a path and both have a request to the remote side outstanding,
  each with a cursor of its own.
\<close>

theorem evicted_instance_lives_on:
  "(let w = process_run boot
              [New (account ''u'' ''t'') ''/r'', On 0 (Sync (Some ''/a'')),
               On 0 (Return (PullChanges None) (PullCb None) (Pulled (page [] False False 1))),
               On 0 (Sync (Some ''/a'')), On 0 (StopSync ''/a''), On 0 (Sync (Some ''/b'')),
               New (account ''u'' ''t'') ''/r'', On 1 (Sync (Some ''/a''))]
    in length (objs w) = 2 \<and> cache w = [(''u:/r'', 1)]
     \<and> client_uid (objs w ! 0) = client_uid (objs w ! 1) \<and> root (objs w ! 0) = root (objs w ! 1)
     \<and> map fst (paths (objs w ! 0)) = [''/b''] \<and> map fst (paths (objs w ! 1)) = [''/a'']
     \<and> armed (objs w ! 0) \<and> armed (objs w ! 1)
     \<and> (PollForChanges (Some 1), PollCb 1) \<in> set (pending (objs w ! 0))
     \<and> (PullChanges None, PullCb None) \<in> set (pending (objs w ! 1))
     \<and> cursor (objs w ! 0) = Some 1 \<and> cursor (objs w ! 1) = None)"
  by code_simp

text \<open>
  C7, amended.  A construction whose key (uid and root in part_000, uid in part_001) is in
  the cache returns the cached object and changes nothing, so a second construction with
  the same uid and root right after the first returns the object of the first, and a second
  \<^verbatim>\<open>DropboxSync.sync\<close> returns the same object, allocates nothing, leaves the cache and
  every cursor alone and adds no poll and no pull to any object (first part, in any state
  of the process).  In every state that constructions, method calls on constructed objects
  and answers of the event loop can reach, the cache has one entry per key at most; in
  part_000 every entry leads to an existing object whose own key is the key of the entry,
  so no two cached objects have the same uid and root (second part); in part_001 every
  object ever constructed is cached under its uid, so no two objects have the same uid
  (third part).
\<close>

theorem same_identity_same_instance:
  fixes cfg cfg' :: dropboxConfig and r :: string and p p' :: "string option" and w :: world
  shows
   "(uid cfg' = uid cfg \<longrightarrow>
       DropboxSync cfg' r (snd (DropboxSync cfg r w)) = DropboxSync cfg r w
     \<and> DropboxSync1 cfg' r (snd (DropboxSync1 cfg r w)) = DropboxSync1 cfg r w
     \<and> (let w1 = snd (DropboxSync_sync cfg r p w); w2 = snd (DropboxSync_sync cfg' r p' w1)
        in w1 = process_run w [New cfg r, On (fst (DropboxSync cfg r w)) (Sync p)]
         \<and> fst (DropboxSync_sync cfg' r p' w1) = fst (DropboxSync_sync cfg r p w)
         \<and> cache w2 = cache w1 \<and> length (objs w2) = length (objs w1)
         \<and> map cursor (objs w2) = map cursor (objs w1)
         \<and> map (\<lambda>s. filter is_remote (pending s)) (objs w2)
           = map (\<lambda>s. filter is_remote (pending s)) (objs w1))
     \<and> (let w1 = snd (DropboxSync_sync1 cfg r p w); w2 = snd (DropboxSync_sync1 cfg' r p' w1)
        in w1 = process_run1 w [New cfg r, On (fst (DropboxSync1 cfg r w)) (Sync p)]
         \<and> fst (DropboxSync_sync1 cfg' r p' w1) = fst (DropboxSync_sync1 cfg r p w)
         \<and> cache w2 = cache w1 \<and> length (objs w2) = length (objs w1)
         \<and> map cursor (objs w2) = map cursor (objs w1)
         \<and> map pending (objs w2) = map pending (objs w1)))
  \<and> (let v = process_run boot evs in
       distinct (map fst (cache v))
     \<and> (\<forall>i. map_of (cache v) (cacheKey (uid cfg) r) = Some i \<longrightarrow>
            DropboxSync cfg r v = (i, v) \<and> i < length (objs v)
          \<and> cacheKey (client_uid (objs v ! i)) (root (objs v ! i)) = cacheKey (uid cfg) r)
     \<and> (\<forall>k k' i j. map_of (cache v) k = Some i \<longrightarrow> map_of (cache v) k' = Some j \<longrightarrow>
            client_uid (objs v ! i) = client_uid (objs v ! j) \<longrightarrow>
            root (objs v ! i) = root (objs v ! j) \<longrightarrow> i = j))
  \<and> (let v = process_run1 boot evs' in
       distinct (map fst (cache v))
     \<and> (\<forall>i. map_of (cache v) (uid cfg) = Some i \<longrightarrow>
            DropboxSync1 cfg r v = (i, v) \<and> i < length (objs v) \<and> client_uid (objs v ! i) = uid cfg)
     \<and> (\<forall>i<length (objs v). map_of (cache v) (client_uid (objs v ! i)) = Some i)
     \<and> (\<forall>i j. i < length (objs v) \<longrightarrow> j < length (objs v) \<longrightarrow>
            client_uid (objs v ! i) = client_uid (objs v ! j) \<longrightarrow> i = j))"
proof (intro conjI)
  show "uid cfg' = uid cfg \<longrightarrow>
       DropboxSync cfg' r (snd (DropboxSync cfg r w)) = DropboxSync cfg r w
     \<and> DropboxSync1 cfg' r (snd (DropboxSync1 cfg r w)) = DropboxSync1 cfg r w
     \<and> (let w1 = snd (DropboxSync_sync cfg r p w); w2 = snd (DropboxSync_sync cfg' r p' w1)
        in w1 = process_run w [New cfg r, On (fst (DropboxSync cfg r w)) (Sync p)]
         \<and> fst (DropboxSync_sync cfg' r p' w1) = fst (DropboxSync_sync cfg r p w)
         \<and> cache w2 = cache w1 \<and> length (objs w2) = length (objs w1)
         \<and> map cursor (objs w2) = map cursor (objs w1)
         \<and> map (\<lambda>s. filter is_remote (pending s)) (objs w2)
           = map (\<lambda>s. filter is_remote (pending s)) (objs w1))
     \<and> (let w1 = snd (DropboxSync_sync1 cfg r p w); w2 = snd (DropboxSync_sync1 cfg' r p' w1)
        in w1 = process_run1 w [New cfg r, On (fst (DropboxSync1 cfg r w)) (Sync p)]
         \<and> fst (DropboxSync_sync1 cfg' r p' w1) = fst (DropboxSync_sync1 cfg r p w)
         \<and> cache w2 = cache w1 \<and> length (objs w2) = length (objs w1)
         \<and> map cursor (objs w2) = map cursor (objs w1)
         \<and> map pending (objs w2) = map pending (objs w1))"
  proof
    assume u: "uid cfg' = uid cfg"
    show "DropboxSync cfg' r (snd (DropboxSync cfg r w)) = DropboxSync cfg r w
     \<and> DropboxSync1 cfg' r (snd (DropboxSync1 cfg r w)) = DropboxSync1 cfg r w
     \<and> (let w1 = snd (DropboxSync_sync cfg r p w); w2 = snd (DropboxSync_sync cfg' r p' w1)
        in w1 = process_run w [New cfg r, On (fst (DropboxSync cfg r w)) (Sync p)]
         \<and> fst (DropboxSync_sync cfg' r p' w1) = fst (DropboxSync_sync cfg r p w)
         \<and> cache w2 = cache w1 \<and> length (objs w2) = length (objs w1)
         \<and> map cursor (objs w2) = map cursor (objs w1)
         \<and> map (\<lambda>s. filter is_remote (pending s)) (objs w2)
           = map (\<lambda>s. filter is_remote (pending s)) (objs w1))
     \<and> (let w1 = snd (DropboxSync_sync1 cfg r p w); w2 = snd (DropboxSync_sync1 cfg' r p' w1)
        in w1 = process_run1 w [New cfg r, On (fst (DropboxSync1 cfg r w)) (Sync p)]
         \<and> fst (DropboxSync_sync1 cfg' r p' w1) = fst (DropboxSync_sync1 cfg r p w)
         \<and> cache w2 = cache w1 \<and> length (objs w2) = length (objs w1)
         \<and> map cursor (objs w2) = map cursor (objs w1)
         \<and> map pending (objs w2) = map pending (objs w1))"
      unfolding Let_def
      using DropboxSync_again [OF u, where r = r and w = w]
        DropboxSync1_again [OF u, where r = r and r' = r and w = w]
        DropboxSync_sync_again [OF u, where r = r and w = w and p = p and p' = p']
        DropboxSync_sync1_again [OF u, where r = r and r' = r and w = w and p = p and p' = p']
        DropboxSync_sync_run [where cfg = cfg and r = r and p = p and w = w]
      by simp
  qed
next
  define v where "v = process_run boot evs"
  have o: "cache_ok v" unfolding v_def by (rule cache_ok_run) (rule cache_ok_boot)
  have d: "distinct (map fst (cache v))"
    unfolding v_def by (rule distinct_cache_run) (simp add: boot_def)
  have h: "DropboxSync cfg r v = (i, v) \<and> i < length (objs v)
          \<and> cacheKey (client_uid (objs v ! i)) (root (objs v ! i)) = cacheKey (uid cfg) r"
    if "map_of (cache v) (cacheKey (uid cfg) r) = Some i" for i
    using o that DropboxSync_hit [OF that] by (simp add: cache_ok_def)
  have q: "i = j"
    if "map_of (cache v) k = Some i" "map_of (cache v) k' = Some j"
      "client_uid (objs v ! i) = client_uid (objs v ! j)" "root (objs v ! i) = root (objs v ! j)"
    for k k' i j
  proof -
    have "k = cacheKey (client_uid (objs v ! i)) (root (objs v ! i))"
      "k' = cacheKey (client_uid (objs v ! j)) (root (objs v ! j))"
      using o that(1,2) by (auto simp: cache_ok_def)
    then have "k = k'" using that(3,4) by simp
    then show ?thesis using that(1,2) by simp
  qed
  show "let v = process_run boot evs in
       distinct (map fst (cache v))
     \<and> (\<forall>i. map_of (cache v) (cacheKey (uid cfg) r) = Some i \<longrightarrow>
            DropboxSync cfg r v = (i, v) \<and> i < length (objs v)
          \<and> cacheKey (client_uid (objs v ! i)) (root (objs v ! i)) = cacheKey (uid cfg) r)
     \<and> (\<forall>k k' i j. map_of (cache v) k = Some i \<longrightarrow> map_of (cache v) k' = Some j \<longrightarrow>
            client_uid (objs v ! i) = client_uid (objs v ! j) \<longrightarrow>
            root (objs v ! i) = root (objs v ! j) \<longrightarrow> i = j)"
    unfolding Let_def v_def [symmetric] using d h q by blast
next
  define v where "v = process_run1 boot evs'"
  have o: "cache_ok1 v" unfolding v_def by (rule cache_ok1_run) (rule cache_ok_boot)
  have d: "distinct (map fst (cache v))"
    unfolding v_def by (rule distinct_cache_run1) (simp add: boot_def)
  have h: "DropboxSync1 cfg r v = (i, v) \<and> i < length (objs v) \<and> client_uid (objs v ! i) = uid cfg"
    if "map_of (cache v) (uid cfg) = Some i" for i
    using o that DropboxSync1_hit [OF that] by (simp add: cache_ok1_def)
  have a: "map_of (cache v) (client_uid (objs v ! i)) = Some i" if "i < length (objs v)" for i
    using o that by (simp add: cache_ok1_def)
  have q: "i = j"
    if "i < length (objs v)" "j < length (objs v)" "client_uid (objs v ! i) = client_uid (objs v ! j)"
    for i j
  proof -
    have "Some i = map_of (cache v) (client_uid (objs v ! i))" using a [OF that(1)] by simp
    also have "\<dots> = map_of (cache v) (client_uid (objs v ! j))" by (simp only: that(3))
    also have "\<dots> = Some j" by (rule a [OF that(2)])
    finally show ?thesis by simp
  qed
  show "let v = process_run1 boot evs' in
       distinct (map fst (cache v))
     \<and> (\<forall>i. map_of (cache v) (uid cfg) = Some i \<longrightarrow>
            DropboxSync1 cfg r v = (i, v) \<and> i < length (objs v) \<and> client_uid (objs v ! i) = uid cfg)
     \<and> (\<forall>i<length (objs v). map_of (cache v) (client_uid (objs v ! i)) = Some i)
     \<and> (\<forall>i j. i < length (objs v) \<longrightarrow> j < length (objs v) \<longrightarrow>
            client_uid (objs v ! i) = client_uid (objs v ! j) \<longrightarrow> i = j)"
    unfolding Let_def v_def [symmetric] using d h a q by blast
qed

theorem same_identity_same_instance_witness:
  "uid (account ''u'' ''t2'') = uid (account ''u'' ''t1'')
 \<and> DropboxSync (account ''u'' ''t2'') ''/r'' (snd (DropboxSync (account ''u'' ''t1'') ''/r'' boot))
     = (0, \<lparr>cache = [(''u:/r'', 0)], objs = [fresh ''u'' ''/r'']\<rparr>)
 \<and> (let v = process_run boot [New (account ''u'' ''t0'') ''/r'', On 0 (Sync (Some ''/a''))]
    in map_of (cache v) (cacheKey (uid (account ''u'' ''t1'')) ''/r'') = Some 0
     \<and> map fst (paths (objs v ! 0)) = [''/a'']
     \<and> DropboxSync (account ''u'' ''t1'') ''/r'' v = (0, v) \<and> 0 < length (objs v)
     \<and> cacheKey (client_uid (objs v ! 0)) (root (objs v ! 0)) = ''u:/r'')
 \<and> (let v = process_run1 boot [New (account ''u'' ''t0'') ''/r'', On 0 (Sync (Some ''/a''))]
    in map_of (cache v) (uid (account ''u'' ''t1'')) = Some 0
     \<and> map fst (paths (objs v ! 0)) = [''/a'']
     \<and> DropboxSync1 (account ''u'' ''t1'') ''/r'' v = (0, v) \<and> 0 < length (objs v)
     \<and> client_uid (objs v ! 0) = ''u''
     \<and> map_of (cache v) (client_uid (objs v ! 0)) = Some 0)"
proof -
  define e where "e = [New (account ''u'' ''t0'') ''/r'', On 0 (Sync (Some ''/a''))]"
  define v where "v = process_run boot e"
  define v1 where "v1 = process_run1 boot e"
  have u: "uid (account ''u'' ''t2'') = uid (account ''u'' ''t1'')" "uid (account ''u'' ''t1'') = ''u''"
    by (simp_all add: account_def)
  have k: "cacheKey ''u'' ''/r'' = ''u:/r''" by (simp add: cacheKey_def)
  have c: "DropboxSync (account ''u'' ''t1'') ''/r'' boot
         = (0, \<lparr>cache = [(''u:/r'', 0)], objs = [fresh ''u'' ''/r'']\<rparr>)"
    by (simp add: DropboxSync_def account_def cacheKey_def boot_def)
  have h: "map_of (cache v) (cacheKey (uid (account ''u'' ''t1'')) ''/r'') = Some 0"
    "map fst (paths (objs v ! 0)) = [''/a'']"
    unfolding v_def e_def by code_simp+
  have h1: "map_of (cache v1) (uid (account ''u'' ''t1'')) = Some 0"
    "map fst (paths (objs v1 ! 0)) = [''/a'']"
    unfolding v1_def e_def by code_simp+
  note t = same_identity_same_instance [where cfg = "account ''u'' ''t1''" and cfg' = "account ''u'' ''t2''"
      and r = "''/r''" and p = None and p' = None and w = boot and evs = e and evs' = e,
      unfolded Let_def, folded v_def v1_def]
  have A: "DropboxSync (account ''u'' ''t2'') ''/r'' (snd (DropboxSync (account ''u'' ''t1'') ''/r'' boot))
         = DropboxSync (account ''u'' ''t1'') ''/r'' boot"
    using t [THEN conjunct1] u(1) by blast
  have B: "DropboxSync (account ''u'' ''t1'') ''/r'' v = (0, v) \<and> 0 < length (objs v)
         \<and> cacheKey (client_uid (objs v ! 0)) (root (objs v ! 0)) = cacheKey (uid (account ''u'' ''t1'')) ''/r''"
    using t [THEN conjunct2, THEN conjunct1] h(1) by blast
  have C: "DropboxSync1 (account ''u'' ''t1'') ''/r'' v1 = (0, v1) \<and> 0 < length (objs v1)
         \<and> client_uid (objs v1 ! 0) = uid (account ''u'' ''t1'')"
    using t [THEN conjunct2, THEN conjunct2] h1(1) by blast
  have D: "map_of (cache v1) (client_uid (objs v1 ! 0)) = Some 0"
    using t [THEN conjunct2, THEN conjunct2] C by blast
  show ?thesis
    unfolding Let_def e_def [symmetric] v_def [symmetric] v1_def [symmetric]
    using u A B C D h h1 c k by simp
qed

subsection \<open>Nothing is lost in the queue of a change handler\<close>

lemma delivered_snoc:
  "delivered r (tr @ [a])
     = delivered r tr @ (case a of OnChange r' t \<Rightarrow> if r' = r then [t] else [] | _ \<Rightarrow> [])"
  by (simp add: delivered_def)

lemma backlog_queue_push:
  "backlog r (queue_push q t s) = backlog r s @ (if q = r \<and> r < length (queues s) then [t] else [])"
  by (auto simp: backlog_def waiting_def queue_push_def issue_def delivered_snoc nth_list_update)

lemma backlog_pathHandler:
  "backlog r (pathHandler q (Inr cm) s)
     = backlog r s @ (if q = r \<and> cm \<noteq> [] \<and> r < length (queues s)
                      then [map (toLocalPath (root s)) cm] else [])"
  by (simp add: pathHandler_def backlog_queue_push)

lemma backlog_queue_process: "backlog r (queue_process q s) = backlog r s"
  by (auto simp: backlog_def waiting_def queue_process_def Let_def emit_def delivered_snoc
                 nth_list_update split: list.splits)

lemma backlog_stable: "stable (\<lambda>t. prefix B (backlog r t))"
proof -
  have a: "backlog r (issue c k t) = backlog r t" for c k t
    by (simp add: backlog_def waiting_def issue_def delivered_snoc)
  have b: "silent a \<Longrightarrow> backlog r (emit a t) = backlog r t" for a t
    by (cases a) (simp_all add: backlog_def waiting_def emit_def delivered_snoc silent_def)
  have c: "backlog r (pullChanges p t) = backlog r t" for p t
    by (simp add: pullChanges_def backlog_def waiting_def issue_def delivered_snoc)
  have d: "prefix B (backlog r t) \<Longrightarrow> prefix B (backlog r (queue_push q x t))" for q x t
    by (simp add: backlog_queue_push)
  show ?thesis
    unfolding stable_def using a b c d by (simp add: backlog_def waiting_def)
qed

lemma backlog_step:
  assumes "prefix B (backlog r (snd cs))"
  shows "prefix B (backlog r (snd (step cs ev)))"
proof -
  obtain C s where cs: "cs = (C, s)" by (cases cs)
  define P where "P = (\<lambda>t::inst. prefix B (backlog r t))"
  have st: "stable P" unfolding P_def by (rule backlog_stable)
  have P: "P s" using assms by (simp add: P_def cs)
  have QP: "\<And>q t. P t \<Longrightarrow> P (queue_process q t)" by (simp add: P_def backlog_queue_process)
  have "P (snd (step cs ev))"
  proof (cases ev)
    case (Sync p)
    have "backlog r (getLocalState p' (length (queues s))
                      (s\<lparr>queues := queues s @ [\<lparr>tasks = [], workers = 0\<rparr>], paths := y\<rparr>))
          = backlog r s" for p' y
      by (auto simp: backlog_def waiting_def getLocalState_def issue_def delivered_snoc nth_append)
    then have "P (getLocalState p' (length (queues s))
                      (s\<lparr>queues := queues s @ [\<lparr>tasks = [], workers = 0\<rparr>], paths := y\<rparr>))" for p' y
      using P by (simp add: P_def)
    then show ?thesis by (simp add: cs Sync sync_def Let_def stable_watchForChanges [OF st])
  next
    case (StopSync p)
    then show ?thesis using stable_stopSync [OF st P] by (simp add: cs)
  next
    case (ConsumerCallback q)
    have w: "waiting r (t\<lparr>queues := (queues t)[q := (queues t ! q)\<lparr>workers := n\<rparr>]\<rparr>) = waiting r t"
      for t n
      by (cases "q = r") (simp_all add: waiting_def)
    have a: "P (t\<lparr>queues := (queues t)[q := (queues t ! q)\<lparr>workers := n\<rparr>]\<rparr>)" if "P t" for t n
      using that w [of t n] by (simp add: P_def backlog_def)
    have b: "P (queue_next q t)" if "P t" for t
      using that a [OF that] stable_watchForChanges [OF st a [OF that]]
      by (simp add: queue_next_def Let_def QP)
    have "backlog r (emit (CalledBack q) s) = backlog r s"
      by (simp add: backlog_def waiting_def emit_def delivered_snoc)
    then have "P (emit (CalledBack q) s)" using P by (simp add: P_def)
    then show ?thesis using P b by (simp add: cs ConsumerCallback)
  next
    case (Return x k res)
    have "backlog r (answered x k res s) = backlog r s"
      by (simp add: backlog_def waiting_def answered_def delivered_snoc)
    then have A: "P (answered x k res s)" using P by (simp add: P_def)
    have "P (resume k res (answered x k res s))"
    proof (cases "\<exists>pg prev. res = Pulled pg \<and> k = PullCb prev")
      case True
      then obtain pg prev where e: "res = Pulled pg" "k = PullCb prev" by blast
      have "backlog r (t\<lparr>cursor := c, pullingChanges := b\<rparr>) = backlog r t" for t c b
        by (simp add: backlog_def waiting_def)
      then have u: "P (t\<lparr>cursor := c, pullingChanges := b\<rparr>)" if "P t" for t c b
        using that by (simp add: P_def)
      show ?thesis
        using stable_pullChanges [OF st u [OF A]] stable_commitChanges [OF st u [OF A]]
        by (simp add: e pulled_def Let_def)
    next
      case False
      show ?thesis by (rule stable_resume [OF st QP A False])
    qed
    then show ?thesis using P by (simp add: cs Return)
  qed
  then show ?thesis by (simp add: P_def)
qed

lemma backlog_run: "prefix B (backlog r (snd cs)) \<Longrightarrow> prefix B (backlog r (snd (run cs evs)))"
  unfolding run_def by (induction evs arbitrary: cs) (simp_all add: backlog_step)

lemma scheduled_queue_process: "scheduled r (queue_process r s)"
  by (auto simp: scheduled_def waiting_def queue_process_def Let_def emit_def split: list.splits)

lemma scheduled_queue_process_other: "scheduled r s \<Longrightarrow> scheduled r (queue_process q s)"
  by (cases "q = r")
     (auto simp: scheduled_def waiting_def queue_process_def Let_def emit_def split: list.splits)

lemma scheduled_stable: "stable (scheduled r)"
proof -
  have a: "scheduled r t \<Longrightarrow> scheduled r (issue c k t)" for c k t
    by (auto simp: scheduled_def waiting_def issue_def)
  have b: "scheduled r t \<Longrightarrow> scheduled r (emit a t)" for a t
    by (auto simp: scheduled_def waiting_def emit_def)
  have c: "scheduled r t \<Longrightarrow> scheduled r (pullChanges p t)" for p t
    by (auto simp: scheduled_def waiting_def pullChanges_def issue_def)
  have d: "scheduled r t \<Longrightarrow> scheduled r (queue_push q x t)" for q x t
    by (cases "q = r") (auto simp: scheduled_def waiting_def queue_push_def issue_def)
  show ?thesis
    unfolding stable_def using a b c d by (simp add: scheduled_def waiting_def)
qed

lemma scheduled_step:
  assumes "scheduled r (snd cs)"
  shows "scheduled r (snd (step cs ev))"
proof -
  obtain C s where cs: "cs = (C, s)" by (cases cs)
  note st = scheduled_stable [of r]
  have P: "scheduled r s" using assms by (simp add: cs)
  show ?thesis
  proof (cases ev)
    case (Sync p)
    have "scheduled r (getLocalState p' (length (queues s))
                      (s\<lparr>queues := queues s @ [\<lparr>tasks = [], workers = 0\<rparr>], paths := y\<rparr>))" for p' y
      using P by (auto simp: scheduled_def waiting_def getLocalState_def issue_def nth_append)
    then show ?thesis by (simp add: cs Sync sync_def Let_def stable_watchForChanges [OF st])
  next
    case (StopSync p)
    then show ?thesis using stable_stopSync [OF st P] by (simp add: cs)
  next
    case (ConsumerCallback q)
    show ?thesis
    proof (cases "q = r")
      case True
      then show ?thesis
        using P by (simp add: cs ConsumerCallback queue_next_def Let_def scheduled_queue_process emit_def)
    next
      case False
      have a: "scheduled r (t\<lparr>queues := (queues t)[q := x]\<rparr>)" if "scheduled r t" for t x
        using that False by (auto simp: scheduled_def waiting_def)
      have b: "scheduled r (queue_next q t)" if "scheduled r t" for t
        using that a [OF that] stable_watchForChanges [OF st a [OF that]]
        by (simp add: queue_next_def Let_def scheduled_queue_process_other)
      have "scheduled r (emit (CalledBack q) s)"
        using P by (auto simp: scheduled_def waiting_def emit_def)
      then show ?thesis using P b by (simp add: cs ConsumerCallback)
    qed
  next
    case (Return x k res)
    show ?thesis
    proof (cases "(x, k) \<in> set (pending s) \<and> valid_result x res")
      case False
      then show ?thesis using P by (auto simp: cs Return)
    next
      case True
      have "scheduled r (resume k res (answered x k res s))"
      proof (cases "k = QueueProcess r")
        case k: True
        show ?thesis by (simp add: k scheduled_queue_process)
      next
        case k: False
        have "(SetImmediate, QueueProcess r) \<in> set (remove1 (x, k) (pending s))"
          if "(SetImmediate, QueueProcess r) \<in> set (pending s)"
          using that k by (simp add: in_set_remove1)
        then have A: "scheduled r (answered x k res s)"
          using P by (auto simp: scheduled_def waiting_def answered_def)
        show ?thesis
        proof (cases "\<exists>pg prev. res = Pulled pg \<and> k = PullCb prev")
          case True
          then obtain pg prev where e: "res = Pulled pg" "k = PullCb prev" by blast
          have u: "scheduled r (t\<lparr>cursor := c, pullingChanges := b\<rparr>)" if "scheduled r t" for t c b
            using that by (auto simp: scheduled_def waiting_def)
          show ?thesis
            using stable_pullChanges [OF st u [OF A]] stable_commitChanges [OF st u [OF A]]
            by (simp add: e pulled_def Let_def)
        next
          case False
          show ?thesis by (rule stable_resume [OF st scheduled_queue_process_other A False])
        qed
      qed
      then show ?thesis using True by (simp add: cs Return)
    qed
  qed
qed

lemma scheduled_run: "scheduled r (snd cs) \<Longrightarrow> scheduled r (snd (run cs evs))"
  unfolding run_def by (induction evs arbitrary: cs) (simp_all add: scheduled_step)

lemma run_snoc: "run cs (evs @ [ev]) = step (run cs evs) ev"
  by (simp add: run_def)

lemma turn_delivers:
  assumes w: "waiting r s = t # ts" and i: "workers (queues s ! r) = 0"
    and m: "(SetImmediate, QueueProcess r) \<in> set (pending s)"
  shows "trace (snd (step (C, s) (Return SetImmediate (QueueProcess r) Ok)))
           = trace s @ [Returned SetImmediate (QueueProcess r) Ok, OnChange r t]
       \<and> waiting r (snd (step (C, s) (Return SetImmediate (QueueProcess r) Ok))) = ts"
proof -
  have l: "r < length (queues s)" "tasks (queues s ! r) = t # ts"
    using w by (auto simp: waiting_def split: if_splits)
  show ?thesis
    using l i m by (simp add: answered_def queue_process_def Let_def emit_def waiting_def)
qed

lemma callback_delivers:
  assumes w: "waiting r s = t # ts" and i: "workers (queues s ! r) = 1"
  shows "trace (snd (step (C, s) (ConsumerCallback r))) = trace s @ [CalledBack r, OnChange r t]
       \<and> waiting r (snd (step (C, s) (ConsumerCallback r))) = ts"
proof -
  have l: "r < length (queues s)" "tasks (queues s ! r) = t # ts"
    using w by (auto simp: waiting_def split: if_splits)
  show ?thesis
    using l i by (simp add: queue_next_def queue_process_def Let_def emit_def waiting_def)
qed

text \<open>
  C1, amended.  What the queue of part_000 serializes is the change handler.  In every run
  of an object made by the constructor, for every registration \<open>r\<close>: \<open>onChange\<close> is never
  called while an earlier call of it has not called back (first part).  No change list is
  dropped or overtaken: the lists \<open>onChange\<close> has been called with, followed by the lists
  that wait in the queue, only ever grow at the end (second part), and they grow by the
  list of local paths of every non-empty change list the handler of the path is called
  with (last part).  A list that waits is handed over by the next turn: while lists wait,
  \<open>onChange\<close> is running or a turn of the queue is scheduled (third part); when it runs,
  the consumer's callback calls \<open>onChange\<close> with the first list that waits (fourth part);
  when it does not, the scheduled turn does (fifth part).
\<close>

theorem change_handler_is_serialized:
  "(let s = snd (run (C, fresh u rt) evs) in
      serial r (trace s)
    \<and> prefix (backlog r s) (backlog r (snd (run (C, fresh u rt) (evs @ evs'))))
    \<and> (waiting r s \<noteq> [] \<longrightarrow>
          handler_state r (trace s) = Some True \<or> (SetImmediate, QueueProcess r) \<in> set (pending s))
    \<and> (\<forall>t ts. waiting r s = t # ts \<longrightarrow> handler_state r (trace s) = Some True \<longrightarrow>
          (let s' = snd (run (C, fresh u rt) (evs @ [ConsumerCallback r]))
           in trace s' = trace s @ [CalledBack r, OnChange r t] \<and> waiting r s' = ts))
    \<and> (\<forall>t ts. waiting r s = t # ts \<longrightarrow> handler_state r (trace s) \<noteq> Some True \<longrightarrow>
          (SetImmediate, QueueProcess r) \<in> set (pending s)
        \<and> (let s' = snd (run (C, fresh u rt) (evs @ [Return SetImmediate (QueueProcess r) Ok]))
           in trace s' = trace s @ [Returned SetImmediate (QueueProcess r) Ok, OnChange r t]
            \<and> waiting r s' = ts)))
 \<and> backlog r (pathHandler q (Inr cm) sa)
     = backlog r sa @ (if q = r \<and> cm \<noteq> [] \<and> r < length (queues sa)
                       then [map (toLocalPath (root sa)) cm] else [])"
proof -
  define cs where "cs = run (C, fresh u rt) evs"
  define s where "s = snd cs"
  have cs: "cs = (fst cs, s)" by (simp add: s_def)
  have qa: "queues_agree s"
    unfolding s_def cs_def by (rule queues_agree_run) (simp add: queues_agree_fresh)
  have sc: "scheduled r s"
    unfolding s_def cs_def by (rule scheduled_run) (simp add: scheduled_def waiting_def fresh_def)
  have hs: "handler_state r (trace s) = Some (r < length (queues s) \<and> workers (queues s ! r) = 1)"
    and le: "r < length (queues s) \<Longrightarrow> workers (queues s ! r) \<le> 1"
    using qa by (simp_all add: queues_agree_def)
  have 1: "serial r (trace s)" using hs by (simp add: serial_def)
  have 2: "prefix (backlog r s) (backlog r (snd (run (C, fresh u rt) (evs @ evs'))))"
  proof -
    have "run (C, fresh u rt) (evs @ evs') = run cs evs'" by (simp add: run_def cs_def)
    then show ?thesis using backlog_run [of "backlog r s" r cs evs'] by (simp add: s_def)
  qed
  have l: "r < length (queues s)" if "waiting r s \<noteq> []"
    using that by (auto simp: waiting_def split: if_splits)
  have 3: "handler_state r (trace s) = Some True \<or> (SetImmediate, QueueProcess r) \<in> set (pending s)"
    if w: "waiting r s \<noteq> []"
  proof (cases "0 < workers (queues s ! r)")
    case True
    then have "workers (queues s ! r) = 1" using le [OF l [OF w]] by simp
    then show ?thesis using hs l [OF w] by simp
  next
    case False
    then show ?thesis using sc w by (simp add: scheduled_def)
  qed
  have 4: "trace (snd (run (C, fresh u rt) (evs @ [ConsumerCallback r])))
             = trace s @ [CalledBack r, OnChange r t]
         \<and> waiting r (snd (run (C, fresh u rt) (evs @ [ConsumerCallback r]))) = ts"
    if w: "waiting r s = t # ts" and h: "handler_state r (trace s) = Some True" for t ts
  proof -
    have i: "workers (queues s ! r) = 1" using h hs by simp
    have "run (C, fresh u rt) (evs @ [ConsumerCallback r]) = step (fst cs, s) (ConsumerCallback r)"
      using cs by (simp add: run_snoc cs_def)
    then show ?thesis using callback_delivers [OF w i, of "fst cs"] by simp
  qed
  have 5: "(SetImmediate, QueueProcess r) \<in> set (pending s)
         \<and> trace (snd (run (C, fresh u rt) (evs @ [Return SetImmediate (QueueProcess r) Ok])))
             = trace s @ [Returned SetImmediate (QueueProcess r) Ok, OnChange r t]
         \<and> waiting r (snd (run (C, fresh u rt) (evs @ [Return SetImmediate (QueueProcess r) Ok]))) = ts"
    if w: "waiting r s = t # ts" and h: "handler_state r (trace s) \<noteq> Some True" for t ts
  proof -
    have ne: "waiting r s \<noteq> []" using w by simp
    have "workers (queues s ! r) \<noteq> 1" using h hs l [OF ne] by simp
    then have i: "workers (queues s ! r) = 0" using le [OF l [OF ne]] by simp
    have m: "(SetImmediate, QueueProcess r) \<in> set (pending s)" using 3 [OF ne] h by simp
    have "run (C, fresh u rt) (evs @ [Return SetImmediate (QueueProcess r) Ok])
          = step (fst cs, s) (Return SetImmediate (QueueProcess r) Ok)"
      using cs by (simp add: run_snoc cs_def)
    then show ?thesis using turn_delivers [OF w i m, of "fst cs"] m by simp
  qed
  show ?thesis
    unfolding Let_def s_def [symmetric] cs_def [symmetric]
    using 1 2 3 4 5 backlog_pathHandler [of r q cm sa] by blast
qed

theorem change_handler_is_serialized_witness:
  "(let e = [Sync (Some ''/a''),
             Return (Readdir (PathJoin ''/r'' ''./a'')) (LocalStateCb 0) (Listing [''x'']),
             Return (PullChanges None) (PullCb None) (Pulled (page [removal ''/a/y''] False False 1)),
             Return (FsRemove (PathJoin ''/r'' ''./a/y'')) (EachDone 0 0) Ok];
        s = snd (run ([], fresh ''u'' ''/r'') e);
        s1 = snd (run ([], fresh ''u'' ''/r'') (e @ [Return SetImmediate (QueueProcess 0) Ok]));
        s2 = snd (run ([], fresh ''u'' ''/r'')
                   ((e @ [Return SetImmediate (QueueProcess 0) Ok]) @ [ConsumerCallback 0]))
    in waiting 0 s = [[PathJoin ''/r'' ''x''], [PathJoin ''/r'' ''./a/y'']]
     \<and> handler_state 0 (trace s) \<noteq> Some True
     \<and> (SetImmediate, QueueProcess 0) \<in> set (pending s)
     \<and> trace s1 = trace s @ [Returned SetImmediate (QueueProcess 0) Ok, OnChange 0 [PathJoin ''/r'' ''x'']]
     \<and> waiting 0 s1 = [[PathJoin ''/r'' ''./a/y'']]
     \<and> handler_state 0 (trace s1) = Some True
     \<and> trace s2 = trace s1 @ [CalledBack 0, OnChange 0 [PathJoin ''/r'' ''./a/y'']]
     \<and> waiting 0 s2 = [])"
proof -
  define e where "e = [Sync (Some ''/a''),
             Return (Readdir (PathJoin ''/r'' ''./a'')) (LocalStateCb 0) (Listing [''x'']),
             Return (PullChanges None) (PullCb None) (Pulled (page [removal ''/a/y''] False False 1)),
             Return (FsRemove (PathJoin ''/r'' ''./a/y'')) (EachDone 0 0) Ok]"
  define e1 where "e1 = e @ [Return SetImmediate (QueueProcess 0) Ok]"
  define s where "s = snd (run ([], fresh ''u'' ''/r'') e)"
  define s1 where "s1 = snd (run ([], fresh ''u'' ''/r'') e1)"
  define s2 where "s2 = snd (run ([], fresh ''u'' ''/r'') (e1 @ [ConsumerCallback 0]))"
  have h: "waiting 0 s = [[PathJoin ''/r'' ''x''], [PathJoin ''/r'' ''./a/y'']]"
    "handler_state 0 (trace s) \<noteq> Some True"
    unfolding s_def e_def by code_simp+
  have h1: "waiting 0 s1 = [[PathJoin ''/r'' ''./a/y'']]" "handler_state 0 (trace s1) = Some True"
    unfolding s1_def e1_def e_def by code_simp+
  note a = change_handler_is_serialized [where C = "[]" and u = "''u''" and rt = "''/r''"
      and r = 0 and evs = e and evs' = "[]" and q = 0 and cm = "[]" and sa = "fresh ''u'' ''/r''",
      unfolded Let_def, folded s_def, THEN conjunct1]
  note b = change_handler_is_serialized [where C = "[]" and u = "''u''" and rt = "''/r''"
      and r = 0 and evs = e1 and evs' = "[]" and q = 0 and cm = "[]" and sa = "fresh ''u'' ''/r''",
      unfolded Let_def, folded s1_def s2_def, THEN conjunct1]
  have A: "(SetImmediate, QueueProcess 0) \<in> set (pending s)
         \<and> trace s1 = trace s @ [Returned SetImmediate (QueueProcess 0) Ok, OnChange 0 [PathJoin ''/r'' ''x'']]
         \<and> waiting 0 s1 = [[PathJoin ''/r'' ''./a/y'']]"
    using a h unfolding s1_def e1_def by blast
  have B: "trace s2 = trace s1 @ [CalledBack 0, OnChange 0 [PathJoin ''/r'' ''./a/y'']]
         \<and> waiting 0 s2 = []"
    using b h1 by blast
  show ?thesis
    unfolding Let_def e_def [symmetric] e1_def [symmetric] s_def [symmetric] s1_def [symmetric]
      s2_def [symmetric]
    using A B h h1 by simp
qed

lemma commitChanges_requests:
  assumes b: "\<not> blankSlate pc" and ne: "changes pc \<noteq> []"
  shows "pending (commitChanges pc s)
           = pending s @ concat (map (\<lambda>(i, ch). first_requests (root s) (length (commits s)) i ch)
                                  (enumerate 0 (changes pc)))"
    and "pending (commitChanges1 p pc q s)
           = pending s @ concat (map (\<lambda>(i, ch). first_requests (root s) (length (commits s)) i ch)
                                  (enumerate 0 (changes pc)))"
proof -
  define s1 where "s1 = s\<lparr>commits := commits s @ [new_commit pc None None None]\<rparr>"
  define s2 where "s2 = s\<lparr>commits := commits s @ [new_commit pc (Some p) (Some q) None]\<rparr>"
  have c1: "length (commits s) < length (commits s1)" "changes (batch (commits s1 ! length (commits s))) \<noteq> []"
    "pending s1 = pending s" "root s1 = root s" "changes (batch (commits s1 ! length (commits s))) = changes pc"
    using ne by (simp_all add: s1_def new_commit_def)
  have c2: "length (commits s) < length (commits s2)" "changes (batch (commits s2 ! length (commits s))) \<noteq> []"
    "pending s2 = pending s" "root s2 = root s" "changes (batch (commits s2 ! length (commits s))) = changes pc"
    using ne by (simp_all add: s2_def new_commit_def)
  show "pending (commitChanges pc s)
           = pending s @ concat (map (\<lambda>(i, ch). first_requests (root s) (length (commits s)) i ch)
                                  (enumerate 0 (changes pc)))"
    using b each_start_requests(1) [OF c1(1,2)] c1(3,4,5)
    by (simp add: commitChanges_def Let_def s1_def)
  show "pending (commitChanges1 p pc q s)
           = pending s @ concat (map (\<lambda>(i, ch). first_requests (root s) (length (commits s)) i ch)
                                  (enumerate 0 (changes pc)))"
    using b each_start_requests(2) [OF c2(1,2)] c2(3,4,5)
    by (simp add: commitChanges1_def Let_def s2_def)
qed

text \<open>
  C3, amended.  \<open>commitChanges\<close> applies the entries with \<^verbatim>\<open>async.each\<close>:
  \<open>commitChange\<close> is called for every entry in feed order within one turn of the event
  loop, so the first requests of all entries are issued in entry order before any of them
  is answered; no entry waits for an earlier one.  (An entry that is neither removal, file
  nor folder issues nothing.)  This is what the second task of the series does (first
  part) and so what \<open>commitChanges\<close> does at once for a batch that is no blank slate
  (second part), in part_000 and part_001 alike; for a blank slate the second task runs
  when the \<open>mkdirs\<close> of the reset has returned (third part).
\<close>

theorem entries_started_in_order_together:
  "(c < length (commits s) \<longrightarrow> changes (batch (commits s ! c)) \<noteq> [] \<longrightarrow>
      pending (each_start commitCallback c s)
        = pending s @ concat (map (\<lambda>(i, ch). first_requests (root s) c i ch)
                               (enumerate 0 (changes (batch (commits s ! c)))))
    \<and> pending (each_start commitCallback1 c s)
        = pending s @ concat (map (\<lambda>(i, ch). first_requests (root s) c i ch)
                               (enumerate 0 (changes (batch (commits s ! c))))))
 \<and> (\<not> blankSlate pc \<longrightarrow> changes pc \<noteq> [] \<longrightarrow>
      pending (commitChanges pc s)
        = pending s @ concat (map (\<lambda>(i, ch). first_requests (root s) (length (commits s)) i ch)
                               (enumerate 0 (changes pc)))
    \<and> pending (commitChanges1 p pc q s)
        = pending s @ concat (map (\<lambda>(i, ch). first_requests (root s) (length (commits s)) i ch)
                               (enumerate 0 (changes pc))))
 \<and> resume (SeriesNext c) Ok s = each_start commitCallback c s
 \<and> resume1 (SeriesNext c) Ok s = each_start commitCallback1 c s"
proof (intro conjI impI)
  assume c: "c < length (commits s)" and ne: "changes (batch (commits s ! c)) \<noteq> []"
  show "pending (each_start commitCallback c s)
        = pending s @ concat (map (\<lambda>(i, ch). first_requests (root s) c i ch)
                               (enumerate 0 (changes (batch (commits s ! c)))))"
    by (rule each_start_requests(1) [OF c ne])
  show "pending (each_start commitCallback1 c s)
        = pending s @ concat (map (\<lambda>(i, ch). first_requests (root s) c i ch)
                               (enumerate 0 (changes (batch (commits s ! c)))))"
    by (rule each_start_requests(2) [OF c ne])
next
  assume b: "\<not> blankSlate pc" and ne: "changes pc \<noteq> []"
  show "pending (commitChanges pc s)
        = pending s @ concat (map (\<lambda>(i, ch). first_requests (root s) (length (commits s)) i ch)
                               (enumerate 0 (changes pc)))"
    by (rule commitChanges_requests(1) [OF b ne])
  show "pending (commitChanges1 p pc q s)
        = pending s @ concat (map (\<lambda>(i, ch). first_requests (root s) (length (commits s)) i ch)
                               (enumerate 0 (changes pc)))"
    by (rule commitChanges_requests(2) [OF b ne])
qed simp_all

theorem entries_started_in_order_together_witness:
  "(let pc = page [removal ''/a'', fileEntry ''/b'', folderEntry ''/c''] False False 1;
        s = (fresh ''u'' ''/r'')\<lparr>commits := [new_commit pc None None None]\<rparr>
    in 0 < length (commits s) \<and> changes (batch (commits s ! 0)) \<noteq> []
     \<and> \<not> blankSlate pc \<and> changes pc \<noteq> []
     \<and> pending (each_start commitCallback 0 s)
        = [(FsRemove (PathJoin ''/r'' ''./a''), EachDone 0 0),
           (FsRemove (PathJoin ''/r'' ''./b''), ParallelLocal 0 1 (PathJoin ''/r'' ''./b'')),
           (ReadFile ''/b'', ParallelDropbox 0 1 (PathJoin ''/r'' ''./b'')),
           (FsStat (PathJoin ''/r'' ''./c''), FolderStatCb 0 2 (PathJoin ''/r'' ''./c''))]
     \<and> pending (commitChanges pc s)
        = [(FsRemove (PathJoin ''/r'' ''./a''), EachDone 1 0),
           (FsRemove (PathJoin ''/r'' ''./b''), ParallelLocal 1 1 (PathJoin ''/r'' ''./b'')),
           (ReadFile ''/b'', ParallelDropbox 1 1 (PathJoin ''/r'' ''./b'')),
           (FsStat (PathJoin ''/r'' ''./c''), FolderStatCb 1 2 (PathJoin ''/r'' ''./c''))]
     \<and> pending (commitChanges1 ''/'' pc 0 s) = pending (commitChanges pc s))"
proof -
  define pc where "pc = page [removal ''/a'', fileEntry ''/b'', folderEntry ''/c''] False False 1"
  define s where "s = (fresh ''u'' ''/r'')\<lparr>commits := [new_commit pc None None None]\<rparr>"
  have h: "0 < length (commits s)" "changes (batch (commits s ! 0)) \<noteq> []"
    "\<not> blankSlate pc" "changes pc \<noteq> []"
    unfolding s_def pc_def by code_simp+
  have v: "pending s @ concat (map (\<lambda>(i, ch). first_requests (root s) 0 i ch)
                                  (enumerate 0 (changes (batch (commits s ! 0)))))
        = [(FsRemove (PathJoin ''/r'' ''./a''), EachDone 0 0),
           (FsRemove (PathJoin ''/r'' ''./b''), ParallelLocal 0 1 (PathJoin ''/r'' ''./b'')),
           (ReadFile ''/b'', ParallelDropbox 0 1 (PathJoin ''/r'' ''./b'')),
           (FsStat (PathJoin ''/r'' ''./c''), FolderStatCb 0 2 (PathJoin ''/r'' ''./c''))]"
    unfolding s_def pc_def by code_simp
  have v': "pending s @ concat (map (\<lambda>(i, ch). first_requests (root s) (length (commits s)) i ch)
                                  (enumerate 0 (changes pc)))
        = [(FsRemove (PathJoin ''/r'' ''./a''), EachDone 1 0),
           (FsRemove (PathJoin ''/r'' ''./b''), ParallelLocal 1 1 (PathJoin ''/r'' ''./b'')),
           (ReadFile ''/b'', ParallelDropbox 1 1 (PathJoin ''/r'' ''./b'')),
           (FsStat (PathJoin ''/r'' ''./c''), FolderStatCb 1 2 (PathJoin ''/r'' ''./c''))]"
    unfolding s_def pc_def by code_simp
  note t = entries_started_in_order_together
             [where c = 0 and s = s and pc = pc and p = "''/''" and q = 0]
  have a: "pending (each_start commitCallback 0 s)
           = pending s @ concat (map (\<lambda>(i, ch). first_requests (root s) 0 i ch)
                                  (enumerate 0 (changes (batch (commits s ! 0)))))"
    using t [THEN conjunct1] h(1,2) by blast
  have b: "pending (commitChanges pc s)
           = pending s @ concat (map (\<lambda>(i, ch). first_requests (root s) (length (commits s)) i ch)
                                  (enumerate 0 (changes pc)))"
       "pending (commitChanges1 ''/'' pc 0 s)
           = pending s @ concat (map (\<lambda>(i, ch). first_requests (root s) (length (commits s)) i ch)
                                  (enumerate 0 (changes pc)))"
    using t [THEN conjunct2, THEN conjunct1] h(3,4) by blast+
  show ?thesis
    unfolding Let_def pc_def [symmetric] s_def [symmetric]
    using h a b v v' by simp
qed

end
